(* ===== verification/Prelude.thy ===== *)
theory Prelude
  imports Complex_Main "HOL-Library.Word" "HOL-Library.Signed_Division"
    "HOL-Library.Multiset"
begin

text \<open>
  What the component theories share: the widths of the machine integers the C++ code uses, the
  truncating integer division of the language, and the ordered associative container
  \<^verbatim>\<open>std::map\<close> as a key-sorted association list with its interface as a locale.
\<close>

section \<open>Machine integers\<close>

type_synonym u32 = "32 word"   \<comment> \<open>\<^verbatim>\<open>std::uint32_t\<close>\<close>
type_synonym u64 = "64 word"   \<comment> \<open>\<^verbatim>\<open>std::uint64_t\<close> and \<^verbatim>\<open>std::size_t\<close>\<close>
type_synonym uint256 = "256 word"  \<comment> \<open>\<^verbatim>\<open>base_uint<256>\<close>: hashes, compared as big-endian numbers\<close>

text \<open>
  The quotient of two C++ integers rounds towards zero; \<^const>\<open>signed_divide\<close> of
  HOL-Library is that operation on \<^typ>\<open>int\<close>.
\<close>

lemma sdiv_nonneg [simp]: "0 \<le> (a::int) \<Longrightarrow> 0 \<le> b \<Longrightarrow> a sdiv b = a div b"
  by (simp add: signed_divide_int_def sgn_if zdiv_eq_0_iff)

lemma sdiv_neg_small: "(a::int) < 0 \<Longrightarrow> 0 < b \<Longrightarrow> a sdiv b = - ((- a) div b)"
  by (simp add: signed_divide_int_def sgn_if)

lemma sdiv_mono:
  fixes a a' b :: int
  assumes "a \<le> a'" and "0 < b"
  shows "a sdiv b \<le> a' sdiv b"
proof (cases "0 \<le> a")
  case True
  with assms show ?thesis by (simp add: zdiv_mono1)
next
  case False
  then have a: "a sdiv b = - ((- a) div b)" using assms by (simp add: sdiv_neg_small)
  show ?thesis
  proof (cases "0 \<le> a'")
    case True
    have "0 \<le> (- a) div b" using False assms by (simp add: pos_imp_zdiv_nonneg_iff)
    moreover have "0 \<le> a' div b" using True assms by (simp add: pos_imp_zdiv_nonneg_iff)
    ultimately show ?thesis using a True assms by simp
  next
    case f: False
    have "(- a') div b \<le> (- a) div b" using assms by (simp add: zdiv_mono1)
    then show ?thesis using a f assms by (simp add: sdiv_neg_small)
  qed
qed

text \<open>Division of a product by a positive divisor, as a comparison without division.\<close>

lemma le_div_iff_mult_le_nat: "0 < (q::nat) \<Longrightarrow> m \<le> n div q \<longleftrightarrow> m * q \<le> n"
  by (rule less_eq_div_iff_mult_less_eq)

lemma le_div_iff_mult_le_int:
  fixes m n q :: int
  assumes "0 < q"
  shows "m \<le> n div q \<longleftrightarrow> m * q \<le> n"
proof
  assume "m \<le> n div q"
  then have "m * q \<le> n div q * q" using assms by (simp add: mult_right_mono)
  also have "\<dots> \<le> n" using assms by (simp add: minus_mod_eq_div_mult [symmetric])
  finally show "m * q \<le> n" .
next
  assume "m * q \<le> n"
  then have "m * q div q \<le> n div q" using assms by (rule zdiv_mono1)
  then show "m \<le> n div q" using assms by simp
qed

section \<open>Ordered maps\<close>

text \<open>
  The contract of an ordered map: what \<open>find\<close> returns after each modification, and that the
  representation invariant is kept.
\<close>

locale ordered_map =
  fixes find :: "'m \<Rightarrow> 'k::linorder \<Rightarrow> 'v option"
    and put :: "'k \<Rightarrow> 'v \<Rightarrow> 'm \<Rightarrow> 'm"
    and erase :: "'k \<Rightarrow> 'm \<Rightarrow> 'm"
    and inv :: "'m \<Rightarrow> bool"
  assumes find_put: "find (put k v m) k' = (if k' = k then Some v else find m k')"
    and find_erase: "inv m \<Longrightarrow> find (erase k m) k' = (if k' = k then None else find m k')"
    and inv_put: "inv m \<Longrightarrow> inv (put k v m)"
    and inv_erase: "inv m \<Longrightarrow> inv (erase k m)"
begin

lemma find_put_fun: "find (put k v m) = (find m)(k \<mapsto> v)"
  by (rule ext) (simp add: find_put)

lemma find_erase_fun: "inv m \<Longrightarrow> find (erase k m) = (find m)(k := None)"
  by (rule ext) (simp add: find_erase)

lemma dom_put: "dom (find (put k v m)) = insert k (dom (find m))"
  by (simp add: find_put_fun)

lemma dom_erase: "inv m \<Longrightarrow> dom (find (erase k m)) = dom (find m) - {k}"
  by (simp add: find_erase_fun)

end

text \<open>
  The representation: an association list whose keys ascend strictly, the order in which a
  \<^verbatim>\<open>std::map\<close> is iterated.
\<close>

type_synonym ('k, 'v) smap = "('k \<times> 'v) list"

definition smap_ok :: "('k::linorder, 'v) smap \<Rightarrow> bool" where
  "smap_ok m \<longleftrightarrow> sorted_wrt (<) (map fst m)"

abbreviation smap_find :: "('k, 'v) smap \<Rightarrow> 'k \<Rightarrow> 'v option" where
  "smap_find \<equiv> map_of"

fun smap_put :: "'k::linorder \<Rightarrow> 'v \<Rightarrow> ('k, 'v) smap \<Rightarrow> ('k, 'v) smap" where
  "smap_put k v [] = [(k, v)]"
| "smap_put k v ((k', v') # m) =
     (if k < k' then (k, v) # (k', v') # m
      else if k = k' then (k, v) # m
      else (k', v') # smap_put k v m)"

fun smap_erase :: "'k::linorder \<Rightarrow> ('k, 'v) smap \<Rightarrow> ('k, 'v) smap" where
  "smap_erase k [] = []"
| "smap_erase k ((k', v') # m) = (if k = k' then m else (k', v') # smap_erase k m)"

text \<open>The tail of the map from the first key greater than \<open>k\<close>: \<^verbatim>\<open>upper_bound(k)\<close> up to \<^verbatim>\<open>end()\<close>.\<close>

fun smap_upper_bound :: "'k::linorder \<Rightarrow> ('k, 'v) smap \<Rightarrow> ('k, 'v) smap" where
  "smap_upper_bound k [] = []"
| "smap_upper_bound k ((k', v') # m) =
     (if k < k' then (k', v') # m else smap_upper_bound k m)"

lemma smap_ok_Nil [simp]: "smap_ok []"
  by (simp add: smap_ok_def)

lemma smap_ok_Cons [simp]:
  "smap_ok ((k, v) # m) \<longleftrightarrow> (\<forall>p \<in> set m. k < fst p) \<and> smap_ok m"
  by (auto simp: smap_ok_def)

lemma smap_find_put: "smap_find (smap_put k v m) k' = (if k' = k then Some v else smap_find m k')"
  by (induction k v m rule: smap_put.induct) auto

lemma fst_smap_put [simp]: "fst ` set (smap_put k v m) = insert k (fst ` set m)"
  by (induction k v m rule: smap_put.induct) auto

lemma set_smap_put: "set (smap_put k v m) \<subseteq> insert (k, v) (set m)"
  by (induction k v m rule: smap_put.induct) auto

lemma smap_ok_put: "smap_ok m \<Longrightarrow> smap_ok (smap_put k v m)"
proof (induction k v m rule: smap_put.induct)
  case (2 k v k' v' m)
  then show ?case using set_smap_put [of k v m] by (fastforce split: if_splits)
qed simp

lemma set_smap_erase: "set (smap_erase k m) \<subseteq> set m"
  by (induction k m rule: smap_erase.induct) auto

lemma smap_find_erase:
  "smap_ok m \<Longrightarrow> smap_find (smap_erase k m) k' = (if k' = k then None else smap_find m k')"
proof (induction k m rule: smap_erase.induct)
  case (2 k k0 v0 m)
  show ?case
  proof (cases "k = k0")
    case True
    with "2.prems" have "k \<notin> fst ` set m" by auto
    then have "smap_find m k = None" by (simp add: map_of_eq_None_iff)
    with True show ?thesis by simp
  next
    case False
    with "2" show ?thesis by auto
  qed
qed simp

lemma smap_ok_erase: "smap_ok m \<Longrightarrow> smap_ok (smap_erase k m)"
proof (induction k m rule: smap_erase.induct)
  case (2 k k0 v0 m)
  then show ?case using set_smap_erase [of k m] by auto
qed simp

interpretation smap: ordered_map smap_find smap_put smap_erase smap_ok
  by unfold_locales (simp_all add: smap_find_put smap_find_erase smap_ok_put smap_ok_erase)

lemma set_smap_upper_bound:
  "smap_ok m \<Longrightarrow> set (smap_upper_bound k m) = {(k', v'). (k', v') \<in> set m \<and> k < k'}"
proof (induction k m rule: smap_upper_bound.induct)
  case (2 k k' v' m)
  show ?case
  proof (cases "k < k'")
    case True
    with "2.prems" show ?thesis by force
  next
    case False
    with "2" show ?thesis by auto
  qed
qed simp

lemma smap_ok_upper_bound: "smap_ok m \<Longrightarrow> smap_ok (smap_upper_bound k m)"
  by (induction k m rule: smap_upper_bound.induct) auto

lemma smap_ok_distinct: "smap_ok m \<Longrightarrow> distinct (map fst m)"
  by (simp add: smap_ok_def strict_sorted_iff)

lemma smap_eqI:
  assumes "smap_ok m" and "smap_ok m'" and "\<And>k. smap_find m k = smap_find m' k"
  shows "m = m'"
proof -
  have d: "distinct (map fst m)" "distinct (map fst m')" using assms(1,2) by (simp_all add: smap_ok_distinct)
  have "(k, v) \<in> set m \<longleftrightarrow> (k, v) \<in> set m'" for k v 
    unfolding map_of_eq_Some_iff [OF d(1), symmetric] map_of_eq_Some_iff [OF d(2), symmetric] assms(3) ..
  then have s: "set m = set m'" by auto
  have "inj_on fst (set m \<union> set m')" using d(1) by (simp add: s [symmetric] distinct_map)
  then show ?thesis
    using d assms(1,2) s by (intro map_sorted_distinct_set_unique) (simp_all add: smap_ok_def strict_sorted_iff)
qed

lemma smap_find_iff: "smap_ok m \<Longrightarrow> smap_find m k = Some v \<longleftrightarrow> (k, v) \<in> set m"
  by (simp add: smap_ok_distinct)

lemma smap_find_in: "smap_find m k = Some v \<Longrightarrow> (k, v) \<in> set m"
  by (rule map_of_SomeD)

lemma smap_put_erase: "smap_ok vs \<Longrightarrow> smap_put n l (smap_erase n vs) = smap_put n l vs"
  by (rule smap_eqI) (auto simp: smap_ok_put smap_ok_erase smap_find_put smap_find_erase)

lemma smap_put_not_Nil [simp]: "smap_put k v m \<noteq> []"
  by (cases "(k, v, m)" rule: smap_put.cases) auto

lemma smap_ok_fold_erase: "smap_ok m \<Longrightarrow> smap_ok (fold smap_erase ks m)"
  by (induction ks arbitrary: m) (auto intro: smap_ok_erase)

lemma smap_find_fold_erase:
  "smap_ok m \<Longrightarrow> smap_find (fold smap_erase ks m) k = (if k \<in> set ks then None else smap_find m k)"
  by (induction ks arbitrary: m) (auto simp: smap_ok_erase smap_find_erase)

lemma smap_ok_filter: "smap_ok m \<Longrightarrow> smap_ok (filter P m)"
  unfolding smap_ok_def by (induction m) auto

lemma smap_find_filter:
  "smap_ok m \<Longrightarrow> smap_find (filter P m) k =
     (case smap_find m k of Some v \<Rightarrow> if P (k, v) then Some v else None | None \<Rightarrow> None)"
proof (induction m)
  case (Cons e m)
  obtain k' v' where e: "e = (k', v')" by fastforce
  have n: "smap_find m k' = None" using Cons.prems e by (auto simp: map_of_eq_None_iff)
  show ?case using Cons e n by (cases "k = k'") simp_all
qed simp

lemma smap_ok_map_snd: "smap_ok (map (\<lambda>(k, v). (k, f k v)) m) \<longleftrightarrow> smap_ok m"
  by (simp add: smap_ok_def comp_def case_prod_beta)

lemma smap_find_map_snd: "smap_find (map (\<lambda>(k, v). (k, f k v)) m) k = map_option (f k) (smap_find m k)"
  by (induction m) auto

lemma mset_smap_erase:
  "smap_find m k = Some v \<Longrightarrow> mset m = add_mset (k, v) (mset (smap_erase k m))"
  by (induction k m rule: smap_erase.induct) (auto split: if_splits)

lemma mset_smap_put_new: "smap_find m k = None \<Longrightarrow> mset (smap_put k v m) = add_mset (k, v) (mset m)"
  by (induction k v m rule: smap_put.induct) (auto split: if_splits)

lemma mset_smap_put_old:
  "smap_ok m \<Longrightarrow> smap_find m k = Some u \<Longrightarrow>
     add_mset (k, u) (mset (smap_put k v m)) = add_mset (k, v) (mset m)"
proof (induction k v m rule: smap_put.induct)
  case (2 k v k' v' m)
  have "smap_find m k = None" if "k < k'"
    using 2(2) that by (auto simp: map_of_eq_None_iff)
  then show ?case using 2 by (auto split: if_splits)
qed simp

text \<open>The number of entries whose value satisfies \<open>P\<close>, and how the modifications change it.\<close>

definition smap_count :: "('v \<Rightarrow> bool) \<Rightarrow> ('k, 'v) smap \<Rightarrow> nat" where
  "smap_count P m = length (filter (\<lambda>(_, v). P v) m)"

lemma smap_count_Nil [simp]: "smap_count P [] = 0"
  by (simp add: smap_count_def)

lemma smap_count_Cons [simp]: "smap_count P ((k, v) # m) = of_bool (P v) + smap_count P m"
  by (simp add: smap_count_def)

lemma smap_count_put_new:
  "smap_find m k = None \<Longrightarrow> smap_count P (smap_put k v m) = of_bool (P v) + smap_count P m"
  by (induction k v m rule: smap_put.induct) (auto split: if_splits)

lemma smap_count_put_old:
  "smap_ok m \<Longrightarrow> smap_find m k = Some v0 \<Longrightarrow>
   smap_count P (smap_put k v m) + of_bool (P v0) = of_bool (P v) + smap_count P m"
proof (induction k v m rule: smap_put.induct)
  case (2 k v k' v' m)
  have "k < k' \<Longrightarrow> False"
  proof -
    assume "k < k'"
    with "2.prems" have "(k, v0) \<in> set m" by (auto dest: map_of_SomeD split: if_splits)
    with "2.prems"(1) \<open>k < k'\<close> show False by force
  qed
  then show ?case using "2" by (auto split: if_splits)
qed simp

lemma smap_count_erase:
  "smap_find m k = Some v0 \<Longrightarrow> smap_count P (smap_erase k m) + of_bool (P v0) = smap_count P m"
  by (induction k m rule: smap_erase.induct) (auto split: if_splits)

lemma smap_count_card:
  "smap_ok m \<Longrightarrow> smap_count P m = card {k. \<exists>v. smap_find m k = Some v \<and> P v}"
proof (induction m)
  case (Cons p m)
  obtain k v where p: "p = (k, v)" by (cases p)
  with Cons.prems have ok: "smap_ok m" and "\<forall>q \<in> set m. k < fst q" by auto
  then have new: "smap_find m k = None" by (auto simp: map_of_eq_None_iff)
  let ?K = "{k. \<exists>v. smap_find m k = Some v \<and> P v}"
  have "?K \<subseteq> dom (smap_find m)" by auto
  then have fin: "finite ?K" by (rule finite_subset) (rule finite_dom_map_of)
  have "{k'. \<exists>v'. smap_find ((k, v) # m) k' = Some v' \<and> P v'} = (if P v then insert k ?K else ?K)"
    using new by auto
  then show ?case using Cons.IH [OF ok] fin new p by auto
qed simp

end
