(* ===== verification/Consensus_Rules.thy ===== *)
theory Consensus_Rules
  imports Prelude
begin

text \<open>
  The pure decision rules of the consensus process: the parameters of
  \<^verbatim>\<open>consensus/ConsensusParms.h\<close>, the close and agreement tests of
  \<^verbatim>\<open>consensus/Consensus.cpp\<close> and the close-time binning of
  \<^verbatim>\<open>consensus/LedgerTiming.h\<close>.

  Counts are \<^verbatim>\<open>std::size_t\<close>, kept as 64-bit words. Durations of the internal clock are
  signed tick counts of \<^verbatim>\<open>std::chrono\<close>, kept as \<^typ>\<open>int\<close> (milliseconds); their
  overflow is undefined behaviour of the language and is not modelled. Network time is
  \<^verbatim>\<open>NetClock\<close>, an unsigned 32-bit count of seconds, kept as a 32-bit word that wraps. The
  journal argument only receives log lines and is left out.
\<close>

section \<open>ConsensusParms\<close>

record ConsensusParms =
  validationVALID_WALL :: int
  validationVALID_LOCAL :: int
  validationVALID_EARLY :: int
  proposeFRESHNESS :: int
  proposeINTERVAL :: int
  minCONSENSUS_PCT :: u64
  ledgerIDLE_INTERVAL :: int
  ledgerMIN_CONSENSUS :: int
  ledgerMAX_CONSENSUS :: int
  ledgerMIN_CLOSE :: int
  ledgerGRANULARITY :: int
  avMIN_CONSENSUS_TIME :: int
  avINIT_CONSENSUS_PCT :: u64
  avMID_CONSENSUS_TIME :: u64
  avMID_CONSENSUS_PCT :: u64
  avLATE_CONSENSUS_TIME :: u64
  avLATE_CONSENSUS_PCT :: u64
  avSTUCK_CONSENSUS_TIME :: u64
  avSTUCK_CONSENSUS_PCT :: u64
  avCT_CONSENSUS_PCT :: u64

text \<open>The member initialisers: the first five in seconds, the other durations in milliseconds.\<close>

definition default_parms :: ConsensusParms where
  "default_parms = \<lparr>
     validationVALID_WALL = 5 * 60,
     validationVALID_LOCAL = 3 * 60,
     validationVALID_EARLY = 3 * 60,
     proposeFRESHNESS = 20,
     proposeINTERVAL = 12,
     minCONSENSUS_PCT = 80,
     ledgerIDLE_INTERVAL = 15 * 1000,
     ledgerMIN_CONSENSUS = 1950,
     ledgerMAX_CONSENSUS = 10 * 1000,
     ledgerMIN_CLOSE = 2 * 1000,
     ledgerGRANULARITY = 1 * 1000,
     avMIN_CONSENSUS_TIME = 5 * 1000,
     avINIT_CONSENSUS_PCT = 50,
     avMID_CONSENSUS_TIME = 50,
     avMID_CONSENSUS_PCT = 65,
     avLATE_CONSENSUS_TIME = 85,
     avLATE_CONSENSUS_PCT = 70,
     avSTUCK_CONSENSUS_TIME = 200,
     avSTUCK_CONSENSUS_PCT = 95,
     avCT_CONSENSUS_PCT = 75 \<rparr>"

section \<open>Consensus.cpp\<close>

definition shouldCloseLedger ::
  "bool \<Rightarrow> u64 \<Rightarrow> u64 \<Rightarrow> u64 \<Rightarrow> int \<Rightarrow> int \<Rightarrow> int \<Rightarrow> int \<Rightarrow> ConsensusParms \<Rightarrow> bool" where
  "shouldCloseLedger anyTransactions prevProposers proposersClosed proposersValidated
       prevRoundTime timeSincePrevClose openTime idleInterval parms =
     (if prevRoundTime < - 1000 \<or> prevRoundTime > 10 * 60 * 1000
         \<or> timeSincePrevClose > 10 * 60 * 1000
      then True
      else if proposersClosed + proposersValidated > prevProposers div 2
      then True
      else if \<not> anyTransactions
      then timeSincePrevClose \<ge> idleInterval
      else if openTime < ledgerMIN_CLOSE parms
      then False
      else if openTime < prevRoundTime sdiv 2
      then False
      else True)"

definition checkConsensusReached :: "u64 \<Rightarrow> u64 \<Rightarrow> bool \<Rightarrow> u64 \<Rightarrow> bool" where
  "checkConsensusReached agreeing tot count_self minConsensusPct =
     (if tot = 0 then True
      else let agreeing' = (if count_self then agreeing + 1 else agreeing);
               tot' = (if count_self then tot + 1 else tot);
               currentPercentage = (agreeing' * 100) div tot'
           in currentPercentage \<ge> minConsensusPct)"

datatype ConsensusState = No | MovedOn | Yes

definition checkConsensus ::
  "u64 \<Rightarrow> u64 \<Rightarrow> u64 \<Rightarrow> u64 \<Rightarrow> int \<Rightarrow> int \<Rightarrow> ConsensusParms \<Rightarrow> bool \<Rightarrow> ConsensusState" where
  "checkConsensus prevProposers currentProposers currentAgree currentFinished
       previousAgreeTime currentAgreeTime parms proposing =
     (if currentAgreeTime \<le> ledgerMIN_CONSENSUS parms then No
      else if currentProposers < prevProposers * 3 div 4
              \<and> currentAgreeTime < previousAgreeTime + ledgerMIN_CONSENSUS parms
      then No
      else if checkConsensusReached currentAgree currentProposers proposing
                (minCONSENSUS_PCT parms)
      then Yes
      else if checkConsensusReached currentFinished currentProposers False
                (minCONSENSUS_PCT parms)
      then MovedOn
      else No)"

section \<open>LedgerTiming.h\<close>

definition ledgerPossibleTimeResolutions :: "u32 list" where
  "ledgerPossibleTimeResolutions = [10, 20, 30, 60, 90, 120]"

definition ledgerDefaultTimeResolution :: u32 where
  "ledgerDefaultTimeResolution = ledgerPossibleTimeResolutions ! 2"

definition ledgerGenesisTimeResolution :: u32 where
  "ledgerGenesisTimeResolution = ledgerPossibleTimeResolutions ! 0"

definition increaseLedgerTimeResolutionEvery :: u32 where
  "increaseLedgerTimeResolutionEvery = 8"

definition decreaseLedgerTimeResolutionEvery :: u32 where
  "decreaseLedgerTimeResolutionEvery = 1"

text \<open>\<^verbatim>\<open>std::find\<close>: the index of the first match, the length of the list for \<^verbatim>\<open>end()\<close>.\<close>

fun find_index :: "'a \<Rightarrow> 'a list \<Rightarrow> nat" where
  "find_index a [] = 0"
| "find_index a (x # xs) = (if x = a then 0 else Suc (find_index a xs))"

text \<open>
  The iterator is an index. \<^verbatim>\<open>++iter != end\<close> moves it before the test and
  \<^verbatim>\<open>iter-- != begin\<close> tests it before the move. When \<open>previousAgree\<close> is false the first
  block may leave the iterator advanced, but then the second block is skipped.
\<close>

definition getNextLedgerTimeResolution :: "u32 \<Rightarrow> bool \<Rightarrow> u32 \<Rightarrow> u32" where
  "getNextLedgerTimeResolution previousResolution previousAgree ledgerSeq =
     (let res = ledgerPossibleTimeResolutions;
          iter = find_index previousResolution res
      in if iter = length res then previousResolution
         else if \<not> previousAgree \<and> ledgerSeq mod decreaseLedgerTimeResolutionEvery = 0
                 \<and> Suc iter \<noteq> length res
         then res ! Suc iter
         else if previousAgree \<and> ledgerSeq mod increaseLedgerTimeResolutionEvery = 0
                 \<and> iter \<noteq> 0
         then res ! (iter - 1)
         else previousResolution)"

definition roundCloseTime :: "u32 \<Rightarrow> u32 \<Rightarrow> u32" where
  "roundCloseTime closeTime closeResolution =
     (if closeTime = 0 then closeTime
      else let closeTime' = closeTime + closeResolution div 2
           in closeTime' - closeTime' mod closeResolution)"

definition effCloseTime :: "u32 \<Rightarrow> u32 \<Rightarrow> u32 \<Rightarrow> u32" where
  "effCloseTime closeTime resolution priorCloseTime =
     (if closeTime = 0 then closeTime
      else max (roundCloseTime closeTime resolution) (priorCloseTime + 1))"

section \<open>Closing the ledger\<close>

lemma shouldCloseLedger_step_time:
  assumes "shouldCloseLedger tx pp pc pv prt tsc ot idle parms" and "tsc \<le> tsc'" and "ot \<le> ot'"
  shows "shouldCloseLedger tx pp pc pv prt tsc' ot' idle parms"
  using assms by (auto simp: shouldCloseLedger_def split: if_splits)

text \<open>C12. Waiting never retracts a decision to close: with everything else equal, once
  \<^const>\<open>shouldCloseLedger\<close> says to close the ledger it still says so at any later time, and it
  says so at the latest ten minutes after the previous close, whatever the other inputs.\<close>

theorem shouldCloseLedger_stable_and_live:
  "(shouldCloseLedger tx pp pc pv prt tsc ot idle parms \<and> tsc \<le> tsc' \<and> ot \<le> ot'
      \<longrightarrow> shouldCloseLedger tx pp pc pv prt tsc' ot' idle parms)
   \<and> (tsc > 600000 \<longrightarrow> shouldCloseLedger tx pp pc pv prt tsc ot idle parms)"
  using shouldCloseLedger_step_time [of tx pp pc pv prt tsc ot idle parms tsc' ot']
  by (auto simp: shouldCloseLedger_def)

theorem shouldCloseLedger_stable_and_live_witness:
  "shouldCloseLedger True 10 0 0 3000 4000 2500 15000 default_parms
   \<and> shouldCloseLedger True 10 0 0 3000 9000 7500 15000 default_parms
   \<and> \<not> shouldCloseLedger True 10 0 0 3000 3000 1500 15000 default_parms
   \<and> shouldCloseLedger True 10 0 0 3000 600001 0 15000 default_parms"
proof -
  have h: "shouldCloseLedger True 10 0 0 3000 4000 2500 15000 default_parms"
    by (simp add: shouldCloseLedger_def default_parms_def)
  moreover have "\<not> shouldCloseLedger True 10 0 0 3000 3000 1500 15000 default_parms"
    by (simp add: shouldCloseLedger_def default_parms_def)
  ultimately show ?thesis
    using shouldCloseLedger_stable_and_live
            [of True 10 0 0 3000 4000 2500 15000 default_parms 9000 7500]
          shouldCloseLedger_stable_and_live
            [of True 10 0 0 3000 600001 0 15000 default_parms 600001 0]
    by simp
qed

section \<open>Reaching consensus\<close>

text \<open>Counts that leave room for the local vote and for the percentage's factor of 100.\<close>

definition counts_fit :: "u64 \<Rightarrow> u64 \<Rightarrow> bool" where
  "counts_fit agreeing tot \<longleftrightarrow> (unat agreeing + 1) * 100 < 2 ^ 64 \<and> unat tot + 1 < 2 ^ 64"

lemma unat_inc: "unat (n::u64) + 1 < 2 ^ 64 \<Longrightarrow> unat (n + 1) = unat n + 1"
  by (simp add: unat_word_ariths)

lemma unat_times_100: "unat (n::u64) * 100 < 2 ^ 64 \<Longrightarrow> unat (n * 100) = unat n * 100"
  by (simp add: unat_word_ariths)

lemma percentage_iff:
  assumes "unat (a::u64) * 100 < 2 ^ 64" and "0 < unat (t::u64)"
  shows "p \<le> a * 100 div t \<longleftrightarrow> unat p * unat t \<le> 100 * unat a"
proof -
  have "unat (a * 100 div t) = 100 * unat a div unat t"
    using unat_times_100 [OF assms(1)] by (simp add: unat_div mult.commute)
  then show ?thesis
    using assms(2) by (simp add: word_le_nat_alt le_div_iff_mult_le_nat)
qed

lemma checkConsensusReached_exact:
  assumes "counts_fit a t"
  shows "checkConsensusReached a t self p \<longleftrightarrow>
     t = 0 \<or> unat p * (unat t + of_bool self) \<le> 100 * (unat a + of_bool self)"
proof (cases "t = 0")
  case True
  then show ?thesis by (simp add: checkConsensusReached_def)
next
  case False
  then have t: "0 < unat t" by (simp add: unat_gt_0)
  have fit: "(unat a + 1) * 100 < 2 ^ 64" "unat t + 1 < 2 ^ 64"
    using assms by (simp_all add: counts_fit_def)
  then have a1: "unat (a + 1) = unat a + 1" by (intro unat_inc) simp
  have t1: "unat (t + 1) = unat t + 1" using fit(2) by (rule unat_inc)
  show ?thesis
  proof (cases self)
    case True
    have "p \<le> (a + 1) * 100 div (t + 1) \<longleftrightarrow> unat p * unat (t + 1) \<le> 100 * unat (a + 1)"
      by (rule percentage_iff) (use fit a1 t1 in simp_all)
    then show ?thesis
      using True False a1 t1 by (simp add: checkConsensusReached_def)
  next
    case f: False
    have "p \<le> a * 100 div t \<longleftrightarrow> unat p * unat t \<le> 100 * unat a"
      by (rule percentage_iff) (use fit t in simp_all)
    then show ?thesis
      using f False by (simp add: checkConsensusReached_def)
  qed
qed

text \<open>C13. The integer percentage test decides the exact ratio: as long as the counts stay clear of
  64-bit overflow, \<^const>\<open>checkConsensusReached\<close> holds exactly when nobody else is there or the
  agreeing nodes, the local one included when it counts itself, are at least the required
  percentage of all of them. No rounding of the division ever lets a smaller share pass.\<close>

theorem checkConsensusReached_iff_share:
  assumes "counts_fit a t"
  shows "checkConsensusReached a t self p \<longleftrightarrow>
     unat t = 0 \<or> unat p * (unat t + (if self then 1 else 0)) \<le> 100 * (unat a + (if self then 1 else 0))"
  using checkConsensusReached_exact [OF assms, of self p] by (simp add: unat_eq_0 of_bool_def)

theorem checkConsensusReached_iff_share_witness:
  "checkConsensusReached 3 4 True 80 \<and> \<not> checkConsensusReached 3 4 False 80"
proof -
  have "counts_fit 3 4" by (simp add: counts_fit_def)
  note iff = checkConsensusReached_iff_share [OF this]
  show ?thesis using iff [of True 80] iff [of False 80] by simp
qed





section \<open>Close-time bins\<close>

lemma find_index_less: "find_index a xs < length xs \<longleftrightarrow> a \<in> set xs"
  by (induction xs) auto

lemma find_index_nth: "a \<in> set xs \<Longrightarrow> xs ! find_index a xs = a"
  by (induction xs) auto

text \<open>C14. The resolution walks the table of bins one step at a time: starting from a bin, the next
  resolution is a bin again, its position moves by at most one, it never gets coarser after an
  agreement on the close time and never finer after a disagreement; and after a disagreement it
  does get strictly coarser unless it is already the coarsest.\<close>

theorem getNextLedgerTimeResolution_walk:
  fixes res seq :: u32 and agree :: bool
  assumes "res \<in> set ledgerPossibleTimeResolutions"
  defines "res' \<equiv> getNextLedgerTimeResolution res agree seq"
  shows "res' \<in> set ledgerPossibleTimeResolutions
    \<and> find_index res' ledgerPossibleTimeResolutions
        \<le> Suc (find_index res ledgerPossibleTimeResolutions)
    \<and> find_index res ledgerPossibleTimeResolutions
        \<le> Suc (find_index res' ledgerPossibleTimeResolutions)
    \<and> (agree \<longrightarrow> res' \<le> res)
    \<and> (\<not> agree \<longrightarrow> (if res = 120 then res' = res else res < res'))"
proof -
  from assms(1) consider "res = 10" | "res = 20" | "res = 30" | "res = 60" | "res = 90" | "res = 120"
    by (auto simp: ledgerPossibleTimeResolutions_def)
  then show ?thesis
    unfolding res'_def getNextLedgerTimeResolution_def ledgerPossibleTimeResolutions_def
      decreaseLedgerTimeResolutionEvery_def increaseLedgerTimeResolutionEvery_def Let_def
    by cases (simp_all add: nth_Cons')
qed

theorem getNextLedgerTimeResolution_walk_witness:
  "getNextLedgerTimeResolution 30 False 5 = 60 \<and> (30::u32) < 60
   \<and> getNextLedgerTimeResolution 30 True 16 = 20"
proof -
  have h: "30 \<in> set ledgerPossibleTimeResolutions" by (simp add: ledgerPossibleTimeResolutions_def)
  have "getNextLedgerTimeResolution 30 False 5 = 60" "getNextLedgerTimeResolution 30 True 16 = 20"
    by (simp_all add: getNextLedgerTimeResolution_def ledgerPossibleTimeResolutions_def
        decreaseLedgerTimeResolutionEvery_def increaseLedgerTimeResolutionEvery_def)
  then show ?thesis
    using getNextLedgerTimeResolution_walk [OF h, of False 5] by simp
qed

definition close_time_fits :: "u32 \<Rightarrow> u32 \<Rightarrow> bool" where
  "close_time_fits t r \<longleftrightarrow> 0 < r \<and> unat t + unat r div 2 < 2 ^ 32"

lemma unat_roundCloseTime:
  assumes "close_time_fits t r" and "t \<noteq> 0"
  shows "unat (roundCloseTime t r) =
    (unat t + unat r div 2) - (unat t + unat r div 2) mod unat r"
proof -
  have s: "unat (t + r div 2) = unat t + unat r div 2"
    using assms(1) by (simp add: close_time_fits_def unat_word_ariths unat_div)
  have m: "unat ((t + r div 2) mod r) = (unat t + unat r div 2) mod unat r"
    using s by (simp add: unat_mod)
  have "(t + r div 2) mod r \<le> t + r div 2"
    using m s by (simp add: word_le_nat_alt)
  then show ?thesis
    using assms(2) s m by (simp add: roundCloseTime_def unat_sub Let_def)
qed

lemma round_nearest_nat:
  fixes T r :: nat
  assumes "0 < r"
  defines "R \<equiv> (T + r div 2) - (T + r div 2) mod r"
  shows "r dvd R" and "2 * (R - T) \<le> r" and "2 * (T - R) \<le> r"
proof -
  have "(T + r div 2) mod r < r" using assms by simp
  moreover have "R + (T + r div 2) mod r = T + r div 2" by (simp add: R_def)
  ultimately show "2 * (R - T) \<le> r" and "2 * (T - R) \<le> r" by linarith+
  show "r dvd R" unfolding R_def by (rule dvd_minus_mod)
qed

lemma abs_diff_le_of_nat:
  "2 * (a - b) \<le> r \<Longrightarrow> 2 * (b - a) \<le> r \<Longrightarrow> 2 * \<bar>int a - int b\<bar> \<le> int r"
  for a b r :: nat
  by arith

lemma roundCloseTime_mono:
  assumes "t \<le> t'" and "close_time_fits t' r"
  shows "roundCloseTime t r \<le> roundCloseTime t' r"
proof (cases "t = 0")
  case True
  then show ?thesis by (simp add: roundCloseTime_def)
next
  case False
  have le: "unat t \<le> unat t'" using assms(1) by (simp add: word_le_nat_alt)
  with assms(2) have fit: "close_time_fits t r" by (simp add: close_time_fits_def)
  have "t' \<noteq> 0" using False assms(1) by (auto simp: word_le_0_iff)
  moreover have "(unat t + unat r div 2) div unat r * unat r
      \<le> (unat t' + unat r div 2) div unat r * unat r"
    using le by (intro mult_le_mono1 div_le_mono) simp
  ultimately show ?thesis
    using unat_roundCloseTime [OF fit False] unat_roundCloseTime [OF assms(2)]
    by (simp add: word_le_nat_alt minus_mod_eq_div_mult)
qed

text \<open>C15. Rounding a close time: away from the end of the 32-bit clock, \<^const>\<open>roundCloseTime\<close>
  returns a multiple of the resolution that is at most half a resolution away from the time it
  was given, and it keeps the order of times.\<close>

theorem roundCloseTime_nearest:
  assumes "close_time_fits t r"
  shows "unat r dvd unat (roundCloseTime t r)
    \<and> 2 * \<bar>int (unat (roundCloseTime t r)) - int (unat t)\<bar> \<le> int (unat r)
    \<and> (t0 \<le> t \<longrightarrow> roundCloseTime t0 r \<le> roundCloseTime t r)"
proof (cases "t = 0")
  case True
  then show ?thesis using roundCloseTime_mono [OF _ assms] by (simp add: roundCloseTime_def)
next
  case False
  have "0 < unat r" using assms by (simp add: close_time_fits_def word_less_nat_alt)
  note R = round_nearest_nat [OF this, of "unat t", folded unat_roundCloseTime [OF assms False]]
  from R(2,3) have "2 * \<bar>int (unat (roundCloseTime t r)) - int (unat t)\<bar> \<le> int (unat r)"
    by (rule abs_diff_le_of_nat)
  with R(1) show ?thesis using roundCloseTime_mono [OF _ assms, of t0] by blast
qed

theorem roundCloseTime_nearest_witness:
  "roundCloseTime 615 30 = 630 \<and> unat (30::u32) dvd 630 \<and> roundCloseTime 614 30 \<le> 630"
proof -
  have "close_time_fits 615 30" by (simp add: close_time_fits_def)
  from roundCloseTime_nearest [OF this, of 614] show ?thesis
    by (simp add: roundCloseTime_def)
qed

text \<open>C16. Effective close times order the ledgers: unless the raw time is the undefined time 0, the
  effective close time is later than the previous ledger's close time, it is never earlier than
  the rounded time, it differs from the rounded time only when that is not after the previous
  close, and it is monotone in the raw time.\<close>

theorem effCloseTime_after_prior:
  assumes "close_time_fits t r" and "t \<noteq> 0" and "prior < - 1"
  shows "prior < effCloseTime t r prior
    \<and> roundCloseTime t r \<le> effCloseTime t r prior
    \<and> (prior < roundCloseTime t r \<longrightarrow> effCloseTime t r prior = roundCloseTime t r)
    \<and> (t0 \<le> t \<longrightarrow> effCloseTime t0 r prior \<le> effCloseTime t r prior)"
proof -
  have inc: "prior < prior + 1"
    using assms(3) by (metis inc_less_eq_iff not_less word_not_simps(3) order.strict_iff_not)
  have mono: "t0 \<le> t \<Longrightarrow> roundCloseTime t0 r \<le> roundCloseTime t r"
    using assms(1) by (rule roundCloseTime_mono [rotated])
  have "effCloseTime t0 r prior \<le> effCloseTime t r prior" if "t0 \<le> t"
    using mono [OF that] assms(2) by (simp add: effCloseTime_def max.coboundedI1)
  moreover have "prior < roundCloseTime t r \<Longrightarrow> prior + 1 \<le> roundCloseTime t r"
    by (rule inc_le)
  ultimately show ?thesis
    using inc assms(2) by (auto simp: effCloseTime_def max_def)
qed

theorem effCloseTime_after_prior_witness:
  "effCloseTime 615 30 630 = 631 \<and> (630::u32) < effCloseTime 615 30 630
   \<and> effCloseTime 614 30 630 \<le> effCloseTime 615 30 630"
proof -
  have "close_time_fits 615 30" by (simp add: close_time_fits_def)
  from effCloseTime_after_prior [OF this, of 630 614] show ?thesis
    by (simp add: effCloseTime_def roundCloseTime_def)
qed

end
