(* ===== verification/DisputedTx.thy ===== *)
theory DisputedTx
  imports Consensus_Rules
begin

text \<open>
  A disputed transaction of one consensus round, \<^verbatim>\<open>consensus/DisputedTx.h\<close>: the peers' votes, their
  running tallies and the local vote. \<^verbatim>\<open>Map_t\<close> is a \<^verbatim>\<open>flat_map\<close>, a vector of pairs sorted by node,
  which is the ordered map of the prelude. The tallies are C++ \<^verbatim>\<open>int\<close>s, bounded by the number of
  peers, and kept as \<^typ>\<open>int\<close>. \<^verbatim>\<open>getJson\<close> and the journal only produce text and are left out.
\<close>

section \<open>State and operations\<close>

record ('tx, 'node) disputed =
  yays :: int
  nays :: int
  ourVote :: bool
  tx :: 'tx
  votes :: "('node, bool) smap"

definition DisputedTx :: "'tx \<Rightarrow> bool \<Rightarrow> ('tx, 'node) disputed" where
  "DisputedTx t our = \<lparr>yays = 0, nays = 0, ourVote = our, tx = t, votes = []\<rparr>"

definition setOurVote :: "bool \<Rightarrow> ('tx, 'node) disputed \<Rightarrow> ('tx, 'node) disputed" where
  "setOurVote v d = d\<lparr>ourVote := v\<rparr>"

definition setVote ::
  "'node::linorder \<Rightarrow> bool \<Rightarrow> ('tx, 'node) disputed \<Rightarrow> ('tx, 'node) disputed" where
  "setVote peer votesYes d =
     (case smap_find (votes d) peer of
        None \<Rightarrow>
          (let d' = d\<lparr>votes := smap_put peer votesYes (votes d)\<rparr>
           in if votesYes then d'\<lparr>yays := yays d + 1\<rparr> else d'\<lparr>nays := nays d + 1\<rparr>)
      | Some old \<Rightarrow>
          if votesYes \<and> \<not> old then
            d\<lparr>nays := nays d - 1, yays := yays d + 1, votes := smap_put peer True (votes d)\<rparr>
          else if \<not> votesYes \<and> old then
            d\<lparr>nays := nays d + 1, yays := yays d - 1, votes := smap_put peer False (votes d)\<rparr>
          else d)"

definition unVote :: "'node::linorder \<Rightarrow> ('tx, 'node) disputed \<Rightarrow> ('tx, 'node) disputed" where
  "unVote peer d =
     (case smap_find (votes d) peer of
        None \<Rightarrow> d
      | Some old \<Rightarrow>
          (let d' = (if old then d\<lparr>yays := yays d - 1\<rparr> else d\<lparr>nays := nays d - 1\<rparr>)
           in d'\<lparr>votes := smap_erase peer (votes d)\<rparr>))"

text \<open>
  In the comparisons with the parameters the \<^verbatim>\<open>int\<close> operand is converted to \<^verbatim>\<open>std::size_t\<close>, as
  the usual arithmetic conversions of the language do.
\<close>

definition voteThreshold :: "int \<Rightarrow> ConsensusParms \<Rightarrow> u64" where
  "voteThreshold percentTime p =
     (if word_of_int percentTime < avMID_CONSENSUS_TIME p then avINIT_CONSENSUS_PCT p
      else if word_of_int percentTime < avLATE_CONSENSUS_TIME p then avMID_CONSENSUS_PCT p
      else if word_of_int percentTime < avSTUCK_CONSENSUS_TIME p then avLATE_CONSENSUS_PCT p
      else avSTUCK_CONSENSUS_PCT p)"

definition voteWeight :: "('tx, 'node) disputed \<Rightarrow> int" where
  "voteWeight d = (yays d * 100 + (if ourVote d then 100 else 0)) sdiv (nays d + yays d + 1)"

definition updateVote ::
  "int \<Rightarrow> bool \<Rightarrow> ConsensusParms \<Rightarrow> ('tx, 'node) disputed \<Rightarrow> bool \<times> ('tx, 'node) disputed" where
  "updateVote percentTime proposing p d =
     (if ourVote d \<and> nays d = 0 then (False, d)
      else if \<not> ourVote d \<and> yays d = 0 then (False, d)
      else let newPosition =
                 (if proposing then word_of_int (voteWeight d) > voteThreshold percentTime p
                  else yays d > nays d)
           in if newPosition = ourVote d then (False, d)
              else (True, d\<lparr>ourVote := newPosition\<rparr>))"

section \<open>The tallies count the recorded votes\<close>

definition tallies_ok :: "('tx, 'node::linorder) disputed \<Rightarrow> bool" where
  "tallies_ok d \<longleftrightarrow> smap_ok (votes d)
     \<and> yays d = int (smap_count (\<lambda>v. v) (votes d))
     \<and> nays d = int (smap_count Not (votes d))"

lemma tallies_ok_new: "tallies_ok (DisputedTx t our)"
  by (simp add: tallies_ok_def DisputedTx_def)

lemma tallies_ok_setOurVote: "tallies_ok d \<Longrightarrow> tallies_ok (setOurVote v d)"
  by (simp add: tallies_ok_def setOurVote_def)

lemma tallies_ok_setVote:
  assumes "tallies_ok d"
  shows "tallies_ok (setVote peer v d)"
proof -
  have ok: "smap_ok (votes d)" using assms by (simp add: tallies_ok_def)
  show ?thesis
  proof (cases "smap_find (votes d) peer")
    case None
    then show ?thesis
      using assms ok by (simp add: tallies_ok_def setVote_def Let_def smap_count_put_new smap_ok_put)
  next
    case (Some old)
    then show ?thesis
      using assms ok smap_count_put_old [OF ok Some, of "\<lambda>v. v" v]
        smap_count_put_old [OF ok Some, of Not v]
      by (auto simp: tallies_ok_def setVote_def smap_ok_put)
  qed
qed

lemma tallies_ok_unVote:
  assumes "tallies_ok d"
  shows "tallies_ok (unVote peer d)"
proof -
  have ok: "smap_ok (votes d)" using assms by (simp add: tallies_ok_def)
  show ?thesis
  proof (cases "smap_find (votes d) peer")
    case None
    then show ?thesis using assms by (simp add: unVote_def)
  next
    case (Some old)
    then show ?thesis
      using assms ok smap_count_erase [OF Some, of "\<lambda>v. v"] smap_count_erase [OF Some, of Not]
      by (auto simp: tallies_ok_def unVote_def Let_def smap_ok_erase)
  qed
qed

lemma tallies_ok_updateVote: "tallies_ok d \<Longrightarrow> tallies_ok (snd (updateVote pt pr p d))"
  by (simp add: tallies_ok_def updateVote_def Let_def)

text \<open>The votes themselves, as the map an observer of the messages would keep.\<close>

lemma votes_setVote:
  "smap_find (votes (setVote peer v d)) = (smap_find (votes d))(peer \<mapsto> v)"
  by (rule ext) (auto simp: setVote_def Let_def smap_find_put split: option.splits)

lemma votes_unVote:
  "smap_ok (votes d) \<Longrightarrow> smap_find (votes (unVote peer d)) = (smap_find (votes d))(peer := None)"
  by (rule ext) (auto simp: unVote_def Let_def smap_find_erase split: option.splits)

section \<open>Any sequence of operations\<close>

datatype 'node vote_op = SetVote 'node bool | UnVote 'node | SetOur bool | Update int bool

fun apply_op ::
  "ConsensusParms \<Rightarrow> 'node::linorder vote_op \<Rightarrow> ('tx, 'node) disputed \<Rightarrow> ('tx, 'node) disputed"
where
  "apply_op p (SetVote n v) d = setVote n v d"
| "apply_op p (UnVote n) d = unVote n d"
| "apply_op p (SetOur v) d = setOurVote v d"
| "apply_op p (Update pt pr) d = snd (updateVote pt pr p d)"

text \<open>The specification: the last vote of each peer that has not been withdrawn since.\<close>

fun spec_op :: "'node vote_op \<Rightarrow> ('node \<rightharpoonup> bool) \<Rightarrow> ('node \<rightharpoonup> bool)" where
  "spec_op (SetVote n v) m = m(n \<mapsto> v)"
| "spec_op (UnVote n) m = m(n := None)"
| "spec_op (SetOur v) m = m"
| "spec_op (Update pt pr) m = m"

lemma apply_op_refines:
  assumes "tallies_ok d"
  shows "tallies_ok (apply_op p a d)"
    and "smap_find (votes (apply_op p a d)) = spec_op a (smap_find (votes d))"
proof -
  show "tallies_ok (apply_op p a d)"
    using assms by (cases a) (simp_all add: tallies_ok_setVote tallies_ok_unVote
      tallies_ok_setOurVote tallies_ok_updateVote)
  have "smap_ok (votes d)" using assms by (simp add: tallies_ok_def)
  then show "smap_find (votes (apply_op p a d)) = spec_op a (smap_find (votes d))"
    by (cases a) (simp_all add: votes_setVote votes_unVote setOurVote_def updateVote_def Let_def)
qed

lemma apply_ops_refine:
  assumes "tallies_ok d"
  shows "tallies_ok (fold (apply_op p) ops d)
    \<and> smap_find (votes (fold (apply_op p) ops d)) = fold spec_op ops (smap_find (votes d))"
  using assms
proof (induction ops arbitrary: d)
  case (Cons a ops)
  from apply_op_refines [OF Cons.prems, of p a] Cons.IH [of "apply_op p a d"] show ?case by simp
qed simp

text \<open>C9. The tallies are exact whatever the order of messages: after any sequence of votes, vote
  changes, withdrawals and updates of the local vote, starting from a fresh dispute, the recorded
  votes are the last one of each peer, and the two counters are the numbers of peers whose last
  vote is yes and no.\<close>

theorem disputed_tallies_exact:
  fixes ops :: "'node::linorder vote_op list"
  shows "let d = fold (apply_op p) ops (DisputedTx t our); m = fold spec_op ops Map.empty
    in smap_find (votes d) = m
       \<and> yays d = int (card {n. m n = Some True}) \<and> nays d = int (card {n. m n = Some False})"
proof -
  let ?d = "fold (apply_op p) ops (DisputedTx t our)" and ?m = "fold spec_op ops Map.empty"
  have "tallies_ok ?d \<and> smap_find (votes ?d) = ?m"
    using apply_ops_refine [OF tallies_ok_new, of p ops t our] by (simp add: DisputedTx_def)
  moreover have "{k. \<exists>v. ?m k = Some v \<and> v} = {n. ?m n = Some True}"
    "{k. \<exists>v. ?m k = Some v \<and> \<not> v} = {n. ?m n = Some False}" by auto
  ultimately show ?thesis
    using smap_count_card [of "votes ?d" "\<lambda>v. v"] smap_count_card [of "votes ?d" Not]
    by (simp add: tallies_ok_def Let_def del: ex_simps)
qed

section \<open>The local vote\<close>

lemma voteWeight_bounds:
  assumes "0 \<le> yays d" and "0 \<le> nays d"
  shows "0 \<le> voteWeight d" and "voteWeight d \<le> 100"
proof -
  let ?y = "yays d * 100 + (if ourVote d then 100 else 0)" and ?n = "nays d + yays d + 1"
  have n: "0 < ?n" and y: "0 \<le> ?y" using assms by simp_all
  have w: "voteWeight d = ?y div ?n" using n y by (simp add: voteWeight_def)
  show "0 \<le> voteWeight d" unfolding w using n y by (simp only: pos_imp_zdiv_nonneg_iff)
  have "?y \<le> 100 * ?n" using assms by simp
  then have "?y div ?n \<le> 100 * ?n div ?n" using n by (rule zdiv_mono1)
  also have "\<dots> = 100" using n by (intro nonzero_mult_div_cancel_right) simp
  finally show "voteWeight d \<le> 100" unfolding w .
qed

lemma voteWeight_exceeds_iff:
  assumes "0 \<le> yays d" and "0 \<le> nays d"
  shows "word_of_int (voteWeight d) > (thr::u64) \<longleftrightarrow>
    (uint thr + 1) * (nays d + yays d + 1) \<le> 100 * (yays d + of_bool (ourVote d))"
proof -
  let ?n = "nays d + yays d + 1" and ?y = "100 * (yays d + of_bool (ourVote d))"
  have w: "voteWeight d = ?y div ?n"
    using assms by (simp add: voteWeight_def algebra_simps)
  have "uint (word_of_int (voteWeight d) :: u64) = voteWeight d"
    using voteWeight_bounds [OF assms] by (simp add: uint_word_of_int)
  then have "word_of_int (voteWeight d) > thr \<longleftrightarrow> uint thr + 1 \<le> ?y div ?n"
    by (auto simp: word_less_def w)
  also have "\<dots> \<longleftrightarrow> (uint thr + 1) * ?n \<le> ?y"
    using assms by (simp add: le_div_iff_mult_le_int mult.commute)
  finally show ?thesis .
qed

lemma ourVote_upd_same: "ourVote d = v \<Longrightarrow> d\<lparr>ourVote := v\<rparr> = d"
  by (cases d) simp

text \<open>C17. The local vote follows the count: when the peers are not already unanimous for our
  position, a proposing node votes for the transaction exactly when the nodes voting yes, itself
  included, exceed the threshold of the current phase by a full percentage point of all nodes;
  a node that only observes votes yes exactly when the yes votes are a strict majority. The
  returned flag says whether the vote changed and nothing but the vote is modified.\<close>

theorem updateVote_follows_count:
  assumes "tallies_ok d" and "if ourVote d then nays d \<noteq> 0 else yays d \<noteq> 0"
  shows "case updateVote percentTime proposing p d of (changed, d') \<Rightarrow>
      (ourVote d' \<longleftrightarrow>
        (if proposing
         then (uint (voteThreshold percentTime p) + 1) * (nays d + yays d + 1)
                \<le> 100 * (yays d + of_bool (ourVote d))
         else nays d < yays d))
      \<and> (changed \<longleftrightarrow> ourVote d' \<noteq> ourVote d) \<and> d' = d\<lparr>ourVote := ourVote d'\<rparr>"
proof -
  have "0 \<le> yays d" "0 \<le> nays d" using assms(1) by (simp_all add: tallies_ok_def)
  note iff = voteWeight_exceeds_iff [OF this, of "voteThreshold percentTime p"]
  let ?new = "if proposing then word_of_int (voteWeight d) > voteThreshold percentTime p
              else yays d > nays d"
  have "updateVote percentTime proposing p d = (?new \<noteq> ourVote d, d\<lparr>ourVote := ?new\<rparr>)"
    using assms(2) by (cases "ourVote d") (simp_all add: updateVote_def Let_def ourVote_upd_same)
  then show ?thesis by (simp add: iff)
qed

theorem updateVote_follows_count_witness:
  "let d = setVote (2::nat) True (setVote 3 True (DisputedTx (''tx'') False))
   in tallies_ok d \<and> ourVote (snd (updateVote 10 True default_parms d))
      \<and> \<not> ourVote (snd (updateVote 90 True default_parms d))"
proof -
  let ?d = "setVote (2::nat) True (setVote 3 True (DisputedTx (''tx'') False))"
  have ok: "tallies_ok ?d" by (intro tallies_ok_setVote tallies_ok_new)
  have y: "yays ?d = 2" "nays ?d = 0" "\<not> ourVote ?d"
    by (simp_all add: setVote_def DisputedTx_def Let_def)
  then have h: "if ourVote ?d then nays ?d \<noteq> 0 else yays ?d \<noteq> 0" by simp
  have thr: "uint (voteThreshold 10 default_parms) = 50" "uint (voteThreshold 90 default_parms) = 70"
    by (simp_all add: voteThreshold_def default_parms_def)
  have "ourVote (snd (updateVote 10 True default_parms ?d))"
    using updateVote_follows_count [OF ok h, where percentTime = 10 and proposing = True
        and p = default_parms]
    by (simp add: case_prod_beta thr y)
  moreover have "\<not> ourVote (snd (updateVote 90 True default_parms ?d))"
    using updateVote_follows_count [OF ok h, where percentTime = 90 and proposing = True
        and p = default_parms]
    by (simp add: case_prod_beta thr y)
  ultimately show ?thesis using ok by (simp add: Let_def)
qed

text \<open>C18. The avalanche thresholds only rise: with the default parameters and the same votes, a
  proposing node that would vote yes at some point of the round would have voted yes at every
  earlier point of it. A transaction rejected early is never revived by time alone.\<close>

theorem updateVote_avalanche:
  assumes "tallies_ok d" and "0 \<le> early" and "early \<le> late" and "late < 2 ^ 31"
    and "ourVote (snd (updateVote late True default_parms d))"
  shows "ourVote (snd (updateVote early True default_parms d))"
proof -
  have u: "uint (word_of_int x :: u64) = x" if "0 \<le> x" "x < 2 ^ 31" for x
    using that by (simp add: uint_word_of_int)
  have "voteThreshold early default_parms \<le> voteThreshold late default_parms"
    using u [of early] u [of late] assms(2-4)
    by (simp add: voteThreshold_def default_parms_def word_less_def word_le_def)
  then show ?thesis
    using assms(5) by (auto simp: updateVote_def Let_def split: if_splits)
qed

theorem updateVote_avalanche_witness:
  "let d = setVote (2::nat) True (setVote 1 True (DisputedTx (''tx'') True))
   in ourVote (snd (updateVote 40 True default_parms (setVote 3 False d)))"
proof -
  let ?d = "setVote 3 False (setVote (2::nat) True (setVote 1 True (DisputedTx (''tx'') True)))"
  have ok: "tallies_ok ?d" by (intro tallies_ok_setVote tallies_ok_new)
  have late: "ourVote (snd (updateVote 90 True default_parms ?d))"
    by (simp add: updateVote_def voteWeight_def voteThreshold_def default_parms_def setVote_def
        DisputedTx_def Let_def)
  show ?thesis
    using updateVote_avalanche [OF ok _ _ _ late, of 40] by (simp add: Let_def)
qed

end
