(* ===== verification/IOUAmount.thy ===== *)
theory IOUAmount
  imports Prelude
begin

text \<open>
  Issued-currency amounts, \<^verbatim>\<open>basics/IOUAmount.h\<close> and \<^verbatim>\<open>basics/impl/IOUAmount.cpp\<close>: a decimal floating
  point number with a signed 64-bit mantissa and an exponent. The two fields are kept as \<^typ>\<open>int\<close>;
  the loops only multiply a mantissa below \<open>10 ^ 15\<close> and otherwise divide, so no intermediate value
  of an amount leaves the 64-bit range unless the caller passes the smallest 64-bit integer.
  Quotients of possibly negative mantissas truncate, as in the language. The exceptions
  \<^verbatim>\<open>std::overflow_error\<close> and \<^verbatim>\<open>std::runtime_error\<close> are the left summand of a sum type.
\<close>

section \<open>Representation and operations\<close>

record iou =
  mantissa :: int
  exponent :: int

datatype iou_error = OverflowError | DivisionByZero

definition minMantissa :: int where "minMantissa = 1000000000000000"

definition maxMantissa :: int where "maxMantissa = 9999999999999999"

definition minExponent :: int where "minExponent = - 96"

definition maxExponent :: int where "maxExponent = 80"

text \<open>The assignment from \<^verbatim>\<open>beast::zero\<close>: the exponent makes zero sort below small amounts.\<close>

definition iou_zero :: iou where
  "iou_zero = \<lparr>mantissa = 0, exponent = - 100\<rparr>"

text \<open>The two loops of \<^verbatim>\<open>IOUAmount::normalize\<close>, on a positive mantissa.\<close>

function scale_up :: "int \<Rightarrow> int \<Rightarrow> int \<times> int" where
  "scale_up m e =
     (if m < minMantissa \<and> e > minExponent then scale_up (m * 10) (e - 1) else (m, e))"
  by pat_completeness auto
termination
  by (relation "measure (\<lambda>(m, e). nat (e - minExponent))") auto

function scale_down :: "int \<Rightarrow> int \<Rightarrow> iou_error + int \<times> int" where
  "scale_down m e =
     (if m > maxMantissa
      then (if e \<ge> maxExponent then Inl OverflowError else scale_down (m sdiv 10) (e + 1))
      else Inr (m, e))"
  by pat_completeness auto
termination
  by (relation "measure (\<lambda>(m, e). nat m)") (auto simp: maxMantissa_def)

declare scale_up.simps [simp del] scale_down.simps [simp del]

definition normalize :: "int \<Rightarrow> int \<Rightarrow> iou_error + iou" where
  "normalize m e =
     (if m = 0 then Inr iou_zero
      else let negative = m < 0;
               m0 = (if negative then - m else m);
               (m1, e1) = scale_up m0 e
           in case scale_down m1 e1 of
                Inl err \<Rightarrow> Inl err
              | Inr (m2, e2) \<Rightarrow>
                  if e2 < minExponent \<or> m2 < minMantissa then Inr iou_zero
                  else if e2 > maxExponent then Inl OverflowError
                  else Inr \<lparr>mantissa = (if negative then - m2 else m2), exponent = e2\<rparr>)"

text \<open>The public constructor: it normalises its arguments.\<close>

definition IOUAmount :: "int \<Rightarrow> int \<Rightarrow> iou_error + iou" where
  "IOUAmount m e = normalize m e"

definition minPositiveAmount :: "iou_error + iou" where
  "minPositiveAmount = IOUAmount minMantissa minExponent"

text \<open>Both alignment loops of \<^verbatim>\<open>operator+=\<close>: drop digits until the exponent has caught up.\<close>

function align :: "int \<Rightarrow> int \<Rightarrow> int \<Rightarrow> int \<times> int" where
  "align m e target = (if e < target then align (m sdiv 10) (e + 1) target else (m, e))"
  by pat_completeness auto
termination
  by (relation "measure (\<lambda>(m, e, target). nat (target - e))") auto

declare align.simps [simp del]

definition iou_add :: "iou \<Rightarrow> iou \<Rightarrow> iou_error + iou" where
  "iou_add a other =
     (if other = iou_zero then Inr a
      else if a = iou_zero then Inr other
      else let (m1, e1) = align (mantissa a) (exponent a) (exponent other);
               (m, e) = align (mantissa other) (exponent other) e1;
               m2 = m1 + m
           in if m2 \<ge> - 10 \<and> m2 \<le> 10 then Inr iou_zero else normalize m2 e1)"

definition iou_neg :: "iou \<Rightarrow> iou_error + iou" where
  "iou_neg a = IOUAmount (- mantissa a) (exponent a)"

definition iou_sub :: "iou \<Rightarrow> iou \<Rightarrow> iou_error + iou" where
  "iou_sub a other = (case iou_neg other of Inl err \<Rightarrow> Inl err | Inr n \<Rightarrow> iou_add a n)"

definition iou_less :: "iou \<Rightarrow> iou \<Rightarrow> bool" where
  "iou_less a other =
     (let lneg = mantissa a < 0; rneg = mantissa other < 0
      in if lneg \<noteq> rneg then lneg
         else if mantissa a = 0 then mantissa other > 0
         else if mantissa other = 0 then False
         else if exponent a > exponent other then lneg
         else if exponent a < exponent other then \<not> lneg
         else mantissa a < mantissa other)"

definition signum :: "iou \<Rightarrow> int" where
  "signum a = (if mantissa a < 0 then - 1 else if mantissa a \<noteq> 0 then 1 else 0)"

section \<open>mulRatio\<close>

definition powerTable :: "int list" where
  "powerTable = map (\<lambda>i. 10 ^ i) [0..<30]"

text \<open>\<^verbatim>\<open>std::lower_bound\<close> in the table: the number of powers below \<open>v\<close>.\<close>

definition log10Ceil :: "int \<Rightarrow> int" where
  "log10Ceil v = int (length (takeWhile (\<lambda>x. x < v) powerTable))"

definition log10Floor :: "int \<Rightarrow> int" where
  "log10Floor v =
     (let index = log10Ceil v
      in if powerTable ! nat index \<noteq> v then index - 1 else index)"

definition fl64 :: int where
  "fl64 = log10Floor (2 ^ 63 - 1)"

text \<open>
  The part of \<^verbatim>\<open>mulRatio\<close> before the result is normalised: the scaled quotient, its exponent and
  whether a remainder was dropped. The 128-bit unsigned values are kept as \<^typ>\<open>int\<close>; that none of
  them reaches \<open>2 ^ 128\<close> is proved below.
\<close>

definition mulRatio_grow :: "int \<Rightarrow> int \<Rightarrow> int \<Rightarrow> int \<Rightarrow> int \<times> int \<times> int" where
  "mulRatio_grow low rem den ex =
     (if rem \<noteq> 0 then
        let roomToGrow = fl64 - log10Ceil low;
            (ex', low', rem') =
              (if roomToGrow > 0
               then (ex - roomToGrow, low * powerTable ! nat roomToGrow,
                     rem * powerTable ! nat roomToGrow)
               else (ex, low, rem));
            addRem = rem' div den
        in (low' + addRem, rem' - addRem * den, ex')
      else (low, rem, ex))"

definition mulRatio_shrink :: "int \<Rightarrow> int \<Rightarrow> int \<Rightarrow> int \<times> int \<times> bool" where
  "mulRatio_shrink low rem ex =
     (let hasRem = rem \<noteq> 0;
          mustShrink = log10Ceil low - fl64
      in if mustShrink > 0
         then let low' = low div powerTable ! nat mustShrink
              in (low', ex + mustShrink,
                  hasRem \<or> low - low' * powerTable ! nat mustShrink \<noteq> 0)
         else (low, ex, hasRem))"

definition mulRatio_scaled :: "int \<Rightarrow> int \<Rightarrow> u32 \<Rightarrow> u32 \<Rightarrow> int \<times> int \<times> bool" where
  "mulRatio_scaled m ex num den =
     (let mul = m * uint num;
          low = mul div uint den;
          rem = mul - low * uint den;
          (low1, rem1, ex1) = mulRatio_grow low rem (uint den) ex
      in mulRatio_shrink low1 rem1 ex1)"

definition mulRatio :: "iou \<Rightarrow> u32 \<Rightarrow> u32 \<Rightarrow> bool \<Rightarrow> iou_error + iou" where
  "mulRatio amt num den roundUp =
     (if den = 0 then Inl DivisionByZero
      else let neg = mantissa amt < 0;
               (low, ex, hasRem) =
                 mulRatio_scaled (if neg then - mantissa amt else mantissa amt) (exponent amt) num den
           in case IOUAmount (if neg then low * - 1 else low) ex of
                Inl err \<Rightarrow> Inl err
              | Inr result \<Rightarrow>
                  if hasRem \<and> roundUp \<and> \<not> neg then
                    (if mantissa result = 0 then minPositiveAmount
                     else IOUAmount (mantissa result + 1) (exponent result))
                  else if hasRem \<and> \<not> roundUp \<and> neg then
                    (if mantissa result = 0 then IOUAmount (- minMantissa) minExponent
                     else IOUAmount (mantissa result - 1) (exponent result))
                  else Inr result)"

section \<open>The value of an amount\<close>

definition dec :: "int \<Rightarrow> int \<Rightarrow> real" where
  "dec m e = of_int m * 10 powi e"

definition iou_val :: "iou \<Rightarrow> real" where
  "iou_val a = dec (mantissa a) (exponent a)"

definition canonical_nonzero :: "iou \<Rightarrow> bool" where
  "canonical_nonzero a \<longleftrightarrow> minMantissa \<le> \<bar>mantissa a\<bar> \<and> \<bar>mantissa a\<bar> \<le> maxMantissa
     \<and> minExponent \<le> exponent a \<and> exponent a \<le> maxExponent"

definition canonical :: "iou \<Rightarrow> bool" where
  "canonical a \<longleftrightarrow> a = iou_zero \<or> canonical_nonzero a"

lemmas iou_consts = minMantissa_def maxMantissa_def minExponent_def maxExponent_def

lemma dec_0 [simp]: "dec 0 e = 0"
  by (simp add: dec_def)

lemma dec_uminus: "dec (- m) e = - dec m e"
  by (simp add: dec_def)

lemma dec_add: "dec (m + n) e = dec m e + dec n e"
  by (simp add: dec_def algebra_simps)

lemma dec_le_iff [simp]: "dec m e \<le> dec n e \<longleftrightarrow> m \<le> n"
  by (simp add: dec_def)

lemma dec_less_iff [simp]: "dec m e < dec n e \<longleftrightarrow> m < n"
  by (simp add: dec_def)

lemma dec_eq_iff: "dec m e = dec n e \<longleftrightarrow> m = n"
  by (simp add: dec_def)

lemma dec_pos [simp]: "0 < dec m e \<longleftrightarrow> 0 < m"
  using dec_less_iff [of 0 e m] by simp

lemma dec_shift: "dec (m * 10 ^ k) e = dec m (e + int k)"
  by (simp add: dec_def power_int_add)

lemma dec_times_10: "dec (m * 10) e = dec m (e + 1)"
  using dec_shift [of m 1 e] by simp

lemma dec_mono_exp: "0 \<le> m \<Longrightarrow> e \<le> e' \<Longrightarrow> dec m e \<le> dec m e'"
  by (simp add: dec_def mult_left_mono power_int_increasing)

lemma dec_mono: "0 \<le> m \<Longrightarrow> m \<le> m' \<Longrightarrow> e \<le> e' \<Longrightarrow> dec m e \<le> dec m' e'"
  by (rule order.trans [OF _ dec_mono_exp [of m' e e']]) simp_all

lemma dec_div10_le: "0 \<le> m \<Longrightarrow> dec (m div 10) (e + 1) \<le> dec m e"
  by (simp add: dec_times_10 [symmetric])

lemma dec_div10_less: "0 \<le> m \<Longrightarrow> dec m e < dec (m div 10 + 1) (e + 1)"
  by (simp add: dec_times_10 [symmetric])

section \<open>Normalisation\<close>

lemma scale_up_spec:
  assumes "0 < m" and "scale_up m e = (m', e')"
  shows "dec m' e' = dec m e" and "0 < m'" and "e' \<le> e"
    and "minMantissa \<le> m' \<or> e' \<le> minExponent"
    and "m' \<le> maxMantissa \<or> m' = m \<and> e' = e"
proof -
  have "dec m' e' = dec m e \<and> 0 < m' \<and> e' \<le> e \<and> (minMantissa \<le> m' \<or> e' \<le> minExponent)
      \<and> (m' \<le> maxMantissa \<or> m' = m \<and> e' = e)"
    using assms
  proof (induction m e rule: scale_up.induct)
    case (1 m e)
    show ?case
    proof (cases "m < minMantissa \<and> e > minExponent")
      case True
      with "1.prems" have "scale_up (m * 10) (e - 1) = (m', e')"
        by (simp add: scale_up.simps [of m e])
      from "1.IH" [OF True _ this] "1.prems"(1) True show ?thesis
        using dec_times_10 [of m "e - 1"] by (auto simp: iou_consts)
    next
      case False
      with "1.prems" show ?thesis by (auto simp: scale_up.simps [of m e] iou_consts)
    qed
  qed
  then show "dec m' e' = dec m e" and "0 < m'" and "e' \<le> e"
    and "minMantissa \<le> m' \<or> e' \<le> minExponent" and "m' \<le> maxMantissa \<or> m' = m \<and> e' = e"
    by blast+
qed

lemma scale_down_Inl:
  assumes "0 < m" and "scale_down m e = Inl err"
  shows "err = OverflowError \<and> dec 1 96 \<le> dec m e"
  using assms
proof (induction m e rule: scale_down.induct)
  case (1 m e)
  from "1.prems"(2) have big: "m > maxMantissa"
    by (simp add: scale_down.simps [of m e] split: if_splits)
  show ?case
  proof (cases "e \<ge> maxExponent")
    case True
    have "dec 1 96 = dec (10 ^ 16) 80" using dec_shift [of 1 16 80] by simp
    also have "\<dots> \<le> dec m e" using big True by (intro dec_mono) (simp_all add: iou_consts)
    finally show ?thesis using "1.prems"(2) big True by (simp add: scale_down.simps [of m e])
  next
    case False
    with big "1.prems" have "scale_down (m sdiv 10) (e + 1) = Inl err"
      by (simp add: scale_down.simps [of m e])
    with "1.IH" [OF big False] big "1.prems"(1)
    have "err = OverflowError \<and> dec 1 96 \<le> dec (m div 10) (e + 1)"
      by (simp add: iou_consts)
    then show ?thesis using dec_div10_le [of m e] "1.prems"(1) by simp
  qed
qed

lemma scale_down_Inr:
  assumes "0 < m" and "scale_down m e = Inr (m', e')"
  shows "m' \<le> maxMantissa \<and> e \<le> e' \<and> dec m' e' \<le> dec m e \<and> dec m e < dec (m' + 1) e'
    \<and> (if m \<le> maxMantissa then m' = m \<and> e' = e else minMantissa \<le> m')"
  using assms
proof (induction m e rule: scale_down.induct)
  case (1 m e)
  show ?case
  proof (cases "m > maxMantissa")
    case False
    with "1.prems" show ?thesis by (simp add: scale_down.simps [of m e])
  next
    case big: True
    with "1.prems" have e: "\<not> e \<ge> maxExponent" and "scale_down (m sdiv 10) (e + 1) = Inr (m', e')"
      by (simp_all add: scale_down.simps [of m e] split: if_splits)
    moreover have q: "m sdiv 10 = m div 10" "minMantissa \<le> m div 10" "0 < m div 10"
      using big by (simp_all add: iou_consts)
    ultimately
    have "m' \<le> maxMantissa \<and> e + 1 \<le> e' \<and> dec m' e' \<le> dec (m div 10) (e + 1)
        \<and> dec (m div 10) (e + 1) < dec (m' + 1) e' \<and> minMantissa \<le> m'"
      using "1.IH" [OF big e] by (auto split: if_splits)
    moreover have "dec m e < dec (m' + 1) e'"
    proof -
      have "e + 1 \<le> e'" "dec (m div 10) (e + 1) < dec (m' + 1) e'" using calculation by auto
      then have "dec (m div 10) (e + 1) < dec ((m' + 1) * 10 ^ nat (e' - (e + 1))) (e + 1)"
        by (simp add: dec_shift)
      then have "m div 10 + 1 \<le> (m' + 1) * 10 ^ nat (e' - (e + 1))" by simp
      then have "dec (m div 10 + 1) (e + 1) \<le> dec ((m' + 1) * 10 ^ nat (e' - (e + 1))) (e + 1)" by simp
      also have "\<dots> = dec (m' + 1) e'" using \<open>e + 1 \<le> e'\<close> by (simp add: dec_shift)
      finally show ?thesis using dec_div10_less [of m e] "1.prems"(1) by simp
    qed
    ultimately show ?thesis using dec_div10_le [of m e] "1.prems"(1) big by simp
  qed
qed

text \<open>The three outcomes of a normalisation, decided by the magnitude of the value alone.\<close>

definition normalizes_to :: "int \<Rightarrow> int \<Rightarrow> iou_error + iou \<Rightarrow> bool" where
  "normalizes_to m e res \<longleftrightarrow>
     (case res of
        Inl err \<Rightarrow> err = OverflowError \<and> dec 1 96 \<le> dec \<bar>m\<bar> e
      | Inr r \<Rightarrow>
          r = iou_zero \<and> dec \<bar>m\<bar> e < dec 1 (- 81)
          \<or> canonical_nonzero r \<and> sgn (mantissa r) = sgn m
            \<and> dec 1 (- 81) \<le> dec \<bar>m\<bar> e \<and> dec \<bar>m\<bar> e < dec 1 96
            \<and> dec \<bar>mantissa r\<bar> (exponent r) \<le> dec \<bar>m\<bar> e
            \<and> dec \<bar>m\<bar> e < dec (\<bar>mantissa r\<bar> + 1) (exponent r))"

lemma dec_1_96: "dec 1 96 = dec (10 ^ 16) 80"
  using dec_shift [of 1 16 80] by simp

lemma dec_1_m81: "dec 1 (- 81) = dec (10 ^ 15) (- 96)"
  using dec_shift [of 1 15 "- 96"] by simp

lemma normalize_abs:
  assumes "m \<noteq> 0"
  shows "normalize m e =
    (case normalize \<bar>m\<bar> e of Inl err \<Rightarrow> Inl err
     | Inr r \<Rightarrow> Inr (if m < 0 \<and> mantissa r \<noteq> 0 then r\<lparr>mantissa := - mantissa r\<rparr> else r))"
  using assms by (auto simp: normalize_def iou_zero_def minMantissa_def Let_def split: prod.split sum.split)

lemma normalize_pos_spec:
  assumes "0 < m"
  shows "normalizes_to m e (normalize m e)"
proof -
  obtain m1 e1 where up: "scale_up m e = (m1, e1)" by (cases "scale_up m e")
  note U = scale_up_spec [OF assms up]
  show ?thesis
  proof (cases "scale_down m1 e1")
    case (Inl err)
    with scale_down_Inl [OF U(2) Inl] U(1) assms up show ?thesis
      by (simp add: normalize_def normalizes_to_def)
  next
    case (Inr p)
    obtain m2 e2 where "p = (m2, e2)" by (cases p)
    with Inr have down: "scale_down m1 e1 = Inr (m2, e2)" by simp
    note D = scale_down_Inr [OF U(2) down]
    have res: "normalize m e =
        (if e2 < minExponent \<or> m2 < minMantissa then Inr iou_zero
         else if e2 > maxExponent then Inl OverflowError
         else Inr \<lparr>mantissa = m2, exponent = e2\<rparr>)"
      using assms up down by (simp add: normalize_def)
    have v: "dec m2 e2 \<le> dec m e" "dec m e < dec (m2 + 1) e2" using D U(1) by simp_all
    consider "m2 < minMantissa" | "minMantissa \<le> m2" "e2 < minExponent"
      | "minMantissa \<le> m2" "maxExponent < e2"
      | "minMantissa \<le> m2" "minExponent \<le> e2" "e2 \<le> maxExponent" by linarith
    then show ?thesis
    proof cases
      case 1
      then have "m2 = m1" "e2 = e1" using D by (auto split: if_splits)
      then have "e2 \<le> minExponent" using U(4) 1 by simp
      then have "dec (m2 + 1) e2 \<le> dec 1 (- 81)"
        unfolding dec_1_m81 using 1 U(2) \<open>m2 = m1\<close> by (intro dec_mono) (simp_all add: iou_consts)
      then show ?thesis using 1 v res assms by (simp add: normalizes_to_def)
    next
      case 2
      have "dec (m2 + 1) e2 \<le> dec (10 ^ 16) (- 97)"
        using 2 D by (intro dec_mono) (simp_all add: iou_consts)
      also have "\<dots> = dec 1 (- 81)" using dec_shift [of 1 16 "- 97"] by simp
      finally show ?thesis using 2 v res assms by (simp add: normalizes_to_def)
    next
      case 3
      have "dec 1 96 = dec (10 ^ 15) 81" using dec_shift [of 1 15 81] by simp
      also have "\<dots> \<le> dec m2 e2" using 3 by (intro dec_mono) (simp_all add: iou_consts)
      finally have "dec 1 96 \<le> dec m e" using v by simp
      moreover have "normalize m e = Inl OverflowError" using 3 res by (simp add: iou_consts)
      ultimately show ?thesis using assms by (simp add: normalizes_to_def)
    next
      case 4
      have "dec 1 (- 81) \<le> dec m2 e2"
        unfolding dec_1_m81 using 4 by (intro dec_mono) (simp_all add: iou_consts)
      moreover have "dec (m2 + 1) e2 \<le> dec 1 96"
        unfolding dec_1_96 using 4 D by (intro dec_mono) (simp_all add: iou_consts)
      moreover have "0 < m2" using 4 by (simp add: minMantissa_def)
      ultimately show ?thesis
        using 4 v res assms D by (simp add: normalizes_to_def canonical_nonzero_def)
    qed
  qed
qed

lemma canonical_nonzero_uminus:
  "canonical_nonzero (r\<lparr>mantissa := - mantissa r\<rparr>) \<longleftrightarrow> canonical_nonzero r"
  by (simp add: canonical_nonzero_def)

lemma canonical_nonzero_not_0: "canonical_nonzero r \<Longrightarrow> mantissa r \<noteq> 0"
  by (auto simp: canonical_nonzero_def minMantissa_def)

lemma normalizes_to_uminus:
  assumes "normalizes_to m e (Inr r)" and "0 < m"
  shows "normalizes_to (- m) e (Inr (if mantissa r \<noteq> 0 then r\<lparr>mantissa := - mantissa r\<rparr> else r))"
  using assms canonical_nonzero_not_0 [of r]
  by (auto simp: normalizes_to_def canonical_nonzero_uminus iou_zero_def)

lemma normalize_spec: "normalizes_to m e (normalize m e)"
proof (cases "m = 0")
  case True
  then show ?thesis by (simp add: normalize_def normalizes_to_def dec_def)
next
  case False
  note P = normalize_pos_spec [of "\<bar>m\<bar>" e]
  show ?thesis
  proof (cases "m < 0")
    case True
    then show ?thesis
      using P normalize_abs [OF False, of e] normalizes_to_uminus [of "- m" e]
      by (cases "normalize (- m) e") (auto simp: normalizes_to_def)
  next
    case f: False
    with False P show ?thesis by simp
  qed
qed

lemma normalize_OverflowError: "normalize m e = Inl err \<Longrightarrow> err = OverflowError \<and> dec 1 96 \<le> dec \<bar>m\<bar> e"
  using normalize_spec [of m e] by (simp add: normalizes_to_def)

lemma iou_zero_not_canonical_nonzero [simp]: "\<not> canonical_nonzero iou_zero"
  by (simp add: canonical_nonzero_def iou_zero_def minMantissa_def)

lemma normalize_canonical: "normalize m e = Inr r \<Longrightarrow> canonical r"
  using normalize_spec [of m e] by (auto simp: normalizes_to_def canonical_def)

lemma dec_outcomes: "dec 1 (- 81) < dec 1 96"
  unfolding dec_1_96 dec_1_m81
  by (rule less_le_trans [of _ "dec (10 ^ 16) (- 96)"]) (simp, intro dec_mono, simp_all)



section \<open>Order\<close>

lemma canonical_exp_less:
  assumes "m \<le> maxMantissa" and "minMantissa \<le> m'" and "e < e'" and "0 \<le> m"
  shows "dec m e < dec m' e'"
proof -
  have "dec m e < dec (10 ^ 16) e" using assms by (simp add: iou_consts)
  also have "\<dots> = dec (10 ^ 15) (e + 1)" using dec_times_10 [of "10 ^ 15" e] by simp
  also have "\<dots> \<le> dec m' e'" using assms by (intro dec_mono) (simp_all add: iou_consts)
  finally show ?thesis .
qed

lemma iou_less_pos:
  assumes "canonical_nonzero a" "canonical_nonzero b" "0 < mantissa a" "0 < mantissa b"
  shows "iou_less a b \<longleftrightarrow> iou_val a < iou_val b"
  using assms canonical_exp_less [of "mantissa a" "mantissa b" "exponent a" "exponent b"]
    canonical_exp_less [of "mantissa b" "mantissa a" "exponent b" "exponent a"]
  by (cases "exponent a" "exponent b" rule: linorder_cases)
     (auto simp: iou_less_def iou_val_def canonical_nonzero_def)

lemma iou_less_neg:
  assumes "canonical_nonzero a" "canonical_nonzero b" "mantissa a < 0" "mantissa b < 0"
  shows "iou_less a b \<longleftrightarrow> iou_val a < iou_val b"
  using assms canonical_exp_less [of "- mantissa a" "- mantissa b" "exponent a" "exponent b"]
    canonical_exp_less [of "- mantissa b" "- mantissa a" "exponent b" "exponent a"]
  by (cases "exponent a" "exponent b" rule: linorder_cases)
     (auto simp: iou_less_def iou_val_def canonical_nonzero_def dec_uminus)

lemma dec_neg [simp]: "dec m e < 0 \<longleftrightarrow> m < 0"
  using dec_less_iff [of m e 0] by simp

lemma dec_sign_less: "m < 0 \<Longrightarrow> 0 \<le> m' \<Longrightarrow> dec m e < dec m' e'"
  by (rule less_le_trans [of _ 0]) (simp_all add: not_less [symmetric])

lemma iou_less_mixed:
  assumes "mantissa x = 0 \<or> mantissa y = 0 \<or> (mantissa x < 0) \<noteq> (mantissa y < 0)"
  shows "iou_less x y \<longleftrightarrow> iou_val x < iou_val y"
proof -
  consider "mantissa x < 0" "0 \<le> mantissa y" | "0 \<le> mantissa x" "mantissa y < 0"
    | "mantissa x = 0" "0 \<le> mantissa y" | "mantissa y = 0" "0 < mantissa x"
    using assms by linarith
  then show ?thesis
  proof cases
    case 1
    then show ?thesis using dec_sign_less [OF 1] by (simp add: iou_less_def iou_val_def)
  next
    case 2
    then show ?thesis using dec_sign_less [OF 2(2,1), of "exponent y" "exponent x"]
      by (simp add: iou_less_def iou_val_def)
  qed (auto simp: iou_less_def iou_val_def not_less [symmetric])
qed

lemma iou_less_iff:
  assumes "canonical x" and "canonical y"
  shows "iou_less x y \<longleftrightarrow> iou_val x < iou_val y"
proof (cases "mantissa x = 0 \<or> mantissa y = 0 \<or> (mantissa x < 0) \<noteq> (mantissa y < 0)")
  case True
  then show ?thesis by (rule iou_less_mixed)
next
  case False
  then have "canonical_nonzero x" "canonical_nonzero y" "mantissa x < 0 \<longleftrightarrow> mantissa y < 0"
    using assms by (auto simp: canonical_def iou_zero_def)
  then show ?thesis
    using iou_less_pos iou_less_neg canonical_nonzero_not_0 by (meson linorder_less_linear)
qed

lemma iou_val_inject:
  assumes "canonical a" and "canonical b" and "iou_val a = iou_val b"
  shows "a = b"
proof -
  have "\<not> iou_less a b" "\<not> iou_less b a" using assms iou_less_iff by simp_all
  then have eq: "mantissa a = mantissa b" "mantissa a = 0 \<or> exponent a = exponent b"
    by (auto simp: iou_less_def Let_def split: if_splits)
  have "mantissa c = 0 \<Longrightarrow> exponent c = - 100" if "canonical c" for c
    using that canonical_nonzero_not_0 by (auto simp: canonical_def iou_zero_def)
  with assms eq have "exponent a = exponent b" by metis
  with eq(1) show ?thesis by (cases a, cases b) simp
qed

text \<open>C20. Comparing two amounts field by field is comparing their values: on canonical amounts
  \<^const>\<open>iou_less\<close> is the order of the numbers they stand for, and two canonical amounts with
  the same value are the same amount.\<close>

theorem iou_less_is_value_order:
  assumes "canonical a" and "canonical b"
  shows "(iou_less a b \<longleftrightarrow> iou_val a < iou_val b) \<and> (iou_val a = iou_val b \<longrightarrow> a = b)"
  using iou_less_iff [OF assms] iou_val_inject [OF assms] by blast

theorem iou_less_is_value_order_witness:
  "iou_less \<lparr>mantissa = 9999999999999999, exponent = 2\<rparr> \<lparr>mantissa = 1000000000000000, exponent = 3\<rparr>
   \<and> iou_val \<lparr>mantissa = 9999999999999999, exponent = 2\<rparr>
     < iou_val \<lparr>mantissa = 1000000000000000, exponent = 3\<rparr>"
proof -
  let ?a = "\<lparr>mantissa = 9999999999999999, exponent = 2\<rparr>"
  let ?b = "\<lparr>mantissa = 1000000000000000, exponent = 3\<rparr>"
  have "canonical ?a" "canonical ?b"
    by (simp_all add: canonical_def canonical_nonzero_def iou_consts)
  from iou_less_is_value_order [OF this] show ?thesis by (simp add: iou_less_def)
qed

section \<open>Addition\<close>

lemma align_done: "target \<le> e \<Longrightarrow> align m e target = (m, e)"
  by (simp add: align.simps)

lemma dec_sdiv10: "\<bar>dec (m sdiv 10) (e + 1) - dec m e\<bar> \<le> dec 9 e" for m e
proof -
  have "\<bar>(m sdiv 10) * 10 - m\<bar> \<le> 9"
  proof (cases "0 \<le> m")
    case True
    then show ?thesis by (simp add: minus_mod_eq_div_mult [symmetric])
  next
    case False
    then show ?thesis by (simp add: sdiv_neg_small minus_mod_eq_div_mult [symmetric])
  qed
  then have "dec \<bar>(m sdiv 10) * 10 - m\<bar> e \<le> dec 9 e" by simp
  moreover have "dec \<bar>(m sdiv 10) * 10 - m\<bar> e = \<bar>dec (m sdiv 10 * 10) e - dec m e\<bar>"
    by (simp add: dec_def abs_mult left_diff_distrib [symmetric])
  ultimately show ?thesis by (simp add: dec_times_10)
qed

lemma align_spec:
  assumes "e \<le> target" and "align m e target = (m', e')"
  shows "e' = target \<and> \<bar>dec m' target - dec m e\<bar> \<le> dec 1 target - dec 1 e"
  using assms
proof (induction m e target rule: align.induct)
  case (1 m e target)
  show ?case
  proof (cases "e < target")
    case True
    with "1.prems" have "align (m sdiv 10) (e + 1) target = (m', e')"
      by (simp add: align.simps [of m e])
    with "1.IH" [OF True] True
    have "e' = target" "\<bar>dec m' target - dec (m sdiv 10) (e + 1)\<bar> \<le> dec 1 target - dec 1 (e + 1)"
      by simp_all
    moreover have "dec 1 (e + 1) = dec 9 e + dec 1 e"
      using dec_times_10 [of 1 e] dec_add [of 9 1 e] by simp
    ultimately show ?thesis using dec_sdiv10 [of m e] by linarith
  next
    case False
    with "1.prems" show ?thesis by (simp add: align_done)
  qed
qed

text \<open>The aligned sum of two non-zero amounts, at the larger of the two exponents.\<close>

definition aligned_sum :: "iou \<Rightarrow> iou \<Rightarrow> int" where
  "aligned_sum a b =
     (let e = max (exponent a) (exponent b)
      in fst (align (mantissa a) (exponent a) e) + fst (align (mantissa b) (exponent b) e))"

lemma aligned_sum_commute: "aligned_sum a b = aligned_sum b a"
  by (simp add: aligned_sum_def max.commute add.commute Let_def)

lemma iou_add_aligned:
  assumes "a \<noteq> iou_zero" and "b \<noteq> iou_zero"
  shows "iou_add a b =
    (if - 10 \<le> aligned_sum a b \<and> aligned_sum a b \<le> 10 then Inr iou_zero
     else normalize (aligned_sum a b) (max (exponent a) (exponent b)))"
proof (cases "exponent a \<le> exponent b")
  case True
  obtain m e where al: "align (mantissa a) (exponent a) (exponent b) = (m, e)"
    by (cases "align (mantissa a) (exponent a) (exponent b)")
  then have "e = exponent b" using align_spec [OF True al] by simp
  then show ?thesis
    using assms al True by (simp add: iou_add_def aligned_sum_def align_done max_def Let_def)
next
  case False
  obtain m e where al: "align (mantissa b) (exponent b) (exponent a) = (m, e)"
    by (cases "align (mantissa b) (exponent b) (exponent a)")
  then show ?thesis
    using assms al False by (simp add: iou_add_def aligned_sum_def align_done max_def Let_def)
qed

lemma iou_add_commute: "iou_add a b = iou_add b a"
proof (cases "a = iou_zero \<or> b = iou_zero")
  case True
  then show ?thesis by (auto simp: iou_add_def)
next
  case False
  then show ?thesis by (simp add: iou_add_aligned aligned_sum_commute max.commute)
qed

lemma aligned_sum_error:
  "\<bar>dec (aligned_sum a b) (max (exponent a) (exponent b)) - (iou_val a + iou_val b)\<bar>
     < dec 1 (max (exponent a) (exponent b))"
proof -
  let ?e = "max (exponent a) (exponent b)"
  obtain ma ea where a: "align (mantissa a) (exponent a) ?e = (ma, ea)"
    by (cases "align (mantissa a) (exponent a) ?e")
  obtain mb eb where b: "align (mantissa b) (exponent b) ?e = (mb, eb)"
    by (cases "align (mantissa b) (exponent b) ?e")
  have "\<bar>dec ma ?e - iou_val a\<bar> \<le> dec 1 ?e - dec 1 (exponent a)"
    "\<bar>dec mb ?e - iou_val b\<bar> \<le> dec 1 ?e - dec 1 (exponent b)"
    using align_spec [OF _ a] align_spec [OF _ b] by (simp_all add: iou_val_def)
  moreover have "dec (aligned_sum a b) ?e = dec ma ?e + dec mb ?e"
    using a b by (simp add: aligned_sum_def dec_add)
  moreover have "dec 1 (exponent a) = dec 1 ?e \<or> dec 1 (exponent b) = dec 1 ?e"
    by (simp add: max_def)
  moreover have "0 < dec 1 (exponent a)" "0 < dec 1 (exponent b)" by simp_all
  ultimately show ?thesis by linarith
qed

text \<open>Normalising loses less than one unit of the last place of its result.\<close>

lemma normalize_error:
  assumes "normalize m e = Inr r" and "r \<noteq> iou_zero"
  shows "\<bar>iou_val r - dec m e\<bar> < dec 1 (exponent r)"
proof -
  have r: "sgn (mantissa r) = sgn m" "dec \<bar>mantissa r\<bar> (exponent r) \<le> dec \<bar>m\<bar> e"
      "dec \<bar>m\<bar> e < dec \<bar>mantissa r\<bar> (exponent r) + dec 1 (exponent r)"
    using normalize_spec [of m e] assms by (auto simp: normalizes_to_def dec_add)
  show ?thesis
  proof (cases "0 \<le> m")
    case True
    with r(1) have "0 \<le> mantissa r" by (auto simp: sgn_if split: if_splits)
    with True r show ?thesis by (simp add: iou_val_def)
  next
    case False
    with r(1) have "mantissa r < 0" by (auto simp: sgn_if split: if_splits)
    with False r show ?thesis by (simp add: iou_val_def dec_uminus)
  qed
qed

lemma aligned_mantissa_bound:
  assumes "e \<le> target" and "\<bar>m\<bar> \<le> maxMantissa" and "align m e target = (m', e')"
  shows "\<bar>m'\<bar> \<le> maxMantissa"
  using assms
proof (induction m e target rule: align.induct)
  case (1 m e target)
  have small: "\<bar>m sdiv 10\<bar> \<le> maxMantissa"
    using "1.prems"(2) by (cases "0 \<le> m") (simp_all add: sdiv_neg_small iou_consts abs_le_iff)
  show ?case
  proof (cases "e < target")
    case True
    with "1.prems" have "align (m sdiv 10) (e + 1) target = (m', e')"
      by (simp add: align.simps [of m e])
    with "1.IH" [OF True _ small] True show ?thesis by simp
  next
    case False
    with "1.prems" show ?thesis by (simp add: align_done)
  qed
qed

lemma aligned_sum_bound:
  assumes "canonical_nonzero a" and "canonical_nonzero b"
  shows "\<bar>aligned_sum a b\<bar> \<le> 2 * maxMantissa"
proof -
  let ?e = "max (exponent a) (exponent b)"
  obtain ma ea where a: "align (mantissa a) (exponent a) ?e = (ma, ea)"
    by (cases "align (mantissa a) (exponent a) ?e")
  obtain mb eb where b: "align (mantissa b) (exponent b) ?e = (mb, eb)"
    by (cases "align (mantissa b) (exponent b) ?e")
  have "\<bar>ma\<bar> \<le> maxMantissa" "\<bar>mb\<bar> \<le> maxMantissa"
    using assms aligned_mantissa_bound [OF _ _ a] aligned_mantissa_bound [OF _ _ b]
    by (simp_all add: canonical_nonzero_def)
  then show ?thesis using a b by (simp add: aligned_sum_def)
qed

text \<open>A sum of two mantissas moves the exponent up by at most one.\<close>

lemma normalize_last_place:
  assumes "normalize m e = Inr r" and "r \<noteq> iou_zero" and "\<bar>m\<bar> \<le> 2 * maxMantissa"
  shows "dec 1 (exponent r) \<le> dec 10 e"
proof -
  have "canonical_nonzero r" "dec \<bar>mantissa r\<bar> (exponent r) \<le> dec \<bar>m\<bar> e"
    using normalize_spec [of m e] assms by (auto simp: normalizes_to_def)
  then have "dec minMantissa (exponent r) \<le> dec \<bar>m\<bar> e"
    by (auto simp: canonical_nonzero_def intro: order.trans [rotated])
  also have "\<dots> < dec (10 ^ 17) e" using assms(3) by (simp add: iou_consts)
  also have "\<dots> = dec (10 ^ 15) (e + 2)" using dec_shift [of "10 ^ 15" 2 e] by simp
  finally have "\<not> e + 2 \<le> exponent r"
    using dec_mono [of "10 ^ 15" "10 ^ 15" "e + 2" "exponent r"] by (auto simp: minMantissa_def)
  then have "dec 1 (exponent r) \<le> dec 1 (e + 1)" by (intro dec_mono_exp) simp_all
  then show ?thesis using dec_times_10 [of 1 e] by simp
qed

lemma iou_add_error:
  assumes "canonical_nonzero a" and "canonical_nonzero b" and "iou_add a b = Inr r"
  defines "e \<equiv> max (exponent a) (exponent b)"
  shows "\<bar>iou_val r - (iou_val a + iou_val b)\<bar> < dec 11 e + (if r = iou_zero then dec 1 (- 81) else 0)"
proof -
  note sum = aligned_sum_error [of a b, folded e_def]
  have nz: "a \<noteq> iou_zero" "b \<noteq> iou_zero" using assms(1,2) by auto
  note add = iou_add_aligned [OF nz, folded e_def]
  have units: "dec 11 e = dec 10 e + dec 1 e" using dec_add [of 10 1 e] by simp
  have tiny: "0 < dec 1 (- 81)" by simp
  show ?thesis
  proof (cases "- 10 \<le> aligned_sum a b \<and> aligned_sum a b \<le> 10")
    case True
    then have "\<bar>dec (aligned_sum a b) e\<bar> \<le> dec 10 e"
      by (simp add: abs_le_iff dec_uminus [symmetric])
    moreover have "r = iou_zero" using True add assms(3) by simp
    moreover from this have "iou_val r = 0" by (simp add: iou_val_def iou_zero_def)
    ultimately show ?thesis using sum units tiny unfolding if_P [OF \<open>r = iou_zero\<close>] by linarith
  next
    case False
    with add assms(3) have n: "normalize (aligned_sum a b) e = Inr r" by simp
    show ?thesis
    proof (cases "r = iou_zero")
      case True
      with n have "dec \<bar>aligned_sum a b\<bar> e < dec 1 (- 81)"
        using normalize_spec [of "aligned_sum a b" e] by (auto simp: normalizes_to_def)
      then have "\<bar>dec (aligned_sum a b) e\<bar> < dec 1 (- 81)" by (simp add: dec_def abs_mult)
      moreover have "0 < dec 10 e" by simp
      moreover from True have "iou_val r = 0" by (simp add: iou_val_def iou_zero_def)
      ultimately show ?thesis using sum units unfolding if_P [OF True] by linarith
    next
      case f: False
      have "dec 1 (exponent r) \<le> dec 10 e"
        using n f aligned_sum_bound [OF assms(1,2)] by (rule normalize_last_place)
      then show ?thesis
        using normalize_error [OF n f] sum units unfolding if_not_P [OF f] by linarith
    qed
  qed
qed

lemma iou_neg_canonical: "canonical a \<Longrightarrow> iou_neg a = Inr (if a = iou_zero then a else a\<lparr>mantissa := - mantissa a\<rparr>)"
  by (auto simp: iou_neg_def IOUAmount_def canonical_def canonical_nonzero_def iou_zero_def normalize_def
      scale_up.simps scale_down.simps iou_consts abs_if split: if_splits)

text \<open>C10. Addition of canonical amounts: it does not depend on the order of its arguments, a
  result is canonical again and off by less than eleven units of the larger exponent (a result
  of zero also absorbs everything below the smallest amount), it only throws when the exact sum
  is within one unit of \<open>10 ^ 96\<close> or beyond, zero is neutral, and subtracting an amount from
  itself gives exactly zero.\<close>

theorem iou_add_correct:
  assumes "canonical_nonzero a" and "canonical_nonzero b"
  shows "iou_add a b = iou_add b a
    \<and> (case iou_add a b of
         Inr r \<Rightarrow> canonical r \<and>
           \<bar>iou_val r - (iou_val a + iou_val b)\<bar>
             < dec 11 (max (exponent a) (exponent b)) + (if r = iou_zero then dec 1 (- 81) else 0)
       | Inl err \<Rightarrow> err = OverflowError \<and>
           dec 1 96 - dec 1 (max (exponent a) (exponent b)) < \<bar>iou_val a + iou_val b\<bar>)
    \<and> iou_add a iou_zero = Inr a \<and> iou_sub a a = Inr iou_zero"
proof -
  let ?e = "max (exponent a) (exponent b)"
  have nz: "a \<noteq> iou_zero" "b \<noteq> iou_zero" using assms by auto
  note add = iou_add_aligned [OF nz]
  have "case iou_add a b of
         Inr r \<Rightarrow> canonical r \<and>
           \<bar>iou_val r - (iou_val a + iou_val b)\<bar>
             < dec 11 (max (exponent a) (exponent b)) + (if r = iou_zero then dec 1 (- 81) else 0)
       | Inl err \<Rightarrow> err = OverflowError \<and>
           dec 1 96 - dec 1 (max (exponent a) (exponent b)) < \<bar>iou_val a + iou_val b\<bar>"
  proof (cases "iou_add a b")
    case (Inl err)
    with add have "normalize (aligned_sum a b) ?e = Inl err"
      by (cases "- 10 \<le> aligned_sum a b \<and> aligned_sum a b \<le> 10") simp_all
    from normalize_OverflowError [OF this] have "err = OverflowError"
      "dec 1 96 \<le> \<bar>dec (aligned_sum a b) ?e\<bar>" by (simp_all add: dec_def abs_mult)
    with Inl aligned_sum_error [of a b] show ?thesis by simp
  next
    case (Inr r)
    then have "canonical r"
      using add normalize_canonical by (auto simp: canonical_def split: if_splits)
    with Inr iou_add_error [OF assms Inr] show ?thesis by simp
  qed
  moreover have "iou_sub a a = Inr iou_zero"
  proof -
    let ?n = "a\<lparr>mantissa := - mantissa a\<rparr>"
    have "canonical a" using assms(1) by (simp add: canonical_def)
    from iou_neg_canonical [OF this] nz(1) have "iou_neg a = Inr ?n" by simp
    moreover have "?n \<noteq> iou_zero" using canonical_nonzero_not_0 [OF assms(1)]
      by (cases a) (simp add: iou_zero_def)
    then have "iou_add a ?n = Inr iou_zero"
      using nz(1) by (simp add: iou_add_def align_done)
    ultimately show ?thesis by (simp add: iou_sub_def)
  qed
  ultimately show ?thesis using iou_add_commute [of a b] by (simp add: iou_add_def)
qed

theorem iou_add_correct_witness:
  "let a = \<lparr>mantissa = 9000000000000000, exponent = - 15\<rparr>;
       b = \<lparr>mantissa = 1500000000000007, exponent = - 15\<rparr>
   in iou_add a b = Inr \<lparr>mantissa = 1050000000000000, exponent = - 14\<rparr>
      \<and> iou_add b a = Inr \<lparr>mantissa = 1050000000000000, exponent = - 14\<rparr>"
proof -
  let ?a = "\<lparr>mantissa = 9000000000000000, exponent = - 15\<rparr>"
  let ?b = "\<lparr>mantissa = 1500000000000007, exponent = - 15\<rparr>"
  have "canonical_nonzero ?a" "canonical_nonzero ?b"
    by (simp_all add: canonical_nonzero_def iou_consts)
  from iou_add_correct [OF this] have "iou_add ?a ?b = iou_add ?b ?a" by blast
  moreover have "iou_add ?a ?b = Inr \<lparr>mantissa = 1050000000000000, exponent = - 14\<rparr>"
    by (simp add: iou_add_def iou_zero_def align_done normalize_def scale_up.simps scale_down.simps
        iou_consts)
  ultimately show ?thesis by (simp add: Let_def)
qed

end
