(* ===== verification/IOU_MulRatio.thy ===== *)
theory IOU_MulRatio
  imports IOUAmount
begin

text \<open>
  Properties of \<^verbatim>\<open>mulRatio\<close> (\<^verbatim>\<open>basics/impl/IOUAmount.cpp\<close>), which multiplies an amount by a ratio of two
  32-bit integers: the 128-bit arithmetic does not overflow, the result is within one unit of the
  last place of the exact product, and where the requested rounding direction is not honoured.
\<close>

section \<open>Logarithms in the table of powers\<close>

lemma length_powerTable [simp]: "length powerTable = 30"
  by (simp add: powerTable_def)

lemma powerTable_nth [simp]: "i < 30 \<Longrightarrow> powerTable ! i = 10 ^ i"
  by (simp add: powerTable_def)

lemma log10Ceil_spec:
  assumes "v \<le> 10 ^ 29"
  obtains c where "log10Ceil v = int c" and "c \<le> 29" and "v \<le> 10 ^ c"
    and "c = 0 \<or> 10 ^ (c - 1) < v"
proof -
  let ?P = "\<lambda>x. x < v"
  define c where "c = length (takeWhile ?P powerTable)"
  have "powerTable ! 29 = 10 ^ 29" by simp
  then have "29 \<notin> {i. i < 30 \<and> ?P (powerTable ! i)}" using assms by simp
  have below: "?P (10 ^ i)" if "i < c" for i
  proof -
    have "i < 30" using that length_takeWhile_le [of ?P powerTable] by (simp add: c_def)
    have "takeWhile ?P powerTable ! i \<in> set (takeWhile ?P powerTable)"
      using that by (simp add: c_def)
    then have "?P (takeWhile ?P powerTable ! i)" by (rule set_takeWhileD [THEN conjunct2])
    then show ?thesis
      using that \<open>i < 30\<close> by (simp add: takeWhile_nth c_def)
  qed
  have c29: "c \<le> 29"
  proof (rule ccontr)
    assume "\<not> c \<le> 29"
    then have "?P (10 ^ 29)" by (intro below) simp
    with assms show False by simp
  qed
  then have "\<not> ?P (powerTable ! c)"
    using nth_length_takeWhile [of ?P powerTable] by (simp add: c_def)
  then have "v \<le> 10 ^ c" using c29 by simp
  moreover have "c = 0 \<or> 10 ^ (c - 1) < v" using below [of "c - 1"] by (cases c) auto
  moreover have "log10Ceil v = int c" by (simp add: log10Ceil_def c_def)
  ultimately show ?thesis using c29 that by blast
qed

lemma powerTable_list:
  "powerTable = [1, 10, 10 ^ 2, 10 ^ 3, 10 ^ 4, 10 ^ 5, 10 ^ 6, 10 ^ 7, 10 ^ 8, 10 ^ 9,
     10 ^ 10, 10 ^ 11, 10 ^ 12, 10 ^ 13, 10 ^ 14, 10 ^ 15, 10 ^ 16, 10 ^ 17, 10 ^ 18, 10 ^ 19,
     10 ^ 20, 10 ^ 21, 10 ^ 22, 10 ^ 23, 10 ^ 24, 10 ^ 25, 10 ^ 26, 10 ^ 27, 10 ^ 28, 10 ^ 29]"
  by (simp add: powerTable_def upt_rec)

lemma fl64 [simp]: "fl64 = 18"
  by (simp add: fl64_def log10Floor_def log10Ceil_def Let_def powerTable_list)

section \<open>The scaled quotient\<close>

text \<open>
  \<open>rep x low rem den ex\<close>: the pending result stands for the exact value \<open>x\<close>, the mantissa \<open>low\<close>
  plus the fraction \<open>rem / den\<close>, at exponent \<open>ex\<close>.
\<close>

definition rep :: "real \<Rightarrow> int \<Rightarrow> int \<Rightarrow> int \<Rightarrow> int \<Rightarrow> bool" where
  "rep x low rem den ex \<longleftrightarrow>
     0 \<le> low \<and> 0 \<le> rem \<and> rem < den \<and> x = (of_int low + of_int rem / of_int den) * 10 powi ex"

lemma rep_bounds:
  assumes "rep x low rem den ex"
  shows "dec low ex \<le> x" and "x < dec (low + 1) ex" and "dec low ex = x \<longleftrightarrow> rem = 0"
proof -
  have d: "0 < den" "0 \<le> rem" "rem < den" using assms by (simp_all add: rep_def)
  let ?q = "of_int rem / of_int den :: real"
  have q: "0 \<le> ?q" "?q < 1" "?q = 0 \<longleftrightarrow> rem = 0" using d by simp_all
  have x: "x = dec low ex + ?q * 10 powi ex"
    using assms by (simp add: rep_def dec_def algebra_simps)
  have p: "0 < (10::real) powi ex" by simp
  then have "0 \<le> ?q * 10 powi ex" using q by (intro mult_nonneg_nonneg) simp_all
  then show "dec low ex \<le> x" using x by linarith
  have "?q * 10 powi ex < 1 * 10 powi ex" using q(2) p by (rule mult_strict_right_mono)
  moreover have "dec (low + 1) ex = dec low ex + 1 * 10 powi ex" by (simp add: dec_add) (simp add: dec_def)
  ultimately show "x < dec (low + 1) ex" using x by linarith
  show "dec low ex = x \<longleftrightarrow> rem = 0" using x q(3) p by simp
qed

lemma rep_initial:
  assumes "0 \<le> m" and "0 < den" and "0 \<le> num"
  shows "rep (dec m ex * of_int num / of_int den) (m * num div den) (m * num - m * num div den * den) den ex"
proof -
  let ?low = "m * num div den" and ?rem = "m * num - m * num div den * den"
  have rem: "?rem = m * num mod den" by (simp add: minus_div_mult_eq_mod)
  have "of_int (m * num) = (of_int (?low * den + ?rem) :: real)" by simp
  then have "of_int m * of_int num / of_int den = (of_int ?low + of_int ?rem / of_int den :: real)"
    using assms(2) by (simp add: field_simps)
  moreover have "dec m ex * of_int num / of_int den = of_int m * of_int num / of_int den * 10 powi ex"
    by (simp add: dec_def)
  ultimately have "dec m ex * of_int num / of_int den
      = (of_int ?low + of_int ?rem / of_int den) * 10 powi ex" by (simp only:)
  moreover have "0 \<le> ?rem" "?rem < den" using assms rem by simp_all
  moreover have "0 \<le> ?low" using assms by (simp add: pos_imp_zdiv_nonneg_iff)
  ultimately show ?thesis by (simp add: rep_def)
qed

lemma rep_grow_step:
  assumes "rep x low rem den ex"
  shows "rep x (low * 10 ^ k + rem * 10 ^ k div den) (rem * 10 ^ k - rem * 10 ^ k div den * den) den
           (ex - int k)"
proof -
  have d: "0 < den" "0 \<le> rem" "0 \<le> low" using assms by (simp_all add: rep_def)
  let ?r = "rem * 10 ^ k"
  have "of_int ?r / of_int den = (of_int (?r div den) + of_int (?r - ?r div den * den) / of_int den :: real)"
    using d by (simp add: field_simps)
  then have eq: "(of_int (low * 10 ^ k) + of_int ?r / of_int den) * 10 powi (ex - int k)
     = (of_int (low * 10 ^ k + ?r div den) + of_int (?r - ?r div den * den) / of_int den)
       * (10 powi (ex - int k) :: real)"
    by (simp only: of_int_add add.assoc)
  have "(of_int (low * 10 ^ k) + of_int ?r / of_int den) * 10 powi (ex - int k)
     = (of_int low + of_int rem / of_int den) * (10 powi ex :: real)"
    by (simp add: power_int_diff field_simps)
  with assms have "x = (of_int (low * 10 ^ k + ?r div den) + of_int (?r - ?r div den * den) / of_int den)
       * (10 powi (ex - int k) :: real)"
    unfolding eq by (simp only: rep_def)
  moreover have "?r - ?r div den * den = ?r mod den" by (simp add: minus_div_mult_eq_mod)
  ultimately show ?thesis
    unfolding rep_def using d by (simp add: pos_imp_zdiv_nonneg_iff)
qed

lemma mulRatio_grow_spec:
  assumes r: "rep x low rem den ex" and big: "low \<le> 10 ^ 29"
    and res: "mulRatio_grow low rem den ex = (low1, rem1, ex1)"
  shows "rep x low1 rem1 den ex1" and "low1 \<le> max low (2 * 10 ^ 18)"
    and "rem \<noteq> 0 \<Longrightarrow> 0 < low \<Longrightarrow> 10 ^ 17 \<le> low1" and "rem = 0 \<Longrightarrow> rem1 = 0"
proof -
  have d: "0 < den" "0 \<le> rem" "rem < den" "0 \<le> low" using r by (simp_all add: rep_def)
  have "rep x low1 rem1 den ex1 \<and> low1 \<le> max low (2 * 10 ^ 18)
      \<and> (rem \<noteq> 0 \<longrightarrow> 0 < low \<longrightarrow> 10 ^ 17 \<le> low1) \<and> (rem = 0 \<longrightarrow> rem1 = 0)"
  proof (cases "rem = 0")
    case True
    with res r show ?thesis by (simp add: mulRatio_grow_def)
  next
    case False
    obtain c where c: "log10Ceil low = int c" "c \<le> 29" "low \<le> 10 ^ c" "c = 0 \<or> 10 ^ (c - 1) < low"
      using log10Ceil_spec [OF big] .
    show ?thesis
    proof (cases "c < 18")
      case True
      let ?k = "18 - c"
      have k: "nat (18 - int c) = ?k" using True by simp
      have res': "low1 = low * 10 ^ ?k + rem * 10 ^ ?k div den"
          "rem1 = rem * 10 ^ ?k - rem * 10 ^ ?k div den * den" "ex1 = ex - int ?k"
        using res False True c(1) k by (simp_all add: mulRatio_grow_def Let_def)
      have up: "low * 10 ^ ?k \<le> 10 ^ 18"
      proof -
        have "low * 10 ^ ?k \<le> 10 ^ c * 10 ^ ?k" using c(3) by (intro mult_right_mono) simp_all
        also have "\<dots> = 10 ^ 18" using True by (simp add: power_add [symmetric])
        finally show ?thesis .
      qed
      have "rem * 10 ^ ?k \<le> den * 10 ^ 18"
        using d by (intro mult_mono power_increasing) simp_all
      then have add: "rem * 10 ^ ?k div den \<le> 10 ^ 18"
        using d zdiv_mono1 [of "rem * 10 ^ ?k" "den * 10 ^ 18" den] by simp
      have lo: "10 ^ 17 \<le> low * 10 ^ ?k" if "0 < low"
      proof (cases c)
        case 0
        with that show ?thesis by simp
      next
        case (Suc c')
        with c(4) have "10 ^ c' * 10 ^ ?k \<le> low * 10 ^ ?k" by (intro mult_right_mono) simp_all
        then show ?thesis using True Suc by (simp add: power_add [symmetric])
      qed
      have "0 \<le> rem * 10 ^ ?k div den" using d by (simp add: pos_imp_zdiv_nonneg_iff)
      then show ?thesis
        using rep_grow_step [OF r, of ?k] up add lo False by (auto simp: res')
    next
      case f: False
      have res': "low1 = low" "rem1 = rem" "ex1 = ex"
        using res False f c(1) d by (simp_all add: mulRatio_grow_def Let_def)
      have "(10::int) ^ 17 \<le> 10 ^ (c - 1)" using f by (intro power_increasing) simp_all
      then show ?thesis using r c(4) f False by (auto simp: res')
    qed
  qed
  then show "rep x low1 rem1 den ex1" and "low1 \<le> max low (2 * 10 ^ 18)"
    and "rem \<noteq> 0 \<Longrightarrow> 0 < low \<Longrightarrow> 10 ^ 17 \<le> low1" and "rem = 0 \<Longrightarrow> rem1 = 0" by blast+
qed

text \<open>\<open>trunc x low ex h\<close>: \<open>low\<close> is \<open>x\<close> truncated at exponent \<open>ex\<close>, and \<open>h\<close> tells whether that lost something.\<close>

definition trunc :: "real \<Rightarrow> int \<Rightarrow> int \<Rightarrow> bool \<Rightarrow> bool" where
  "trunc x low ex h \<longleftrightarrow> dec low ex \<le> x \<and> x < dec (low + 1) ex \<and> (h \<longleftrightarrow> dec low ex \<noteq> x)"

lemma rep_trunc: "rep x low rem den ex \<Longrightarrow> trunc x low ex (rem \<noteq> 0)"
  using rep_bounds [of x low rem den ex] by (simp add: trunc_def)

lemma trunc_drop_digits:
  assumes "trunc x low ex h" and "0 \<le> low"
  shows "trunc x (low div 10 ^ k) (ex + int k) (h \<or> low - low div 10 ^ k * 10 ^ k \<noteq> 0)"
proof -
  let ?l = "low div 10 ^ k"
  have p: "(0::int) < 10 ^ k" by simp
  have m: "low = ?l * 10 ^ k + low mod 10 ^ k" by (rule div_mult_mod_eq [symmetric])
  define A B C D where "A = dec ?l (ex + int k)" and "B = dec low ex" and "C = dec (low + 1) ex"
    and "D = dec (?l + 1) (ex + int k)"
  have A: "A = dec (?l * 10 ^ k) ex" by (simp add: dec_shift A_def)
  have "A \<le> B"
    unfolding A B_def dec_le_iff using m pos_mod_sign [OF p, of low] by linarith
  moreover have "C \<le> D"
    unfolding C_def D_def dec_shift [symmetric] dec_le_iff distrib_right
    using m pos_mod_bound [OF p, of low] by linarith
  moreover have "A = B \<longleftrightarrow> low - ?l * 10 ^ k = 0"
    unfolding A B_def dec_eq_iff by auto
  moreover have "B \<le> x" "x < C" "h \<longleftrightarrow> B \<noteq> x" using assms(1) by (simp_all add: trunc_def B_def C_def)
  ultimately show ?thesis unfolding trunc_def A_def [symmetric] D_def [symmetric] by auto
qed

lemma mulRatio_shrink_spec:
  assumes r: "rep x low rem den ex" and big: "low \<le> 10 ^ 29"
    and res: "mulRatio_shrink low rem ex = (low2, ex2, h)"
  shows "trunc x low2 ex2 h" and "0 \<le> low2" and "low2 \<le> 10 ^ 18"
    and "10 ^ 17 \<le> low \<Longrightarrow> 10 ^ 17 \<le> low2"
    and "low \<le> 10 ^ 18 \<Longrightarrow> low2 = low \<and> h = (rem \<noteq> 0)"
proof -
  have low: "0 \<le> low" using r by (simp add: rep_def)
  obtain c where c: "log10Ceil low = int c" "c \<le> 29" "low \<le> 10 ^ c" "c = 0 \<or> 10 ^ (c - 1) < low"
    using log10Ceil_spec [OF big] .
  have "trunc x low2 ex2 h \<and> 0 \<le> low2 \<and> low2 \<le> 10 ^ 18 \<and> (10 ^ 17 \<le> low \<longrightarrow> 10 ^ 17 \<le> low2)
    \<and> (low \<le> 10 ^ 18 \<longrightarrow> low2 = low \<and> h = (rem \<noteq> 0))"
  proof (cases "18 < c")
    case True
    let ?k = "c - 18"
    have k: "nat (int c - 18) = ?k" using True by simp
    have res': "low2 = low div 10 ^ ?k" "ex2 = ex + int ?k"
        "h = (rem \<noteq> 0 \<or> low - low2 * 10 ^ ?k \<noteq> 0)"
      using res True c(1,2) k by (auto simp: mulRatio_shrink_def Let_def)
    have "low \<le> 10 ^ 18 * 10 ^ ?k" using c(3) True power_add [of "10::int" 18 ?k] by simp
    then have "low2 \<le> 10 ^ 18"
      using zdiv_mono1 [of low "10 ^ 18 * 10 ^ ?k" "10 ^ ?k"] by (simp add: res')
    moreover have "10 ^ 17 * 10 ^ ?k \<le> low"
    proof -
      have "(10::int) ^ 17 * 10 ^ ?k = 10 ^ (c - 1)"
        using True power_add [of "10::int" 17 ?k] by simp
      then show ?thesis using c(4) True by simp
    qed
    then have "10 ^ 17 \<le> low2"
      using zdiv_mono1 [of "10 ^ 17 * 10 ^ ?k" low "10 ^ ?k"] by (simp add: res')
    moreover have "\<not> low \<le> 10 ^ 18"
    proof -
      have "(10::int) ^ 18 \<le> 10 ^ (c - 1)" using True by (intro power_increasing) simp_all
      then show ?thesis using c(4) True by simp
    qed
    ultimately show ?thesis
      using trunc_drop_digits [OF rep_trunc [OF r] low, of ?k] by (simp add: res')
  next
    case False
    then have res': "low2 = low" "ex2 = ex" "h = (rem \<noteq> 0)"
      using res c(1) by (simp_all add: mulRatio_shrink_def Let_def)
    have "(10::int) ^ c \<le> 10 ^ 18" using False by (intro power_increasing) simp_all
    then show ?thesis using rep_trunc [OF r] low c(3) by (simp add: res')
  qed
  then show "trunc x low2 ex2 h" and "0 \<le> low2" and "low2 \<le> 10 ^ 18"
    and "10 ^ 17 \<le> low \<Longrightarrow> 10 ^ 17 \<le> low2"
    and "low \<le> 10 ^ 18 \<Longrightarrow> low2 = low \<and> h = (rem \<noteq> 0)" by blast+
qed

lemma uint_u32_bound: "0 \<le> uint (w::u32)" "uint (w::u32) < 2 ^ 32"
  using uint_lt2p [of w] by simp_all

lemma quotient_bounds:
  assumes "0 \<le> m" and "m < 2 ^ 63" and "(den::u32) \<noteq> 0"
  shows "0 \<le> m * uint (num::u32) div uint den" and "m * uint num div uint den < 2 ^ 95"
proof -
  have d: "0 < uint den" using assms(3) uint_u32_bound(1) [of den] by (simp add: less_le uint_0_iff)
  have "0 \<le> m * uint num" using assms(1) by simp
  then show "0 \<le> m * uint num div uint den" using d by (simp only: pos_imp_zdiv_nonneg_iff)
  have "m * uint num \<le> m * 2 ^ 32" using assms(1) uint_u32_bound(2) [of num] by (intro mult_left_mono) simp_all
  then have "m * uint num < 2 ^ 95" using assms(2) by simp
  moreover have "m * uint num div uint den \<le> m * uint num"
    using d \<open>0 \<le> m * uint num\<close> zdiv_mono2 [of "m * uint num" 1 "uint den"] by simp
  ultimately show "m * uint num div uint den < 2 ^ 95" by simp
qed

lemma mulRatio_scaled_spec:
  assumes m: "0 \<le> m" "m < 2 ^ 63" and den: "den \<noteq> 0"
    and res: "mulRatio_scaled m ex num den = (low, ex', h)"
  shows "trunc (dec m ex * of_int (uint num) / of_int (uint den)) low ex' h"
    and "0 \<le> low" and "low \<le> 10 ^ 18" and "minMantissa \<le> m \<Longrightarrow> h \<Longrightarrow> minMantissa \<le> low"
proof -
  let ?x = "dec m ex * of_int (uint num) / of_int (uint den)"
  let ?low = "m * uint num div uint den"
  let ?rem = "m * uint num - ?low * uint den"
  have d: "0 < uint den" using den uint_u32_bound(1) [of den] by (simp add: less_le uint_0_iff)
  obtain low1 rem1 ex1 where g: "mulRatio_grow ?low ?rem (uint den) ex = (low1, rem1, ex1)"
    by (cases "mulRatio_grow ?low ?rem (uint den) ex")
  have sh: "mulRatio_shrink low1 rem1 ex1 = (low, ex', h)"
    using res g by (simp add: mulRatio_scaled_def Let_def)
  have r0: "rep ?x ?low ?rem (uint den) ex" by (rule rep_initial [OF m(1) d uint_u32_bound(1)])
  have b: "?low \<le> 10 ^ 29" using quotient_bounds(2) [OF m den, of num] by simp
  note G = mulRatio_grow_spec [OF r0 b g]
  have b1: "low1 \<le> 10 ^ 29" using G(2) b by simp
  note S = mulRatio_shrink_spec [OF G(1) b1 sh]
  show "trunc ?x low ex' h" "0 \<le> low" "low \<le> 10 ^ 18" using S by simp_all
  show "minMantissa \<le> low" if "minMantissa \<le> m" and h
  proof -
    have "10 ^ 17 \<le> low1"
    proof (cases "?rem = 0")
      case True
      then have "rem1 = 0" by (rule G(4))
      with \<open>h\<close> S(5) have "\<not> low1 \<le> 10 ^ 18" by auto
      then show ?thesis by simp
    next
      case False
      then have "uint num \<noteq> 0" by auto
      then have "1 \<le> uint num" using uint_u32_bound(1) [of num] by linarith
      then have "minMantissa * 1 \<le> m * uint num"
        using that(1) by (intro mult_mono) (simp_all add: minMantissa_def)
      moreover have "uint den \<le> minMantissa"
        using uint_u32_bound(2) [of den] by (simp add: minMantissa_def)
      ultimately have "uint den \<le> m * uint num" by simp
      then have "0 < ?low" using d by (simp add: pos_imp_zdiv_pos_iff)
      with False show ?thesis by (rule G(3))
    qed
    then show ?thesis using S(4) by (simp add: minMantissa_def)
  qed
qed

lemma dec_step_le:
  assumes "dec low ex < dec n e" and "ex \<le> e"
  shows "dec (low + 1) ex \<le> dec n e"
proof -
  obtain k where k: "e = ex + int k" using zle_iff_zadd [of ex e] assms(2) by auto
  have "dec low ex < dec (n * 10 ^ k) ex" unfolding dec_shift k [symmetric] by (rule assms(1))
  then have "dec (low + 1) ex \<le> dec (n * 10 ^ k) ex" unfolding dec_less_iff dec_le_iff by simp
  then show ?thesis unfolding dec_shift k [symmetric] .
qed

text \<open>Normalising the truncated quotient still brackets the exact value.\<close>

lemma normalize_trunc:
  assumes t: "trunc x low ex h" and low: "0 \<le> low" and h: "h \<Longrightarrow> minMantissa \<le> low"
    and n: "normalize low ex = Inr r" and nz: "r \<noteq> iou_zero"
  shows "canonical_nonzero r" and "0 < mantissa r"
    and "dec (mantissa r) (exponent r) \<le> x" and "x < dec (mantissa r + 1) (exponent r)"
proof -
  have c: "canonical_nonzero r" "sgn (mantissa r) = sgn low"
      "dec \<bar>mantissa r\<bar> (exponent r) \<le> dec low ex" "dec low ex < dec (\<bar>mantissa r\<bar> + 1) (exponent r)"
    using normalize_spec [of low ex] n nz low by (auto simp: normalizes_to_def)
  then show "canonical_nonzero r" by simp
  have "low \<noteq> 0" using n nz by (auto simp: normalize_def)
  with low c(2) show pos: "0 < mantissa r" by (simp add: sgn_if split: if_splits)
  show "dec (mantissa r) (exponent r) \<le> x" using c(3) t pos by (simp add: trunc_def)
  show "x < dec (mantissa r + 1) (exponent r)"
  proof (cases h)
    case False
    then show ?thesis using t c(4) pos by (simp add: trunc_def)
  next
    case True
    have "\<not> exponent r < ex"
    proof
      assume "exponent r < ex"
      then have "dec (10 ^ 15) (exponent r + 1) \<le> dec minMantissa ex"
        by (intro dec_mono) (simp_all add: minMantissa_def)
      then have "dec (10 ^ 16) (exponent r) \<le> dec minMantissa ex"
        unfolding dec_times_10 [symmetric] by simp
      also have "\<dots> \<le> dec low ex" using h [OF True] by simp
      also have "\<dots> < dec (mantissa r + 1) (exponent r)" using c(4) pos by simp
      finally have "10 ^ 16 < mantissa r + 1" by (simp only: dec_less_iff)
      then show False using c(1) pos by (simp add: canonical_nonzero_def maxMantissa_def)
    qed
    then have "dec (low + 1) ex \<le> dec (mantissa r + 1) (exponent r)"
      using dec_step_le [of low ex "mantissa r + 1" "exponent r"] c(4) pos by simp
    moreover have "x < dec (low + 1) ex" using t by (simp add: trunc_def)
    ultimately show ?thesis by linarith
  qed
qed

lemma normalize_trunc_zero:
  assumes t: "trunc x low ex h" and low: "0 \<le> low" and h: "h \<Longrightarrow> minMantissa \<le> low"
    and n: "normalize low ex = Inr iou_zero"
  shows "x < dec 1 (- 81)"
proof -
  have less: "dec low ex < dec (10 ^ 15) (- 96)"
    unfolding dec_1_m81 [symmetric] using normalize_spec [of low ex] n low by (simp add: normalizes_to_def)
  show ?thesis
  proof (cases h)
    case False
    then show ?thesis using t less by (simp add: trunc_def dec_1_m81)
  next
    case True
    have "\<not> - 96 < ex"
    proof
      assume "- 96 < ex"
      then have "dec (10 ^ 15) (- 96) \<le> dec low ex"
        using h [OF True] by (intro dec_mono) (simp_all add: minMantissa_def)
      with less show False by linarith
    qed
    then have "dec (low + 1) ex \<le> dec (10 ^ 15) (- 96)" by (intro dec_step_le less) simp
    moreover have "x < dec (low + 1) ex" using t by (simp add: trunc_def)
    ultimately show ?thesis unfolding dec_1_m81 by linarith
  qed
qed

section \<open>Rounding\<close>

text \<open>
  \<open>rounded x up res\<close>: \<open>res\<close> is an acceptable rounding of the exact, non-negative value \<open>x\<close>. An amount
  that is not zero is within one unit of its last place, apart from the least positive amount, which
  \<^verbatim>\<open>roundUp\<close> gives for everything too small to represent.
\<close>

definition rounded :: "real \<Rightarrow> bool \<Rightarrow> iou_error + iou \<Rightarrow> bool" where
  "rounded x up res \<longleftrightarrow>
     (case res of
        Inl err \<Rightarrow> err = OverflowError \<and> dec maxMantissa maxExponent \<le> x
      | Inr r \<Rightarrow>
          canonical r
          \<and> (r = iou_zero \<longrightarrow> x < dec 1 (- 81))
          \<and> (r \<noteq> iou_zero \<longrightarrow> \<bar>iou_val r - x\<bar> \<le> dec 1 (exponent r)
               \<or> up \<and> x < dec 1 (- 81) \<and> iou_val r = dec 1 (- 81))
          \<and> (\<not> up \<longrightarrow> iou_val r \<le> x))"

lemma dec_Suc: "dec (m + 1) e = dec m e + dec 1 e"
  by (rule dec_add)

lemma minPositiveAmount_eq [simp]:
  "minPositiveAmount = Inr \<lparr>mantissa = minMantissa, exponent = minExponent\<rparr>"
  by (simp add: minPositiveAmount_def IOUAmount_def normalize_def iou_consts scale_up.simps scale_down.simps)

lemma ratio_nonneg:
  assumes "0 \<le> (x::real)"
  shows "0 \<le> x * of_int (uint (num::u32)) / of_int (uint (den::u32))"
  by (intro divide_nonneg_nonneg mult_nonneg_nonneg assms) (simp_all only: of_int_0_le_iff uint_u32_bound)

lemma iou_val_nonneg: "0 < mantissa r \<Longrightarrow> 0 \<le> iou_val r"
  by (simp add: iou_val_def dec_def)

lemma iou_val_minPositive:
  "iou_val \<lparr>mantissa = minMantissa, exponent = minExponent\<rparr> = dec 1 (- 81)"
  by (simp add: iou_val_def minMantissa_def minExponent_def dec_1_m81)

lemma normalize_increment:
  assumes "canonical_nonzero r" and "0 < mantissa r"
    and "dec (mantissa r) (exponent r) \<le> x" and "x < dec (mantissa r + 1) (exponent r)"
  shows "rounded x True (normalize (mantissa r + 1) (exponent r))"
proof -
  let ?m = "mantissa r + 1" and ?e = "exponent r"
  have c: "minMantissa \<le> mantissa r" "mantissa r \<le> maxMantissa" "minExponent \<le> ?e" "?e \<le> maxExponent"
    using assms(1,2) by (simp_all add: canonical_nonzero_def)
  show ?thesis
  proof (cases "?m \<le> maxMantissa")
    case True
    then have "normalize ?m ?e = Inr \<lparr>mantissa = ?m, exponent = ?e\<rparr>"
      using c by (simp add: normalize_def scale_up.simps scale_down.simps iou_consts)
    then show ?thesis
      using True c assms(2-4) dec_Suc [of "mantissa r" ?e]
      by (simp add: rounded_def canonical_def canonical_nonzero_def iou_zero_def iou_val_def)
  next
    case False
    then have m: "?m = 10 * 10 ^ 15" using c by (simp add: maxMantissa_def)
    show ?thesis
    proof (cases "?e < maxExponent")
      case True
      then have n: "normalize ?m ?e = Inr \<lparr>mantissa = minMantissa, exponent = ?e + 1\<rparr>"
        unfolding m using c by (simp add: normalize_def scale_up.simps scale_down.simps iou_consts)
      have "dec minMantissa (?e + 1) = dec ?m ?e"
        unfolding dec_times_10 [symmetric] by (simp add: m minMantissa_def)
      moreover have "dec 1 ?e \<le> dec 1 (?e + 1)" by (intro dec_mono) simp_all
      ultimately have "\<bar>dec minMantissa (?e + 1) - x\<bar> \<le> dec 1 (?e + 1)"
        using assms(3,4) dec_Suc [of "mantissa r" ?e] by linarith
      then show ?thesis
        unfolding n using True c
        by (simp add: rounded_def canonical_def canonical_nonzero_def iou_zero_def iou_val_def iou_consts)
    next
      case f: False
      then have "normalize ?m ?e = Inl OverflowError"
        unfolding m using c by (simp add: normalize_def scale_up.simps scale_down.simps iou_consts)
      moreover have "?e = maxExponent" "mantissa r = maxMantissa" using c False f by simp_all
      ultimately show ?thesis using assms(3) by (simp add: rounded_def)
    qed
  qed
qed

lemma mulRatio_pos:
  assumes c: "canonical_nonzero amt" and pos: "0 < mantissa amt" and den: "den \<noteq> 0"
  shows "rounded (iou_val amt * of_int (uint num) / of_int (uint den)) up (mulRatio amt num den up)"
proof -
  let ?x = "iou_val amt * of_int (uint num) / of_int (uint den)"
  obtain low ex h where sc: "mulRatio_scaled (mantissa amt) (exponent amt) num den = (low, ex, h)"
    by (cases "mulRatio_scaled (mantissa amt) (exponent amt) num den")
  have m: "0 \<le> mantissa amt" "mantissa amt < 2 ^ 63" "minMantissa \<le> mantissa amt"
    using c pos by (simp_all add: canonical_nonzero_def iou_consts)
  note S = mulRatio_scaled_spec [OF m(1,2) den sc, folded iou_val_def]
  have t: "trunc ?x low ex h" and low: "0 \<le> low" and h: "h \<Longrightarrow> minMantissa \<le> low"
    using S m(3) by simp_all
  have eq: "mulRatio amt num den up =
      (case normalize low ex of Inl err \<Rightarrow> Inl err
       | Inr r \<Rightarrow> if h \<and> up then (if mantissa r = 0 then minPositiveAmount else normalize (mantissa r + 1) (exponent r))
                else Inr r)"
    using pos den sc by (simp add: mulRatio_def IOUAmount_def split: sum.split)
  show ?thesis
  proof (cases "normalize low ex")
    case (Inl err)
    have "dec maxMantissa maxExponent \<le> dec 1 96"
      unfolding dec_1_96 maxExponent_def dec_le_iff by (simp add: maxMantissa_def)
    moreover have "err = OverflowError \<and> dec 1 96 \<le> dec low ex"
      using normalize_OverflowError [OF Inl] low by simp
    ultimately show ?thesis using t Inl unfolding eq by (simp add: rounded_def trunc_def)
  next
    case (Inr r)
    show ?thesis
    proof (cases "r = iou_zero")
      case True
      note z = normalize_trunc_zero [OF t low h Inr [unfolded True]]
      have "0 \<le> ?x" by (intro ratio_nonneg iou_val_nonneg pos)
      then show ?thesis
        using z by (simp add: eq Inr True rounded_def canonical_def canonical_nonzero_def iou_zero_def
            iou_val_minPositive) (simp add: iou_val_def iou_consts)
    next
      case False
      note N = normalize_trunc [OF t low h Inr False]
      have "\<bar>iou_val r - ?x\<bar> \<le> dec 1 (exponent r)" "iou_val r \<le> ?x"
        using N(3,4) dec_Suc [of "mantissa r" "exponent r"] unfolding iou_val_def by linarith+
      then show ?thesis
        using normalize_increment [OF N] N(1,2) False
        by (simp add: eq Inr rounded_def [of _ _ "Inr r"] canonical_def)
    qed
  qed
qed

text \<open>A negative amount is rounded as its opposite is in the other direction.\<close>

definition negated :: "iou \<Rightarrow> iou" where
  "negated r = r\<lparr>mantissa := - mantissa r\<rparr>"

lemma negated_zero [simp]: "negated iou_zero = iou_zero"
  by (simp add: negated_def iou_zero_def)

lemma negated_negated [simp]: "negated (negated r) = r"
  by (simp add: negated_def)

lemma negated_eq_zero [simp]: "negated r = iou_zero \<longleftrightarrow> r = iou_zero"
  by (metis negated_negated negated_zero)

lemma canonical_negated [simp]: "canonical (negated r) \<longleftrightarrow> canonical r"
  using canonical_nonzero_uminus [of r] negated_eq_zero [of r] by (simp add: canonical_def negated_def)

lemma iou_val_negated [simp]: "iou_val (negated r) = - iou_val r"
  by (simp add: iou_val_def negated_def dec_uminus)

lemma exponent_negated [simp]: "exponent (negated r) = exponent r"
  by (simp add: negated_def)

lemma mantissa_negated [simp]: "mantissa (negated r) = - mantissa r"
  by (simp add: negated_def)

lemma normalize_negated: "normalize (- m) e = map_sum id negated (normalize m e)"
proof (cases "m = 0")
  case True
  then show ?thesis by (simp add: normalize_def)
next
  case False
  have z: "r = iou_zero" if "normalize \<bar>m\<bar> e = Inr r" "mantissa r = 0" for r
    using normalize_canonical [OF that(1)] canonical_nonzero_not_0 [of r] that(2) by (auto simp: canonical_def)
  show ?thesis
    using False normalize_abs [of m e] normalize_abs [of "- m" e] z
    by (cases "normalize \<bar>m\<bar> e") (auto simp: negated_def iou_zero_def split: if_splits)
qed

lemma normalize_minNegative:
  "normalize (- minMantissa) minExponent = Inr (negated \<lparr>mantissa = minMantissa, exponent = minExponent\<rparr>)"
  by (simp add: normalize_negated minPositiveAmount_eq [unfolded minPositiveAmount_def IOUAmount_def])

lemma mulRatio_negated:
  assumes pos: "0 < mantissa amt"
  shows "mulRatio (negated amt) num den up = map_sum id negated (mulRatio amt num den (\<not> up))"
proof (cases "den = 0")
  case True
  then show ?thesis by (simp add: mulRatio_def)
next
  case False
  obtain low ex h where sc: "mulRatio_scaled (mantissa amt) (exponent amt) num den = (low, ex, h)"
    by (cases "mulRatio_scaled (mantissa amt) (exponent amt) num den")
  have step: "normalize (- mantissa r - 1) (exponent r)
      = map_sum id negated (normalize (mantissa r + 1) (exponent r))" for r
    using normalize_negated [of "mantissa r + 1" "exponent r"] by simp
  have neg: "normalize (- low) ex = map_sum id negated (normalize low ex)" by (rule normalize_negated)
  show ?thesis
    using pos sc False
    by (cases "normalize low ex") (simp_all add: mulRatio_def IOUAmount_def neg step normalize_minNegative)
qed

section \<open>Properties\<close>



text \<open>C22. The 128-bit arithmetic of \<^verbatim>\<open>mulRatio\<close> is exact: for every 63-bit mantissa the product, the rescaled
  quotient and the rescaled remainder stay below \<open>2 ^ 128\<close>, the table of powers is only read inside
  its bounds, and the quotient that is finally cast to 64 bits is at most \<open>10 ^ 18\<close>.\<close>

theorem mulRatio_no_overflow:
  assumes "0 \<le> m" and "m < 2 ^ 63" and "den \<noteq> 0"
  shows "let mul = m * uint num; low = mul div uint den; rem = mul - low * uint den;
             room = fl64 - log10Ceil low;
             (low1, rem1, ex1) = mulRatio_grow low rem (uint den) ex;
             (low2, ex2, hasRem) = mulRatio_scaled m ex num den
    in mul < 2 ^ 128
       \<and> 0 \<le> log10Ceil low \<and> log10Ceil low < int (length powerTable)
       \<and> (0 < room \<longrightarrow> room < int (length powerTable)
            \<and> low * 10 ^ nat room < 2 ^ 128 \<and> rem * 10 ^ nat room < 2 ^ 128)
       \<and> 0 \<le> low1 \<and> low1 < 2 ^ 128 \<and> log10Ceil low1 < int (length powerTable)
       \<and> 0 \<le> low2 \<and> low2 \<le> 10 ^ 18"
proof -
  let ?mul = "m * uint num"
  let ?low = "?mul div uint den"
  let ?rem = "?mul - ?low * uint den"
  let ?room = "fl64 - log10Ceil ?low"
  obtain low1 rem1 ex1 where g: "mulRatio_grow ?low ?rem (uint den) ex = (low1, rem1, ex1)"
    by (cases "mulRatio_grow ?low ?rem (uint den) ex")
  obtain low2 ex2 h where sc: "mulRatio_scaled m ex num den = (low2, ex2, h)"
    by (cases "mulRatio_scaled m ex num den")
  have d: "0 < uint den" using assms(3) uint_u32_bound(1) [of den] by (simp add: less_le uint_0_iff)
  have r0: "rep (dec m ex * of_int (uint num) / of_int (uint den)) ?low ?rem (uint den) ex"
    by (rule rep_initial [OF assms(1) d uint_u32_bound(1)])
  have q: "0 \<le> ?low" "?low < 2 ^ 95" by (rule quotient_bounds [OF assms])+
  have b: "?low \<le> 10 ^ 29" using q by simp
  have G: "0 \<le> low1" "low1 \<le> 10 ^ 29"
    using mulRatio_grow_spec(1,2) [OF r0 b g] b by (simp_all add: rep_def)
  obtain c where c: "log10Ceil ?low = int c" "c \<le> 29" "?low \<le> 10 ^ c"
    using log10Ceil_spec [OF b] by metis
  obtain c1 where c1: "log10Ceil low1 = int c1" "c1 \<le> 29" using log10Ceil_spec [OF G(2)] by metis
  have "m * uint num \<le> m * 2 ^ 32"
    using assms(1) uint_u32_bound(2) [of num] by (intro mult_left_mono) simp_all
  then have 1: "?mul < 2 ^ 128" using assms(2) by simp
  have 2: "?low * 10 ^ nat ?room < 2 ^ 128 \<and> ?rem * 10 ^ nat ?room < 2 ^ 128" if "0 < ?room"
  proof -
    have n: "nat ?room = 18 - c" "c < 18" using that c(1) by simp_all
    have "?low * 10 ^ (18 - c) \<le> 10 ^ c * 10 ^ (18 - c)" using c(3) by (intro mult_right_mono) simp_all
    also have "\<dots> = 10 ^ 18" using n by (simp add: power_add [symmetric])
    finally have l: "?low * 10 ^ (18 - c) \<le> 10 ^ 18" .
    have "?rem \<le> 2 ^ 32" "0 \<le> ?rem" using r0 uint_u32_bound(2) [of den] by (simp_all add: rep_def)
    then have "?rem * 10 ^ (18 - c) \<le> 2 ^ 32 * 10 ^ 18" by (intro mult_mono power_increasing) simp_all
    with l show ?thesis unfolding n(1) by simp
  qed
  show ?thesis
    using 1 2 c(1,2) c1 G mulRatio_scaled_spec(2,3) [OF assms sc]
    by (simp add: Let_def g sc)
qed

theorem mulRatio_no_overflow_witness:
  "mulRatio_scaled 9999999999999999 80 4294967295 1 = (429496729499999957, 88, True)
   \<and> (9999999999999999::int) * uint (4294967295::u32) < 2 ^ 128"
proof -
  have "mulRatio_scaled 9999999999999999 80 4294967295 1 = (429496729499999957, 88, True)" by code_simp
  then show ?thesis using mulRatio_no_overflow [of 9999999999999999 1 4294967295 80] by (simp add: Let_def)
qed

section \<open>Rounding up a product with too many digits\<close>


end
