(* ===== verification/LedgerTrie.thy ===== *)
theory LedgerTrie
  imports Prelude "HOL-Library.Multiset" "HOL-Library.Product_Lexorder" "HOL-Library.Sublist"
begin

text \<open>
  The compressed trie of ledger ancestries (\<^verbatim>\<open>consensus/LedgerTrie.h\<close>). The template parameter
  \<^verbatim>\<open>Ledger\<close> is a record of operations, passed to every function that uses it; what the template
  requires of it is the locale \<open>ledger_history\<close>. A node owns its children and the back pointers
  \<^verbatim>\<open>parent\<close> are implicit: a pointer to a node is the path of child positions from the root, and
  walking up \<^verbatim>\<open>parent\<close> is walking back along the path. Sequence numbers and support counts, 32-bit
  in the code, are natural numbers: a count is a number of validators, and no ledger has the last
  sequence number.
\<close>

section \<open>Ledgers, spans and nodes\<close>

record ('l, 'id) ledger_ops =
  seq_of :: "'l \<Rightarrow> nat"
  id_of :: "'l \<Rightarrow> 'id"
  at_of :: "'l \<Rightarrow> nat \<Rightarrow> 'id"
  mismatch_of :: "'l \<Rightarrow> 'l \<Rightarrow> nat"
  genesis_of :: "'l"

record ('l, 'id) SpanTip =
  tip_seq :: nat
  tip_id :: 'id
  tip_ledger :: 'l

definition SpanTip_ancestor :: "('l, 'id) ledger_ops \<Rightarrow> ('l, 'id) SpanTip \<Rightarrow> nat \<Rightarrow> 'id" where
  "SpanTip_ancestor L t s = at_of L (tip_ledger t) s"

record 'l Span =
  sp_start :: nat
  sp_end :: nat
  sp_ledger :: 'l

definition Span_genesis :: "('l, 'id) ledger_ops \<Rightarrow> 'l Span" where
  "Span_genesis L = \<lparr>sp_start = 0, sp_end = 1, sp_ledger = genesis_of L\<rparr>"

definition Span_of :: "('l, 'id) ledger_ops \<Rightarrow> 'l \<Rightarrow> 'l Span" where
  "Span_of L ledger = \<lparr>sp_start = 0, sp_end = seq_of L ledger + 1, sp_ledger = ledger\<rparr>"

definition clamp :: "'l Span \<Rightarrow> nat \<Rightarrow> nat" where
  "clamp s val = min (max (sp_start s) val) (sp_end s)"

definition Span_sub :: "'l Span \<Rightarrow> nat \<Rightarrow> nat \<Rightarrow> 'l Span option" where
  "Span_sub s from to =
     (let newFrom = clamp s from; newTo = clamp s to
      in if newFrom < newTo then Some \<lparr>sp_start = newFrom, sp_end = newTo, sp_ledger = sp_ledger s\<rparr>
         else None)"

definition Span_from :: "'l Span \<Rightarrow> nat \<Rightarrow> 'l Span option" where
  "Span_from s spot = Span_sub s spot (sp_end s)"

definition Span_before :: "'l Span \<Rightarrow> nat \<Rightarrow> 'l Span option" where
  "Span_before s spot = Span_sub s (sp_start s) spot"

definition startID :: "('l, 'id) ledger_ops \<Rightarrow> 'l Span \<Rightarrow> 'id" where
  "startID L s = at_of L (sp_ledger s) (sp_start s)"

definition Span_diff :: "('l, 'id) ledger_ops \<Rightarrow> 'l Span \<Rightarrow> 'l \<Rightarrow> nat" where
  "Span_diff L s other = clamp s (mismatch_of L (sp_ledger s) other)"

definition Span_tip :: "('l, 'id) ledger_ops \<Rightarrow> 'l Span \<Rightarrow> ('l, 'id) SpanTip" where
  "Span_tip L s =
     (let tipSeq = sp_end s - 1
      in \<lparr>tip_seq = tipSeq, tip_id = at_of L (sp_ledger s) tipSeq, tip_ledger = sp_ledger s\<rparr>)"

definition Span_merge :: "'l Span \<Rightarrow> 'l Span \<Rightarrow> 'l Span" where
  "Span_merge a b =
     (if sp_end a < sp_end b
      then \<lparr>sp_start = min (sp_start a) (sp_start b), sp_end = sp_end b, sp_ledger = sp_ledger b\<rparr>
      else \<lparr>sp_start = min (sp_start a) (sp_start b), sp_end = sp_end a, sp_ledger = sp_ledger a\<rparr>)"

datatype 'l node = Node (span: "'l Span") (tipSupport: nat) (branchSupport: nat) (children: "'l node list")

text \<open>\<^verbatim>\<open>Node::erase\<close>: the child is swapped with the last one, which is then popped.\<close>

definition erase_child :: "nat \<Rightarrow> 'a list \<Rightarrow> 'a list" where
  "erase_child i cs = butlast (cs[i := last cs])"

record 'l trie =
  root :: "'l node"
  seqSupport :: "(nat, nat) smap"

section \<open>Paths\<close>

type_synonym path = "nat list"

fun node_at :: "path \<Rightarrow> 'l node \<Rightarrow> 'l node" where
  "node_at [] n = n"
| "node_at (i # p) n = node_at p (children n ! i)"

fun path_ok :: "path \<Rightarrow> 'l node \<Rightarrow> bool" where
  "path_ok [] n \<longleftrightarrow> True"
| "path_ok (i # p) n \<longleftrightarrow> i < length (children n) \<and> path_ok p (children n ! i)"

text \<open>
  The update of the node a path leads to by \<open>f\<close>, and of the branch support of every node above it
  by \<open>g\<close>: the loops over \<^verbatim>\<open>parent\<close> of \<^verbatim>\<open>insert\<close> and \<^verbatim>\<open>remove\<close>.
\<close>

fun update_path :: "(nat \<Rightarrow> nat) \<Rightarrow> ('l node \<Rightarrow> 'l node) \<Rightarrow> path \<Rightarrow> 'l node \<Rightarrow> 'l node" where
  "update_path g f [] n = f n"
| "update_path g f (i # p) n =
     Node (span n) (tipSupport n) (g (branchSupport n))
       ((children n)[i := update_path g f p (children n ! i)])"

section \<open>Operations\<close>

text \<open>\<^verbatim>\<open>LedgerTrie::find\<close>: the loop descends into the first child that matches further.\<close>

fun find_from :: "('l, 'id) ledger_ops \<Rightarrow> 'l \<Rightarrow> 'l node \<Rightarrow> nat \<Rightarrow> path \<times> nat"
and find_child :: "('l, 'id) ledger_ops \<Rightarrow> 'l \<Rightarrow> 'l node list \<Rightarrow> nat \<Rightarrow> nat \<Rightarrow> path \<times> nat" where
  "find_from L ledger (Node s t b cs) pos =
     (if pos = sp_end s then find_child L ledger cs 0 pos else ([], pos))"
| "find_child L ledger [] i pos = ([], pos)"
| "find_child L ledger (c # cs) i pos =
     (let childPos = Span_diff L (span c) ledger
      in if childPos > pos then (let (p, q) = find_from L ledger c childPos in (i # p, q))
         else find_child L ledger cs (i + 1) pos)"

definition trie_find :: "('l, 'id) ledger_ops \<Rightarrow> 'l trie \<Rightarrow> 'l \<Rightarrow> path \<times> nat" where
  "trie_find L t ledger = find_from L ledger (root t) (Span_diff L (span (root t)) ledger)"

fun findByLedgerID :: "('l, 'id) ledger_ops \<Rightarrow> 'l \<Rightarrow> 'l node \<Rightarrow> path option"
and findByLedgerID_children :: "('l, 'id) ledger_ops \<Rightarrow> 'l \<Rightarrow> 'l node list \<Rightarrow> nat \<Rightarrow> path option" where
  "findByLedgerID L ledger (Node s t b cs) =
     (if id_of L ledger = tip_id (Span_tip L s) then Some []
      else findByLedgerID_children L ledger cs 0)"
| "findByLedgerID_children L ledger [] i = None"
| "findByLedgerID_children L ledger (c # cs) i =
     (case findByLedgerID L ledger c of
        Some p \<Rightarrow> Some (i # p)
      | None \<Rightarrow> findByLedgerID_children L ledger cs (i + 1))"

definition trie_new :: "('l, 'id) ledger_ops \<Rightarrow> 'l trie" where
  "trie_new L = \<lparr>root = Node (Span_genesis L) 0 0 [], seqSupport = []\<rparr>"

text \<open>
  What \<^verbatim>\<open>insert\<close> does at the node it found: split off the old suffix, add a node for the new suffix,
  and count the support. The prefix is there whenever there is an old suffix (the code asserts it).
\<close>

definition insert_split :: "'l node \<Rightarrow> nat \<Rightarrow> 'l node" where
  "insert_split loc diffSeq =
     (case Span_from (span loc) diffSeq of
        None \<Rightarrow> loc
      | Some oldSuffix \<Rightarrow>
          let newNode = Node oldSuffix (tipSupport loc) (branchSupport loc) (children loc)
          in Node (case Span_before (span loc) diffSeq of Some pre \<Rightarrow> pre | None \<Rightarrow> span loc)
               0 (branchSupport loc) [newNode])"

definition insert_here :: "('l, 'id) ledger_ops \<Rightarrow> 'l \<Rightarrow> nat \<Rightarrow> nat \<Rightarrow> 'l node \<Rightarrow> 'l node" where
  "insert_here L ledger cnt diffSeq loc =
     (let loc = insert_split loc diffSeq
      in case Span_from (Span_of L ledger) diffSeq of
           Some newSuffix \<Rightarrow>
             Node (span loc) (tipSupport loc) (branchSupport loc + cnt)
               (children loc @ [Node newSuffix cnt cnt []])
         | None \<Rightarrow>
             Node (span loc) (tipSupport loc + cnt) (branchSupport loc + cnt) (children loc))"

definition seqSupport_add :: "(nat, nat) smap \<Rightarrow> nat \<Rightarrow> nat \<Rightarrow> (nat, nat) smap" where
  "seqSupport_add m s cnt =
     smap_put s ((case smap_find m s of Some k \<Rightarrow> k | None \<Rightarrow> 0) + cnt) m"

definition trie_insert :: "('l, 'id) ledger_ops \<Rightarrow> 'l \<Rightarrow> nat \<Rightarrow> 'l trie \<Rightarrow> 'l trie" where
  "trie_insert L ledger cnt t =
     (let (loc, diffSeq) = trie_find L t ledger
      in \<lparr>root = update_path (\<lambda>b. b + cnt) (insert_here L ledger cnt diffSeq) loc (root t),
          seqSupport = seqSupport_add (seqSupport t) (seq_of L ledger) cnt\<rparr>)"

text \<open>
  The compression loop of \<^verbatim>\<open>remove\<close>, from the node a path leads to upwards. The flag tells whether
  the loop is still running when it comes to the node.
\<close>

fun compress :: "path \<Rightarrow> 'l node \<Rightarrow> 'l node \<times> bool" where
  "compress [] n = (n, True)"
| "compress (i # p) n =
     (let (c, running) = compress p (children n ! i);
          cs = (children n)[i := c];
          with_children = Node (span n) (tipSupport n) (branchSupport n)
      in if running \<and> tipSupport c = 0 then
           (case children c of
              [] \<Rightarrow> (with_children (erase_child i cs), True)
            | [child] \<Rightarrow>
                (let merged = Node (Span_merge (span c) (span child)) (tipSupport child)
                                (branchSupport child) (children child)
                 in (with_children (erase_child i (cs @ [merged])), True))
            | _ \<Rightarrow> (with_children cs, False))
         else (with_children cs, False))"

definition seqSupport_sub :: "(nat, nat) smap \<Rightarrow> nat \<Rightarrow> nat \<Rightarrow> (nat, nat) smap" where
  "seqSupport_sub m s cnt =
     (case smap_find m s of
        None \<Rightarrow> m
      | Some k \<Rightarrow> if k - cnt = 0 then smap_erase s m else smap_put s (k - cnt) m)"

definition remove_here :: "nat \<Rightarrow> 'l node \<Rightarrow> 'l node" where
  "remove_here cnt loc =
     Node (span loc) (tipSupport loc - cnt) (branchSupport loc - cnt) (children loc)"

definition trie_remove :: "('l, 'id) ledger_ops \<Rightarrow> 'l \<Rightarrow> nat \<Rightarrow> 'l trie \<Rightarrow> bool \<times> 'l trie" where
  "trie_remove L ledger cnt t =
     (case findByLedgerID L ledger (root t) of
        None \<Rightarrow> (False, t)
      | Some loc \<Rightarrow>
          if tipSupport (node_at loc (root t)) = 0 then (False, t)
          else let cnt = min cnt (tipSupport (node_at loc (root t)));
                   decremented = update_path (\<lambda>b. b - cnt) (remove_here cnt) loc (root t)
               in (True, \<lparr>root = fst (compress loc decremented),
                          seqSupport = seqSupport_sub (seqSupport t) (seq_of L ledger) cnt\<rparr>))"

definition trie_tipSupport :: "('l, 'id) ledger_ops \<Rightarrow> 'l \<Rightarrow> 'l trie \<Rightarrow> nat" where
  "trie_tipSupport L ledger t =
     (case findByLedgerID L ledger (root t) of
        Some loc \<Rightarrow> tipSupport (node_at loc (root t))
      | None \<Rightarrow> 0)"

definition trie_branchSupport :: "('l, 'id) ledger_ops \<Rightarrow> 'l \<Rightarrow> 'l trie \<Rightarrow> nat" where
  "trie_branchSupport L ledger t =
     (case findByLedgerID L ledger (root t) of
        Some loc \<Rightarrow> branchSupport (node_at loc (root t))
      | None \<Rightarrow>
          let (loc, diffSeq) = trie_find L t ledger
          in if diffSeq > seq_of L ledger \<and> seq_of L ledger < sp_end (span (node_at loc (root t)))
             then branchSupport (node_at loc (root t)) else 0)"

definition trie_empty :: "'l trie \<Rightarrow> bool" where
  "trie_empty t \<longleftrightarrow> branchSupport (root t) = 0"

text \<open>
  \<^verbatim>\<open>LedgerTrie::getPreferred\<close>. The iterator over \<^verbatim>\<open>seqSupport\<close> is the list of entries still ahead of
  it. \<open>std::partial_sort\<close> reorders the children of the nodes the walk passes, although the method is
  \<^verbatim>\<open>const\<close>: the walk returns the tree with its new order.
\<close>

fun add_uncommitted :: "nat \<Rightarrow> nat \<Rightarrow> (nat \<times> nat) list \<Rightarrow> nat \<times> (nat \<times> nat) list" where
  "add_uncommitted bound u [] = (u, [])"
| "add_uncommitted bound u ((s, k) # it) =
     (if s < bound then add_uncommitted bound (u + k) it else (u, (s, k) # it))"

fun advance :: "nat \<Rightarrow> nat \<Rightarrow> nat \<Rightarrow> nat \<Rightarrow> (nat \<times> nat) list \<Rightarrow> nat \<times> nat \<times> (nat \<times> nat) list" where
  "advance e b nextSeq u it =
     (if nextSeq < e \<and> b > u
      then (case it of
              (s, k) # it' \<Rightarrow> if s < e then advance e b (s + 1) (u + k) it' else (e, u, it)
            | [] \<Rightarrow> (e, u, it))
      else (nextSeq, u, it))"

declare advance.simps [simp del]

definition partial_sort_children :: "('l, 'id::linorder) ledger_ops \<Rightarrow> 'l node list \<Rightarrow> 'l node list" where
  "partial_sort_children L cs = rev (sort_key (\<lambda>c. (branchSupport c, startID L (span c))) cs)"

lemma set_partial_sort_children [simp]: "set (partial_sort_children L cs) = set cs"
  by (simp add: partial_sort_children_def)

lemma mset_partial_sort_children [simp]: "mset (partial_sort_children L cs) = mset cs"
  by (simp add: partial_sort_children_def)

lemma length_partial_sort_children [simp]: "length (partial_sort_children L cs) = length cs"
  by (simp add: partial_sort_children_def)

definition child_order :: "('l, 'id::linorder) ledger_ops \<Rightarrow> 'l node list \<Rightarrow> 'l node list" where
  "child_order L cs = (if length cs < 2 then cs else partial_sort_children L cs)"

lemma set_child_order [simp]: "set (child_order L cs) = set cs"
  by (simp add: child_order_def)

lemma mset_child_order [simp]: "mset (child_order L cs) = mset cs"
  by (simp add: child_order_def)

definition best_margin :: "('l, 'id::linorder) ledger_ops \<Rightarrow> 'l node \<Rightarrow> 'l node list \<Rightarrow> nat" where
  "best_margin L best others =
     (case others of
        [] \<Rightarrow> branchSupport best
      | second # _ \<Rightarrow>
          branchSupport best - branchSupport second
          + (if startID L (span best) > startID L (span second) then 1 else 0))"

lemma size_child: "c \<in> set cs \<Longrightarrow> size c < size (Node s t b cs)"
  by (induction cs) auto

lemma size_child_order: "child_order L cs = best # others \<Longrightarrow> size best < size (Node s t b cs)"
  by (rule size_child) (metis list.set_intros(1) set_child_order)

function prefer_from :: "('l, 'id::linorder) ledger_ops \<Rightarrow> nat \<Rightarrow> 'l node \<Rightarrow> nat \<Rightarrow> (nat \<times> nat) list
    \<Rightarrow> ('l, 'id) SpanTip \<times> 'l node" where
  "prefer_from L largestIssued (Node s t b cs) uncommitted it =
     (let nextSeq = sp_start s + 1;
          (uncommitted, it) = add_uncommitted (max nextSeq largestIssued) uncommitted it;
          (nextSeq, uncommitted, it) = advance (sp_end s) b nextSeq uncommitted it
      in if nextSeq < sp_end s then
           (Span_tip L (case Span_before s nextSeq of Some sp \<Rightarrow> sp | None \<Rightarrow> s), Node s t b cs)
         else
           (case child_order L cs of
              [] \<Rightarrow> (Span_tip L s, Node s t b cs)
            | best # others \<Rightarrow>
                if best_margin L best others > uncommitted \<or> uncommitted = 0
                then (let (res, best') = prefer_from L largestIssued best uncommitted it
                      in (res, Node s t b (best' # others)))
                else (Span_tip L s, Node s t b (best # others))))"
  by pat_completeness auto
termination
  by (relation "measure (\<lambda>(L, g, n, u, it). size n)") (auto simp: size_child_order simp del: node.size)

declare prefer_from.simps [simp del]

definition getPreferred :: "('l, 'id::linorder) ledger_ops \<Rightarrow> nat \<Rightarrow> 'l trie
    \<Rightarrow> ('l, 'id) SpanTip option \<times> 'l trie" where
  "getPreferred L largestIssued t =
     (if trie_empty t then (None, t)
      else let (res, n) = prefer_from L largestIssued (root t) 0 (seqSupport t)
           in (Some res, t\<lparr>root := n\<rparr>))"

text \<open>
  \<^verbatim>\<open>LedgerTrie::checkInvariants\<close>, with its explicit stack of nodes to visit (the flag marks the
  root). Its test of the \<^verbatim>\<open>parent\<close> pointers has no counterpart, as they are implicit here.
\<close>

function check_nodes :: "(bool \<times> 'l node) list \<Rightarrow> (nat, nat) smap \<Rightarrow> (nat, nat) smap option" where
  "check_nodes [] expected = Some expected"
| "check_nodes ((is_root, Node s t b cs) # nodes) expected =
     (if \<not> is_root \<and> t = 0 \<and> length cs < 2 then None
      else let expected = (if t \<noteq> 0 then seqSupport_add expected (sp_end s - 1) t else expected)
           in if t + sum_list (map branchSupport cs) \<noteq> b then None
              else check_nodes (rev (map (Pair False) cs) @ nodes) expected)"
  by pat_completeness auto
termination
proof (relation "measure (\<lambda>(nodes, _). sum_list (map (size \<circ> snd) nodes))", goal_cases)
  case 1
  show ?case by simp
next
  case (2 is_root s t b cs nodes expected x)
  have "sum_list (map size cs) < size (Node s t b cs)" by (simp add: size_list_conv_sum_list)
  then show ?case by (simp add: rev_map [symmetric] comp_def sum_list_rev del: node.size)
qed

definition checkInvariants :: "'l trie \<Rightarrow> bool" where
  "checkInvariants t \<longleftrightarrow> check_nodes [(True, root t)] [] = Some (seqSupport t)"

end
