(* ===== verification/LedgerTrie_Correct.thy ===== *)
theory LedgerTrie_Correct
  imports LedgerTrie
begin

text \<open>
  Correctness of the ledger trie. The locale \<open>ledger_history\<close> states what the template parameter
  promises; inside it the trie is shown to implement a multiset of ledger histories. The support
  of a node is the multiset of histories counted below it; \<open>wf_node\<close> and \<open>compact\<close> are the
  invariants of the compressed trie.
\<close>

section \<open>Histories and the support of a node\<close>

definition hist :: "('l, 'id) ledger_ops \<Rightarrow> 'l \<Rightarrow> nat \<Rightarrow> 'id list" where
  "hist L a k = map (at_of L a) [0..<k]"

definition full_hist :: "('l, 'id) ledger_ops \<Rightarrow> 'l \<Rightarrow> 'id list" where
  "full_hist L a = hist L a (Suc (seq_of L a))"

abbreviation n_start :: "'l node \<Rightarrow> nat" where "n_start n \<equiv> sp_start (span n)"
abbreviation n_end :: "'l node \<Rightarrow> nat" where "n_end n \<equiv> sp_end (span n)"
abbreviation n_ledger :: "'l node \<Rightarrow> 'l" where "n_ledger n \<equiv> sp_ledger (span n)"

definition tip_hist :: "('l, 'id) ledger_ops \<Rightarrow> 'l node \<Rightarrow> 'id list" where
  "tip_hist L n = hist L (n_ledger n) (n_end n)"

fun supp :: "('l, 'id) ledger_ops \<Rightarrow> 'l node \<Rightarrow> 'id list multiset" where
  "supp L (Node s t b cs) =
     replicate_mset t (hist L (sp_ledger s) (sp_end s)) + sum_list (map (supp L) cs)"

fun wf_node :: "('l, 'id) ledger_ops \<Rightarrow> ('l \<Rightarrow> bool) \<Rightarrow> 'l node \<Rightarrow> bool" where
  "wf_node L valid (Node s t b cs) \<longleftrightarrow>
     valid (sp_ledger s) \<and> sp_start s < sp_end s \<and> sp_end s \<le> Suc (seq_of L (sp_ledger s))
     \<and> b = t + sum_list (map branchSupport cs)
     \<and> distinct (map (\<lambda>c. startID L (span c)) cs)
     \<and> (\<forall>c \<in> set cs. wf_node L valid c \<and> n_start c = sp_end s
          \<and> hist L (n_ledger c) (sp_end s) = hist L (sp_ledger s) (sp_end s))"

definition locally_compact :: "'l node \<Rightarrow> bool" where
  "locally_compact n \<longleftrightarrow> (tipSupport n = 0 \<longrightarrow> 2 \<le> length (children n))"

fun compact :: "'l node \<Rightarrow> bool" where
  "compact (Node s t b cs) \<longleftrightarrow> (\<forall>c \<in> set cs. locally_compact c \<and> compact c)"

lemma length_hist [simp]: "length (hist L a k) = k"
  by (simp add: hist_def)

lemma hist_nth [simp]: "i < k \<Longrightarrow> hist L a k ! i = at_of L a i"
  by (simp add: hist_def)

lemma take_hist [simp]: "k \<le> k' \<Longrightarrow> take k (hist L a k') = hist L a k"
  by (simp add: hist_def take_map)

lemma hist_Suc: "hist L a (Suc k) = hist L a k @ [at_of L a k]"
  by (simp add: hist_def)

lemma hist_eq_iff: "hist L a k = hist L b k \<longleftrightarrow> (\<forall>i < k. at_of L a i = at_of L b i)"
  by (auto simp: hist_def)

lemma hist_mono: "hist L a k = hist L b k \<Longrightarrow> k' \<le> k \<Longrightarrow> hist L a k' = hist L b k'"
  by (simp add: hist_eq_iff)

lemma hist_at: "hist L a k = hist L b k \<Longrightarrow> i < k \<Longrightarrow> at_of L a i = at_of L b i"
  by (simp add: hist_eq_iff)

lemma hist_inj_length: "hist L a k = hist L b k' \<Longrightarrow> k = k'"
  using length_hist [of L a k] length_hist [of L b k'] by simp

lemma node_eta: "n = Node (span n) (tipSupport n) (branchSupport n) (children n)"
  by (cases n) simp

lemma supp_node: "supp L n = replicate_mset (tipSupport n) (tip_hist L n) + sum_list (map (supp L) (children n))"
  by (cases n) (simp add: tip_hist_def)

lemma wf_nodeD:
  assumes "wf_node L valid n"
  shows "valid (n_ledger n)" and "n_start n < n_end n" and "n_end n \<le> Suc (seq_of L (n_ledger n))"
    and "branchSupport n = tipSupport n + sum_list (map branchSupport (children n))"
    and "distinct (map (\<lambda>c. startID L (span c)) (children n))"
  using assms by (cases n; simp)+

lemma wf_childD:
  assumes "wf_node L valid n" and "c \<in> set (children n)"
  shows "wf_node L valid c" and "n_start c = n_end n"
    and "hist L (n_ledger c) (n_end n) = hist L (n_ledger n) (n_end n)"
  using assms by (cases n; simp)+

lemma supp_child: "c \<in> set (children n) \<Longrightarrow> h \<in># supp L c \<Longrightarrow> h \<in># supp L n"
  by (cases n) auto

lemma supp_cases:
  assumes "h \<in># supp L n"
  obtains "h = tip_hist L n" "0 < tipSupport n" | c where "c \<in> set (children n)" "h \<in># supp L c"
  using assms by (cases n) (auto simp: tip_hist_def in_replicate_mset split: if_splits)

lemma size_sum_list: "size (sum_list (map f xs)) = sum_list (map (\<lambda>x. size (f x)) xs)"
  for f :: "'a \<Rightarrow> 'b multiset"
  by (induction xs) simp_all

lemma branch_size: "wf_node L valid n \<Longrightarrow> branchSupport n = size (supp L n)"
proof (induction n)
  case (Node s t b cs)
  then have "map branchSupport cs = map (\<lambda>c. size (supp L c)) cs" by (intro map_cong) auto
  then have "sum_list (map branchSupport cs) = sum_list (map (\<lambda>c. size (supp L c)) cs)" by (rule arg_cong)
  then show ?case using Node.prems by (simp add: size_sum_list)
qed

lemma replicate_mset_add: "replicate_mset (m + n) x = replicate_mset m x + replicate_mset n x"
  by (simp add: multiset_eq_iff)

text \<open>Every history below a node runs through the whole span of the node.\<close>

lemma supp_through:
  assumes "wf_node L valid n" and "h \<in># supp L n"
  shows "n_end n \<le> length h" and "take (n_end n) h = tip_hist L n"
proof -
  have "n_end n \<le> length h \<and> take (n_end n) h = tip_hist L n"
    using assms
  proof (induction n)
    case (Node s t b cs)
    from Node.prems(2) show ?case
    proof (cases rule: supp_cases)
      case 1
      then show ?thesis by (simp add: tip_hist_def)
    next
      case (2 c)
      then have c: "c \<in> set cs" "wf_node L valid c" "n_start c = sp_end s"
        "hist L (n_ledger c) (sp_end s) = hist L (sp_ledger s) (sp_end s)" using Node.prems(1) by auto
      note ih = Node.IH [OF c(1,2) 2(2)]
      have le: "sp_end s \<le> n_end c" using wf_nodeD(2) [OF c(2)] c(3) by simp
      then have "take (sp_end s) h = take (sp_end s) (take (n_end c) h)" by (simp add: min_def)
      also have "\<dots> = hist L (n_ledger c) (sp_end s)" using ih le by (simp add: tip_hist_def)
      finally show ?thesis using ih le c(4) by (simp add: tip_hist_def)
    qed
  qed
  then show "n_end n \<le> length h" and "take (n_end n) h = tip_hist L n" by simp_all
qed

text \<open>Below a child every history continues with the first ledger of the child's span.\<close>

lemma supp_child_at:
  assumes "wf_node L valid n" and "c \<in> set (children n)" and "h \<in># supp L c"
  shows "n_end n < length h" and "h ! n_end n = startID L (span c)"
proof -
  note c = wf_childD [OF assms(1,2)]
  note t = supp_through [OF c(1) assms(3)]
  have lt: "n_end n < n_end c" using wf_nodeD(2) [OF c(1)] c(2) by simp
  then show "n_end n < length h" using t(1) by simp
  have "h ! n_end n = take (n_end c) h ! n_end n" using lt by simp
  then show "h ! n_end n = startID L (span c)" using t(2) lt c(2) by (simp add: tip_hist_def startID_def)
qed

lemma child_eqI:
  assumes "wf_node L valid n" and "c \<in> set (children n)" and "d \<in> set (children n)"
    and "startID L (span c) = startID L (span d)"
  shows "c = d"
  using wf_nodeD(5) [OF assms(1)] assms(2-4) by (auto simp: distinct_map inj_on_def)

section \<open>Updating a node\<close>

text \<open>A node that can take the place of another below the same parent.\<close>

definition refits :: "('l, 'id) ledger_ops \<Rightarrow> 'l node \<Rightarrow> 'l node \<Rightarrow> bool" where
  "refits L n n' \<longleftrightarrow> n_start n' = n_start n
     \<and> hist L (n_ledger n') (Suc (n_start n)) = hist L (n_ledger n) (Suc (n_start n))"

lemma refits_startID: "refits L n n' \<Longrightarrow> startID L (span n') = startID L (span n)"
  by (simp add: refits_def startID_def hist_Suc)

lemma refits_refl: "span n' = span n \<Longrightarrow> refits L n n'"
  by (simp add: refits_def)

lemma sum_list_update_eq:
  "i < length xs \<Longrightarrow> sum_list (map f (xs[i := y])) + f (xs ! i) = sum_list (map f xs) + f y"
  for f :: "'a \<Rightarrow> 'b::comm_monoid_add"
proof (induction xs arbitrary: i)
  case (Cons x xs)
  then show ?case
  proof (cases i)
    case (Suc j)
    then have "sum_list (map f (xs[j := y])) + f (xs ! j) = sum_list (map f xs) + f y" using Cons by simp
    then show ?thesis using Suc by (simp add: add.assoc)
  qed (simp add: ac_simps)
qed simp

lemma wf_replace_child:
  assumes n: "wf_node L valid n" and i: "i < length (children n)"
    and c: "wf_node L valid c" "refits L (children n ! i) c"
    and b: "b = tipSupport n + sum_list (map branchSupport ((children n)[i := c]))"
  shows "wf_node L valid (Node (span n) (tipSupport n) b ((children n)[i := c]))"
proof -
  let ?c = "children n ! i"
  have mem: "?c \<in> set (children n)" using i by simp
  note old = wf_childD [OF n mem]
  have "map (\<lambda>c. startID L (span c)) ((children n)[i := c]) = map (\<lambda>c. startID L (span c)) (children n)"
    using refits_startID [OF c(2)] i by (simp add: map_update) (metis list_update_id map_update nth_map)
  moreover have "n_start c = n_end n" "hist L (n_ledger c) (n_end n) = hist L (n_ledger n) (n_end n)"
    using c(2) old hist_mono [of L "n_ledger c" "Suc (n_end n)" "n_ledger ?c" "n_end n"]
    by (simp_all add: refits_def)
  moreover have "d \<in> set (children n) \<or> d = c" if "d \<in> set ((children n)[i := c])" for d
    using that set_update_subset_insert [of "children n" i c] by auto
  ultimately show ?thesis
    using wf_nodeD [OF n] wf_childD [OF n] c(1) b by auto
qed

lemma supp_replace_child:
  assumes "i < length (children n)" and "supp L c + R = supp L (children n ! i) + A"
  shows "supp L (Node (span n) (tipSupport n) b ((children n)[i := c])) + R = supp L n + A"
proof -
  have "sum_list (map (supp L) ((children n)[i := c])) + supp L (children n ! i)
      = sum_list (map (supp L) (children n)) + supp L c"
    using sum_list_update_eq [OF assms(1), of "supp L" c] .
  then have "sum_list (map (supp L) ((children n)[i := c])) + R + supp L (children n ! i)
      = sum_list (map (supp L) (children n)) + A + supp L (children n ! i)"
    using assms(2) by (metis (no_types) add.assoc add.commute)
  then have "sum_list (map (supp L) ((children n)[i := c])) + R = sum_list (map (supp L) (children n)) + A"
    by simp
  then show ?thesis by (subst (2) supp_node) (simp add: tip_hist_def)
qed

lemma update_path_wf:
  assumes "wf_node L valid n" and "path_ok p n"
    and "wf_node L valid (f (node_at p n))" and "refits L (node_at p n) (f (node_at p n))"
    and "supp L (f (node_at p n)) + R = supp L (node_at p n) + A"
    and g: "\<And>k. g k = k + size A - size R"
  shows "wf_node L valid (update_path g f p n) \<and> refits L n (update_path g f p n)
    \<and> supp L (update_path g f p n) + R = supp L n + A"
  using assms(1-5)
proof (induction p arbitrary: n)
  case Nil
  then show ?case by simp
next
  case (Cons i p)
  let ?c = "children n ! i"
  let ?c' = "update_path g f p ?c"
  have i: "i < length (children n)" using Cons.prems(2) by simp
  then have "?c \<in> set (children n)" by simp
  then have wfc: "wf_node L valid ?c" by (rule wf_childD(1) [OF Cons.prems(1)])
  then have c': "wf_node L valid ?c'" "refits L ?c ?c'" "supp L ?c' + R = supp L ?c + A"
    using Cons.IH [of ?c] Cons.prems by simp_all
  have "branchSupport ?c' + size R = branchSupport ?c + size A"
    unfolding branch_size [OF wfc] branch_size [OF c'(1)] using arg_cong [OF c'(3), of size] by simp
  then have "sum_list (map branchSupport ((children n)[i := ?c'])) + size R
      = sum_list (map branchSupport (children n)) + size A"
    using sum_list_update_eq [OF i, of branchSupport ?c'] by linarith
  then have "g (branchSupport n) = tipSupport n + sum_list (map branchSupport ((children n)[i := ?c']))"
    unfolding g wf_nodeD(4) [OF Cons.prems(1)] by linarith
  then show ?case
    using wf_replace_child [OF Cons.prems(1) i c'(1,2)] supp_replace_child [OF i c'(3)]
    by (simp add: refits_refl)
qed

section \<open>Splitting a node\<close>

lemma insert_split_end [simp]: "insert_split n (n_end n) = n"
  by (simp add: insert_split_def Span_from_def Span_sub_def)

lemma insert_split_mid:
  assumes "n_start n < q" and "q < n_end n"
  shows "insert_split n q = Node ((span n)\<lparr>sp_end := q\<rparr>) 0 (branchSupport n)
    [Node \<lparr>sp_start = q, sp_end = n_end n, sp_ledger = n_ledger n\<rparr> (tipSupport n) (branchSupport n) (children n)]"
  using assms by (simp add: insert_split_def Span_from_def Span_before_def Span_sub_def clamp_def)

lemma split_wf:
  assumes n: "wf_node L valid n" and q: "n_start n < q" "q \<le> n_end n"
  shows "wf_node L valid (insert_split n q)" and "span (insert_split n q) = (span n)\<lparr>sp_end := q\<rparr>"
    and "supp L (insert_split n q) = supp L n"
proof -
  have "wf_node L valid (insert_split n q) \<and> span (insert_split n q) = (span n)\<lparr>sp_end := q\<rparr>
    \<and> supp L (insert_split n q) = supp L n"
  proof (cases "q = n_end n")
    case True
    then show ?thesis using n by simp
  next
    case False
    then have lt: "q < n_end n" using q(2) by simp
    let ?new = "Node \<lparr>sp_start = q, sp_end = n_end n, sp_ledger = n_ledger n\<rparr>
      (tipSupport n) (branchSupport n) (children n)"
    have "wf_node L valid ?new" using wf_nodeD [OF n] lt wf_childD [OF n] by simp
    moreover have "supp L ?new = supp L n" by (subst (2) supp_node) (simp add: tip_hist_def)
    ultimately show ?thesis
      using wf_nodeD [OF n] lt q(1) by (simp add: insert_split_mid)
  qed
  then show "wf_node L valid (insert_split n q)" and "span (insert_split n q) = (span n)\<lparr>sp_end := q\<rparr>"
    and "supp L (insert_split n q) = supp L n" by simp_all
qed

lemma split_compact:
  assumes "n_start n < q" and "q \<le> n_end n" and "compact n" and "locally_compact n \<or> q = n_end n"
  shows "compact (insert_split n q)
    \<and> (if q = n_end n then insert_split n q = n
       else tipSupport (insert_split n q) = 0 \<and> length (children (insert_split n q)) = 1)"
proof (cases "q = n_end n")
  case False
  then have "q < n_end n" using assms(2) by simp
  then show ?thesis
    using assms by (cases n) (simp add: insert_split_mid locally_compact_def)
qed (use assms in simp)

section \<open>Nodes at a path and the support by sequence number\<close>

lemma wf_at: "wf_node L valid n \<Longrightarrow> path_ok p n \<Longrightarrow> wf_node L valid (node_at p n)"
  by (induction p n rule: node_at.induct) (auto dest: wf_childD(1) [OF _ nth_mem])

lemma compact_children: "compact n \<Longrightarrow> c \<in> set (children n) \<Longrightarrow> locally_compact c \<and> compact c"
  by (cases n) simp

lemma compact_at: "compact n \<Longrightarrow> path_ok p n \<Longrightarrow> compact (node_at p n)"
  by (induction p n rule: node_at.induct) (auto dest: compact_children [OF _ nth_mem])

lemma locally_compact_at:
  "compact n \<Longrightarrow> path_ok p n \<Longrightarrow> p \<noteq> [] \<Longrightarrow> locally_compact (node_at p n)"
proof (induction p n rule: node_at.induct)
  case (2 i p n)
  have "locally_compact (children n ! i) \<and> compact (children n ! i)"
    using 2 by (intro compact_children [OF "2.prems"(1)]) simp
  then show ?case using 2 by (cases p) simp_all
qed simp

definition seq_count :: "'id list multiset \<Rightarrow> nat \<Rightarrow> nat" where
  "seq_count M s = size (filter_mset (\<lambda>h. length h = Suc s) M)"

definition seq_ok :: "(nat, nat) smap \<Rightarrow> 'id list multiset \<Rightarrow> bool" where
  "seq_ok m M \<longleftrightarrow> smap_ok m
     \<and> (\<forall>s. smap_find m s = (if seq_count M s = 0 then None else Some (seq_count M s)))"

lemma seq_count_add: "seq_count (M + N) s = seq_count M s + seq_count N s"
  by (simp add: seq_count_def)

lemma seq_count_replicate: "seq_count (replicate_mset k h) s = (if length h = Suc s then k else 0)"
  by (induction k) (simp_all add: seq_count_def)

lemma seq_ok_add:
  assumes "seq_ok m M" and "length h = Suc s" and "0 < k"
  shows "seq_ok (seqSupport_add m s k) (M + replicate_mset k h)"
  using assms
  by (auto simp: seq_ok_def seqSupport_add_def smap_find_put smap_ok_put seq_count_add seq_count_replicate)

lemma seq_ok_sub:
  assumes "seq_ok m M" and "M = N + replicate_mset k h" and "length h = Suc s" and "0 < k"
  shows "seq_ok (seqSupport_sub m s k) N"
  using assms
  by (auto simp: seq_ok_def seqSupport_sub_def smap_find_put smap_ok_put smap_find_erase smap_ok_erase
      seq_count_add seq_count_replicate)

definition trie_inv :: "('l, 'id) ledger_ops \<Rightarrow> ('l \<Rightarrow> bool) \<Rightarrow> 'l trie \<Rightarrow> bool" where
  "trie_inv L valid t \<longleftrightarrow>
     wf_node L valid (root t) \<and> n_start (root t) = 0 \<and> n_end (root t) = 1 \<and> compact (root t)
     \<and> seq_ok (seqSupport t) (supp L (root t))"

section \<open>The contract of the ledger type\<close>

text \<open>
  The requirements of the template (\<^verbatim>\<open>LedgerTrie.h\<close>, unique history invariant): a ledger determines
  the identifiers of its ancestors, equal identifiers have equal histories, and \<^verbatim>\<open>mismatch\<close> is the
  first sequence number at which two ledgers may differ. \<open>valid\<close> selects the ledgers that keep them.
\<close>

locale ledger_history =
  fixes L :: "('l, 'id::linorder) ledger_ops" and valid :: "'l \<Rightarrow> bool"
  assumes genesis: "valid (genesis_of L)" "seq_of L (genesis_of L) = 0"
    and id_at: "valid a \<Longrightarrow> id_of L a = at_of L a (seq_of L a)"
    and mismatch_pos: "valid a \<Longrightarrow> valid b \<Longrightarrow> 0 < mismatch_of L a b"
    and mismatch_le: "valid a \<Longrightarrow> valid b \<Longrightarrow> mismatch_of L a b \<le> Suc (min (seq_of L a) (seq_of L b))"
    and mismatch_agree: "valid a \<Longrightarrow> valid b \<Longrightarrow> p < mismatch_of L a b \<Longrightarrow> at_of L a p = at_of L b p"
    and mismatch_differ: "valid a \<Longrightarrow> valid b \<Longrightarrow> mismatch_of L a b \<le> min (seq_of L a) (seq_of L b) \<Longrightarrow>
      at_of L a (mismatch_of L a b) \<noteq> at_of L b (mismatch_of L a b)"
    and unique_seq: "valid a \<Longrightarrow> valid b \<Longrightarrow> p \<le> seq_of L a \<Longrightarrow> q \<le> seq_of L b \<Longrightarrow>
      at_of L a p = at_of L b q \<Longrightarrow> p = q"
    and unique_history: "valid a \<Longrightarrow> valid b \<Longrightarrow> p \<le> seq_of L a \<Longrightarrow> p \<le> seq_of L b \<Longrightarrow>
      at_of L a p = at_of L b p \<Longrightarrow> q \<le> p \<Longrightarrow> at_of L a q = at_of L b q"
begin

lemma mismatch_hist:
  assumes "valid a" and "valid b" and "k \<le> Suc (seq_of L a)" and "k \<le> Suc (seq_of L b)"
  shows "k \<le> mismatch_of L a b \<longleftrightarrow> hist L a k = hist L b k"
proof
  assume "k \<le> mismatch_of L a b"
  then show "hist L a k = hist L b k" using mismatch_agree [OF assms(1,2)] by (simp add: hist_eq_iff)
next
  assume h: "hist L a k = hist L b k"
  show "k \<le> mismatch_of L a b"
  proof (rule ccontr)
    assume n: "\<not> k \<le> mismatch_of L a b"
    then have "mismatch_of L a b \<le> min (seq_of L a) (seq_of L b)" using assms(3,4) by simp
    then show False using mismatch_differ [OF assms(1,2)] hist_at [OF h] n by simp
  qed
qed

text \<open>The reading of a position that \<^verbatim>\<open>find\<close> compares: beyond the start, it is where the histories part.\<close>

lemma diff_beyond_start:
  assumes "wf_node L valid n" and "valid l" and "n_start n < Span_diff L (span n) l"
  shows "Span_diff L (span n) l = min (mismatch_of L (n_ledger n) l) (n_end n)"
    and "hist L l (Span_diff L (span n) l) = hist L (n_ledger n) (Span_diff L (span n) l)"
    and "Span_diff L (span n) l \<le> n_end n" and "Span_diff L (span n) l \<le> Suc (seq_of L l)"
proof -
  note n = wf_nodeD [OF assms(1)]
  show d: "Span_diff L (span n) l = min (mismatch_of L (n_ledger n) l) (n_end n)"
    using assms(3) by (simp add: Span_diff_def clamp_def max_def split: if_splits)
  note le = mismatch_le [OF n(1) assms(2)]
  then show "Span_diff L (span n) l \<le> n_end n" "Span_diff L (span n) l \<le> Suc (seq_of L l)"
    by (simp_all add: d)
  then show "hist L l (Span_diff L (span n) l) = hist L (n_ledger n) (Span_diff L (span n) l)"
    using mismatch_hist [OF n(1) assms(2), of "Span_diff L (span n) l"] le n(3) by (simp add: d)
qed

text \<open>A child matches further exactly when its first ledger is the next one of the history looked up.\<close>

lemma child_diff:
  assumes "wf_node L valid n" and "c \<in> set (children n)" and "valid l"
    and "hist L l (n_end n) = hist L (n_ledger n) (n_end n)" and "n_end n \<le> Suc (seq_of L l)"
  shows "n_end n < Span_diff L (span c) l \<longleftrightarrow> n_end n \<le> seq_of L l \<and> at_of L l (n_end n) = startID L (span c)"
proof -
  note c = wf_childD [OF assms(1,2)]
  note w = wf_nodeD [OF c(1)]
  have d: "n_end n < Span_diff L (span c) l \<longleftrightarrow> Suc (n_end n) \<le> mismatch_of L (n_ledger c) l"
    using w(2) c(2) by (auto simp: Span_diff_def clamp_def)
  have len: "Suc (n_end n) \<le> Suc (seq_of L (n_ledger c))" using w(2,3) c(2) by simp
  show ?thesis
  proof (cases "n_end n \<le> seq_of L l")
    case True
    then show ?thesis
      using mismatch_hist [OF w(1) assms(3) len] assms(4) c(2,3)
      by (auto simp: d hist_Suc startID_def)
  next
    case False
    then show ?thesis using mismatch_le [OF w(1) assms(3)] by (simp add: d)
  qed
qed

lemma find_spec:
  "wf_node L valid n \<Longrightarrow> valid l \<Longrightarrow> n_start n < pos \<Longrightarrow> pos = Span_diff L (span n) l \<Longrightarrow>
     find_from L l n pos = (p, q) \<Longrightarrow>
     path_ok p n \<and> n_start (node_at p n) < q \<and> q = Span_diff L (span (node_at p n)) l
     \<and> (q = n_end (node_at p n) \<longrightarrow> (\<forall>c \<in> set (children (node_at p n)). Span_diff L (span c) l \<le> q))"
  "(\<forall>c \<in> set cs. wf_node L valid c \<and> n_start c = pos) \<Longrightarrow> valid l \<Longrightarrow>
     find_child L l cs k pos = (p, q) \<Longrightarrow>
     (p = [] \<and> q = pos \<and> (\<forall>c \<in> set cs. Span_diff L (span c) l \<le> pos))
     \<or> (\<exists>i p'. p = (k + i) # p' \<and> i < length cs \<and> path_ok p' (cs ! i)
          \<and> n_start (node_at p' (cs ! i)) < q \<and> q = Span_diff L (span (node_at p' (cs ! i))) l
          \<and> (q = n_end (node_at p' (cs ! i)) \<longrightarrow>
                (\<forall>c \<in> set (children (node_at p' (cs ! i))). Span_diff L (span c) l \<le> q)))"
proof (induction L l n pos and L l cs k pos arbitrary: p q and p q rule: find_from_find_child.induct)
  case (1 L ledger s t b cs pos)
  then show ?case by (cases "pos = sp_end s") (fastforce split: if_splits)+
next
  case (2 L ledger i pos)
  then show ?case by simp
next
  case (3 L ledger c cs k pos)
  show ?case
  proof (cases "Span_diff L (span c) ledger > pos")
    case True
    obtain p' where p: "p = k # p'" and f: "find_from L ledger c (Span_diff L (span c) ledger) = (p', q)"
      using "3.prems"(3) True by (auto simp: Let_def split: prod.splits)
    have "path_ok p' c \<and> n_start (node_at p' c) < q \<and> q = Span_diff L (span (node_at p' c)) ledger
     \<and> (q = n_end (node_at p' c) \<longrightarrow> (\<forall>c \<in> set (children (node_at p' c)). Span_diff L (span c) ledger \<le> q))"
      using "3.IH"(1) [OF refl True] "3.prems" True f by simp
    then show ?thesis using p by (intro disjI2 exI [of _ 0] exI [of _ p']) simp
  next
    case False
    then have f: "find_child L ledger cs (k + 1) pos = (p, q)" using "3.prems"(3) by (simp add: Let_def)
    from "3.IH"(2) [OF refl False _ _ f] "3.prems" False show ?thesis by (fastforce intro: exI [of _ "Suc _"])
  qed
qed

section \<open>Insertion\<close>

lemma split_fresh:
  assumes n: "wf_node L valid n" and l: "valid l" and q: "q = Span_diff L (span n) l" "n_start n < q"
    and last: "q = n_end n \<longrightarrow> (\<forall>c \<in> set (children n). Span_diff L (span c) l \<le> q)"
    and len: "q \<le> seq_of L l" and c: "c \<in> set (children (insert_split n q))"
  shows "startID L (span c) \<noteq> at_of L l q"
proof -
  note d = diff_beyond_start [OF n l, folded q(1), OF q(2)]
  note w = wf_nodeD [OF n]
  show ?thesis
  proof (cases "q = n_end n")
    case True
    then show ?thesis using child_diff [OF n _ l] last len c d(2) by fastforce
  next
    case False
    then have lt: "q < n_end n" using d(3) by simp
    then have "mismatch_of L (n_ledger n) l = q" using d(1) by simp
    then have "at_of L (n_ledger n) q \<noteq> at_of L l q" using mismatch_differ [OF w(1) l] len lt w(3) by simp
    then show ?thesis using c insert_split_mid [OF q(2) lt] by (simp add: startID_def)
  qed
qed

lemma insert_here_old:
  "seq_of L l < q \<Longrightarrow> insert_here L l k q n =
     Node (span (insert_split n q)) (tipSupport (insert_split n q) + k)
       (branchSupport (insert_split n q) + k) (children (insert_split n q))"
  by (simp add: insert_here_def Span_from_def Span_of_def Span_sub_def clamp_def Let_def)

lemma insert_here_new:
  "q \<le> seq_of L l \<Longrightarrow> insert_here L l k q n =
     Node (span (insert_split n q)) (tipSupport (insert_split n q)) (branchSupport (insert_split n q) + k)
       (children (insert_split n q) @ [Node \<lparr>sp_start = q, sp_end = Suc (seq_of L l), sp_ledger = l\<rparr> k k []])"
  by (simp add: insert_here_def Span_from_def Span_of_def Span_sub_def clamp_def Let_def)

lemma insert_here_spec:
  assumes n: "wf_node L valid n" and l: "valid l" and q: "q = Span_diff L (span n) l" "n_start n < q"
    and last: "q = n_end n \<longrightarrow> (\<forall>c \<in> set (children n). Span_diff L (span c) l \<le> q)"
  shows "wf_node L valid (insert_here L l k q n) \<and> refits L n (insert_here L l k q n)
    \<and> supp L (insert_here L l k q n) = supp L n + replicate_mset k (full_hist L l)"
proof -
  note d = diff_beyond_start [OF n l, folded q(1), OF q(2)]
  note m = split_wf [OF n q(2) d(3)]
  let ?m = "insert_split n q"
  note w = wf_nodeD [OF m(1)]
  have h: "hist L l q = hist L (n_ledger ?m) (n_end ?m)" using d(2) m(2) by simp
  show ?thesis
  proof (cases "q \<le> seq_of L l")
    case True
    note e = insert_here_new [of q l k n, OF True]
    have "wf_node L valid (Node \<lparr>sp_start = q, sp_end = Suc (seq_of L l), sp_ledger = l\<rparr> k k [])"
      using l True by simp
    moreover have "at_of L l q \<notin> (\<lambda>c. startID L (span c)) ` set (children ?m)"
    proof
      assume "at_of L l q \<in> (\<lambda>c. startID L (span c)) ` set (children ?m)"
      then obtain c where "at_of L l q = startID L (span c)" "c \<in> set (children ?m)" by (rule imageE)
      then show False using split_fresh [OF n l q last True, of c] by simp
    qed
    moreover have "startID L \<lparr>sp_start = q, sp_end = Suc (seq_of L l), sp_ledger = l\<rparr> = at_of L l q"
      by (simp add: startID_def)
    ultimately have "wf_node L valid (insert_here L l k q n)"
      unfolding e using w wf_childD [OF m(1)] h m(2) by simp
    moreover have "supp L (insert_here L l k q n) = supp L n + replicate_mset k (full_hist L l)"
      unfolding e m(3) [symmetric] by (subst (2) supp_node) (simp add: tip_hist_def full_hist_def)
    moreover have "refits L n (insert_here L l k q n)" unfolding e by (simp add: refits_def m(2))
    ultimately show ?thesis by blast
  next
    case False
    then have f: "seq_of L l < q" by simp
    note e = insert_here_old [of l q k n, OF f]
    have "q = Suc (seq_of L l)" using f d(4) by simp
    then have "tip_hist L ?m = full_hist L l" unfolding tip_hist_def full_hist_def using h by simp
    then have "supp L (insert_here L l k q n) = supp L n + replicate_mset k (full_hist L l)"
      unfolding e m(3) [symmetric] supp_node [of L ?m]
      by (simp add: tip_hist_def replicate_mset_add)
    moreover have "wf_node L valid (insert_here L l k q n)" unfolding e using w wf_childD [OF m(1)] by simp
    moreover have "refits L n (insert_here L l k q n)" unfolding e by (simp add: refits_def m(2))
    ultimately show ?thesis by blast
  qed
qed

lemma insert_here_compact:
  assumes "n_start n < q" "q \<le> n_end n" and "0 < k" and "compact n" and "locally_compact n \<or> q = n_end n"
  shows "compact (insert_here L l k q n)" and "locally_compact n \<Longrightarrow> locally_compact (insert_here L l k q n)"
proof -
  note c = split_compact [OF assms(1,2,4,5)]
  have m: "compact (insert_split n q) \<longleftrightarrow>
      (\<forall>c \<in> set (children (insert_split n q)). locally_compact c \<and> compact c)"
    by (cases "insert_split n q") simp
  show "compact (insert_here L l k q n)"
    using c m assms(3)
    by (cases "q \<le> seq_of L l") (auto simp: insert_here_new insert_here_old locally_compact_def)
  show "locally_compact (insert_here L l k q n)" if "locally_compact n"
    using c that assms(3)
    by (cases "q \<le> seq_of L l") (auto simp: insert_here_new insert_here_old locally_compact_def split: if_splits)
qed

lemma update_path_compact:
  assumes "path_ok p n" and "compact n" and "p \<noteq> [] \<Longrightarrow> locally_compact (f (node_at p n))"
    and "compact (f (node_at p n))"
  shows "compact (update_path g f p n)"
  using assms
proof (induction p arbitrary: n)
  case (Cons i p)
  let ?c = "children n ! i"
  have all: "\<forall>c \<in> set (children n). locally_compact c \<and> compact c"
    using Cons.prems(2) by (cases n) simp
  have "?c \<in> set (children n)" using Cons.prems(1) by simp
  with all have c: "locally_compact ?c" "compact ?c" by blast+
  have "compact (update_path g f p ?c)"
    using Cons.prems(1,3,4) by (intro Cons.IH c(2)) simp_all
  moreover have "locally_compact (update_path g f p ?c)"
    using Cons.prems(3) c(1) by (cases p) (simp_all add: locally_compact_def)
  ultimately have "locally_compact d \<and> compact d" if "d \<in> set ((children n)[i := update_path g f p ?c])" for d
    using all that set_update_subset_insert [of "children n" i "update_path g f p ?c"] by blast
  then show ?case by simp
qed simp

lemma root_diff:
  assumes "trie_inv L valid t" and "valid l"
  shows "Span_diff L (span (root t)) l = 1"
proof -
  have "0 < mismatch_of L (n_ledger (root t)) l"
    using assms by (intro mismatch_pos) (auto simp: trie_inv_def dest: wf_nodeD(1))
  then show ?thesis using assms(1) by (simp add: trie_inv_def Span_diff_def clamp_def)
qed

lemma trie_find_spec:
  assumes "trie_inv L valid t" and "valid l" and "trie_find L t l = (p, q)"
  shows "path_ok p (root t)" and "n_start (node_at p (root t)) < q"
    and "q = Span_diff L (span (node_at p (root t))) l"
    and "q = n_end (node_at p (root t)) \<longrightarrow>
      (\<forall>c \<in> set (children (node_at p (root t))). Span_diff L (span c) l \<le> q)"
proof -
  have w: "wf_node L valid (root t)" "n_start (root t) = 0" using assms(1) by (simp_all add: trie_inv_def)
  have "n_start (root t) < Span_diff L (span (root t)) l" using root_diff [OF assms(1,2)] w by simp
  then show "path_ok p (root t)" and "n_start (node_at p (root t)) < q"
    and "q = Span_diff L (span (node_at p (root t))) l"
    and "q = n_end (node_at p (root t)) \<longrightarrow>
      (\<forall>c \<in> set (children (node_at p (root t))). Span_diff L (span c) l \<le> q)"
    using find_spec(1) [OF w(1) assms(2) _ refl assms(3) [unfolded trie_find_def]] by blast+
qed

lemma trie_insert_correct:
  assumes inv: "trie_inv L valid t" and l: "valid l" and k: "0 < k"
  shows "trie_inv L valid (trie_insert L l k t)"
    and "supp L (root (trie_insert L l k t)) = supp L (root t) + replicate_mset k (full_hist L l)"
proof -
  obtain p q where f: "trie_find L t l = (p, q)" by fastforce
  note s = trie_find_spec [OF inv l f]
  let ?n = "node_at p (root t)" and ?f = "insert_here L l k q"
  have w: "wf_node L valid (root t)" "compact (root t)" "seq_ok (seqSupport t) (supp L (root t))"
    and r: "n_start (root t) = 0" "n_end (root t) = 1"
    using inv by (simp_all add: trie_inv_def)
  have wn: "wf_node L valid ?n" and cn: "compact ?n" using wf_at compact_at w s(1) by blast+
  have qe: "q \<le> n_end ?n" using diff_beyond_start(3) [OF wn l] s(2,3) by simp
  have lc: "locally_compact ?n \<or> q = n_end ?n"
    using locally_compact_at [OF w(2) s(1)] root_diff [OF inv l] r s(3) by (cases "p = []") auto
  note h = insert_here_spec [OF wn l s(3,2,4), of k]
  have U: "wf_node L valid (update_path (\<lambda>b. b + k) ?f p (root t))"
      "supp L (update_path (\<lambda>b. b + k) ?f p (root t)) = supp L (root t) + replicate_mset k (full_hist L l)"
    using update_path_wf [OF w(1) s(1), of ?f "{#}" "replicate_mset k (full_hist L l)" "\<lambda>b. b + k"] h
    by simp_all
  have C: "compact (update_path (\<lambda>b. b + k) ?f p (root t))"
    using insert_here_compact [OF s(2) qe k cn lc] locally_compact_at [OF w(2) s(1)]
    by (intro update_path_compact s(1) w(2)) auto
  have S: "span (update_path (\<lambda>b. b + k) ?f p (root t)) = span (root t)"
  proof (cases p)
    case Nil
    then have "q = n_end (root t)" using root_diff [OF inv l] s(3) r by simp
    then show ?thesis using Nil by (simp add: insert_here_def Let_def split: option.split)
  qed simp
  have e: "trie_insert L l k t = \<lparr>root = update_path (\<lambda>b. b + k) ?f p (root t),
      seqSupport = seqSupport_add (seqSupport t) (seq_of L l) k\<rparr>"
    by (simp add: trie_insert_def f)
  have "seq_ok (seqSupport_add (seqSupport t) (seq_of L l) k)
      (supp L (root t) + replicate_mset k (full_hist L l))"
    using w(3) k by (intro seq_ok_add) (simp_all add: full_hist_def)
  then show "trie_inv L valid (trie_insert L l k t)"
    unfolding e trie_inv_def using U C S r by simp
  show "supp L (root (trie_insert L l k t)) = supp L (root t) + replicate_mset k (full_hist L l)"
    unfolding e using U(2) by simp
qed

end

end
