(* ===== verification/LedgerTrie_Queries.thy ===== *)
theory LedgerTrie_Queries
  imports LedgerTrie_Correct
begin

text \<open>
  The lookups of the ledger trie and its removal: \<^verbatim>\<open>findByLedgerID\<close>, \<^verbatim>\<open>tipSupport\<close>, \<^verbatim>\<open>branchSupport\<close> and
  \<^verbatim>\<open>remove\<close> with its compression loop, against the multiset of histories a trie stands for.
\<close>

section \<open>Finding a node\<close>

lemma sum_list_single:
  fixes f :: "'a \<Rightarrow> 'b::comm_monoid_add"
  assumes "i < length cs" and "\<And>j. j < length cs \<Longrightarrow> j \<noteq> i \<Longrightarrow> f (cs ! j) = 0"
  shows "sum_list (map f cs) = f (cs ! i)"
proof -
  have "sum_list (map f cs) = (\<Sum>j = 0..<length cs. f (cs ! j))"
    by (simp add: sum_list_sum_nth)
  also have "\<dots> = (\<Sum>j \<in> {i}. f (cs ! j))"
    using assms by (intro sum.mono_neutral_right) auto
  finally show ?thesis by simp
qed

lemma filter_sum_list: "filter_mset P (sum_list xs) = sum_list (map (filter_mset P) xs)"
  by (induction xs) simp_all

lemma count_sum_list: "count (sum_list (map f xs)) h = sum_list (map (\<lambda>x. count (f x) h) xs)"
  by (induction xs) simp_all

lemma filter_mset_none: "(\<And>h. h \<in># M \<Longrightarrow> \<not> P h) \<Longrightarrow> filter_mset P M = {#}"
  by (simp add: filter_mset_eq_conv)

lemma findByLedgerID_Some:
  "findByLedgerID L l n = Some p \<Longrightarrow>
     path_ok p n \<and> id_of L l = tip_id (Span_tip L (span (node_at p n)))"
  "findByLedgerID_children L l cs k = Some p \<Longrightarrow>
     \<exists>i p'. p = (k + i) # p' \<and> i < length cs \<and> path_ok p' (cs ! i)
       \<and> id_of L l = tip_id (Span_tip L (span (node_at p' (cs ! i))))"
proof (induction L l n and L l cs k arbitrary: p and p rule: findByLedgerID_findByLedgerID_children.induct)
  case (1 L ledger s t b cs)
  show ?case
  proof (cases "id_of L ledger = tip_id (Span_tip L s)")
    case True
    then show ?thesis using "1.prems" by simp
  next
    case False
    then have "findByLedgerID_children L ledger cs 0 = Some p" using "1.prems" by simp
    from "1.IH" [OF False this] show ?thesis by auto
  qed
next
  case (2 L ledger i)
  then show ?case by simp
next
  case (3 L ledger c cs k)
  show ?case
  proof (cases "findByLedgerID L ledger c")
    case None
    then have "findByLedgerID_children L ledger cs (k + 1) = Some p" using "3.prems" by simp
    from "3.IH"(2) [OF None this] obtain i p' where "p = (k + 1 + i) # p'" "i < length cs"
      "path_ok p' (cs ! i)" "id_of L ledger = tip_id (Span_tip L (span (node_at p' (cs ! i))))" by blast
    then show ?thesis by (intro exI [of _ "Suc i"] exI [of _ p']) simp
  next
    case (Some p')
    then show ?thesis using "3.prems" "3.IH"(1) [OF Some] by (intro exI [of _ 0] exI [of _ p']) simp
  qed
qed

lemma findByLedgerID_None:
  "findByLedgerID L l n = None \<Longrightarrow> path_ok p n \<Longrightarrow>
     id_of L l \<noteq> tip_id (Span_tip L (span (node_at p n)))"
  "findByLedgerID_children L l cs k = None \<Longrightarrow> i < length cs \<Longrightarrow> path_ok p (cs ! i) \<Longrightarrow>
     id_of L l \<noteq> tip_id (Span_tip L (span (node_at p (cs ! i))))"
proof (induction L l n and L l cs k arbitrary: p and p i rule: findByLedgerID_findByLedgerID_children.induct)
  case (1 L ledger s t b cs)
  then show ?case by (cases p) (auto split: if_splits)
next
  case (2 L ledger i)
  then show ?case by simp
next
  case (3 L ledger c cs k)
  then show ?case by (cases i) (auto split: option.splits)
qed

section \<open>Support along a path\<close>

lemma path_through:
  assumes "wf_node L valid n" and "path_ok p n"
  shows "n_end n \<le> n_end (node_at p n)" and "p \<noteq> [] \<Longrightarrow> n_end n \<le> n_start (node_at p n)"
    and "hist L (n_ledger (node_at p n)) (n_end n) = hist L (n_ledger n) (n_end n)"
proof -
  have "n_end n \<le> n_end (node_at p n) \<and> (p \<noteq> [] \<longrightarrow> n_end n \<le> n_start (node_at p n))
    \<and> hist L (n_ledger (node_at p n)) (n_end n) = hist L (n_ledger n) (n_end n)"
    using assms
  proof (induction p arbitrary: n)
    case (Cons i p)
    let ?c = "children n ! i"
    have mem: "?c \<in> set (children n)" using Cons.prems(2) by simp
    note c = wf_childD [OF Cons.prems(1) mem]
    have ok: "path_ok p ?c" using Cons.prems(2) by simp
    note ih = Cons.IH [OF c(1) ok]
    have lt: "n_end n < n_end ?c" using wf_nodeD(2) [OF c(1)] c(2) by simp
    have "hist L (n_ledger (node_at p ?c)) (n_end n) = hist L (n_ledger ?c) (n_end n)"
      by (rule hist_mono [OF ih [THEN conjunct2, THEN conjunct2]]) (use lt in simp)
    also have "\<dots> = hist L (n_ledger n) (n_end n)" by (rule c(3))
    finally have "hist L (n_ledger (node_at (i # p) n)) (n_end n) = hist L (n_ledger n) (n_end n)" by simp
    moreover have "n_end n \<le> n_end (node_at (i # p) n)" using ih lt by simp
    moreover have "n_end n \<le> n_start (node_at (i # p) n)" using ih lt c(2) by (cases "p = []") simp_all
    ultimately show ?case by blast
  qed simp
  then show "n_end n \<le> n_end (node_at p n)" and "p \<noteq> [] \<Longrightarrow> n_end n \<le> n_start (node_at p n)"
    and "hist L (n_ledger (node_at p n)) (n_end n) = hist L (n_ledger n) (n_end n)" by simp_all
qed

lemma other_child_startID:
  assumes "wf_node L valid n" and "i < length (children n)" and "j < length (children n)" and "i \<noteq> j"
  shows "startID L (span (children n ! i)) \<noteq> startID L (span (children n ! j))"
  using wf_nodeD(5) [OF assms(1)] assms(2-4) nth_eq_iff_index_eq [of "map (\<lambda>c. startID L (span c)) (children n)" i j]
  by simp

text \<open>The histories below a node are those that have any point of its span in their past.\<close>

lemma supp_at_filter:
  assumes "wf_node L valid n" and "path_ok p n"
    and "n_start (node_at p n) < k" and "k \<le> n_end (node_at p n)"
  shows "filter_mset (prefix (hist L (n_ledger (node_at p n)) k)) (supp L n) = supp L (node_at p n)"
  using assms
proof (induction p arbitrary: n)
  case Nil
  have "prefix (hist L (n_ledger n) k) h" if "h \<in># supp L n" for h
  proof -
    note t = supp_through [OF Nil.prems(1) that]
    have "take k h = take k (take (n_end n) h)" using Nil.prems(4) by (simp add: min_def)
    also have "\<dots> = hist L (n_ledger n) k" using t(2) Nil.prems(4) by (simp add: tip_hist_def)
    finally show ?thesis by (metis take_is_prefix)
  qed
  then show ?case by (simp add: filter_mset_eq_conv)
next
  case (Cons i p)
  let ?c = "children n ! i" and ?loc = "node_at (i # p) n"
  let ?P = "prefix (hist L (n_ledger ?loc) k)"
  have i: "i < length (children n)" and ok: "path_ok p ?c" using Cons.prems(2) by simp_all
  have mem: "?c \<in> set (children n)" using i by simp
  note c = wf_childD [OF Cons.prems(1) mem]
  have ih: "filter_mset ?P (supp L ?c) = supp L ?loc" using Cons.IH [OF c(1) ok] Cons.prems(3,4) by simp
  have lt: "n_end n < k" using path_through(2) [OF Cons.prems(1,2)] Cons.prems(3) by simp
  have at: "at_of L (n_ledger ?loc) (n_end n) = startID L (span ?c)"
    using hist_at [OF path_through(3) [OF c(1) ok], of "n_end n"] wf_nodeD(2) [OF c(1)] c(2)
    by (simp add: startID_def)
  have tip: "\<not> ?P (tip_hist L n)" using lt prefix_length_le [of "hist L (n_ledger ?loc) k" "tip_hist L n"]
    by (auto simp: tip_hist_def)
  have others: "filter_mset ?P (supp L (children n ! j)) = {#}" if j: "j < length (children n)" "j \<noteq> i" for j
  proof -
    have "\<not> ?P h" if h: "h \<in># supp L (children n ! j)" for h
    proof
      assume "?P h"
      then have "h ! n_end n = hist L (n_ledger ?loc) k ! n_end n" using lt by (auto simp: prefix_def nth_append)
      then show False
        using supp_child_at(2) [OF Cons.prems(1) nth_mem [OF j(1)] h] at lt
          other_child_startID [OF Cons.prems(1) j(1) i j(2)] by simp
    qed
    then show ?thesis by (rule filter_mset_none)
  qed
  have "filter_mset ?P (supp L n) = sum_list (map (\<lambda>c. filter_mset ?P (supp L c)) (children n))"
    unfolding supp_node [of L n] using tip by (simp add: filter_sum_list comp_def)
  also have "\<dots> = filter_mset ?P (supp L ?c)" using others by (intro sum_list_single i) simp
  finally show ?case using ih by simp
qed

lemma count_tip_hist:
  assumes "wf_node L valid n" and "path_ok p n"
  shows "count (supp L n) (tip_hist L (node_at p n)) = tipSupport (node_at p n)"
proof -
  let ?loc = "node_at p n"
  have w: "wf_node L valid ?loc" by (rule wf_at [OF assms])
  note lt = wf_nodeD(2) [OF w]
  have "count (supp L n) (tip_hist L ?loc)
      = count (filter_mset (prefix (hist L (n_ledger ?loc) (n_end ?loc))) (supp L n)) (tip_hist L ?loc)"
    by (simp add: tip_hist_def)
  also have "\<dots> = count (supp L ?loc) (tip_hist L ?loc)"
    using supp_at_filter [OF assms lt] by simp
  also have "\<dots> = tipSupport ?loc"
  proof -
    have "count (supp L c) (tip_hist L ?loc) = 0" if "c \<in> set (children ?loc)" for c
    proof -
      have "tip_hist L ?loc \<notin># supp L c"
        using supp_child_at(1) [OF w that, of "tip_hist L ?loc"] by (auto simp: tip_hist_def)
      then show ?thesis by (simp add: not_in_iff)
    qed
    then have "sum_list (map (\<lambda>c. count (supp L c) (tip_hist L ?loc)) (children ?loc)) = 0"
      by (simp add: sum_list_eq_0_iff)
    then show ?thesis unfolding supp_node [of L ?loc] by (simp add: count_sum_list)
  qed
  finally show ?thesis .
qed

lemma supp_path:
  assumes "h \<in># supp L n"
  obtains p where "path_ok p n" and "tip_hist L (node_at p n) = h"
proof -
  have "\<exists>p. path_ok p n \<and> tip_hist L (node_at p n) = h"
    using assms
  proof (induction n)
    case (Node s t b cs)
    from Node.prems show ?case
    proof (cases rule: supp_cases)
      case 1
      then show ?thesis by (intro exI [of _ "[]"]) simp
    next
      case (2 c)
      then obtain i where i: "i < length cs" "cs ! i = c" by (auto simp: in_set_conv_nth)
      have "\<exists>p. path_ok p c \<and> tip_hist L (node_at p c) = h" using Node.IH 2 by auto
      then obtain p where "path_ok p c" "tip_hist L (node_at p c) = h" by blast
      then show ?thesis using i by (intro exI [of _ "i # p"]) simp
    qed
  qed
  then show ?thesis using that by blast
qed

section \<open>Compression\<close>

text \<open>Compactness of everything below a node, apart from the node a path leads to.\<close>

fun compact_except :: "path \<Rightarrow> 'l node \<Rightarrow> bool" where
  "compact_except [] n \<longleftrightarrow> compact n"
| "compact_except (i # p) n \<longleftrightarrow>
     (\<forall>j < length (children n). j \<noteq> i \<longrightarrow> locally_compact (children n ! j) \<and> compact (children n ! j))
     \<and> (p \<noteq> [] \<longrightarrow> locally_compact (children n ! i)) \<and> compact_except p (children n ! i)"

lemma compact_compact_except: "compact n \<Longrightarrow> path_ok p n \<Longrightarrow> compact_except p n"
proof (induction p arbitrary: n)
  case (Cons i p)
  then show ?case by (auto dest: compact_children [OF _ nth_mem])
qed simp

lemma compact_except_update:
  assumes "compact_except p n" and "path_ok p n" and "\<And>m. children (f m) = children m"
  shows "compact_except p (update_path g f p n)"
  using assms
proof (induction p arbitrary: n)
  case Nil
  have "compact (f n) = compact n" using Nil(3) [of n] by (cases n; cases "f n") simp
  then show ?case using Nil by simp
next
  case (Cons i p)
  have "locally_compact (update_path g f p (children n ! i))" if "p \<noteq> []"
    using Cons.prems(1) that by (cases p) (simp_all add: locally_compact_def)
  then show ?case using Cons by simp
qed

lemma path_ok_update:
  assumes "path_ok p n" shows "path_ok p (update_path g f p n)"
  using assms by (induction p arbitrary: n) simp_all

lemma compactI:
  assumes "\<And>c. c \<in> set cs \<Longrightarrow> locally_compact c \<and> compact c"
  shows "compact (Node s t b cs)"
  using assms by simp

lemma erase_child_last: "erase_child i (cs[i := c] @ [x]) = cs[i := x]" if "i < length cs"
  using that by (simp add: erase_child_def list_update_append)

lemma mset_erase_child:
  assumes "i < length cs"
  shows "mset cs = add_mset (cs ! i) (mset (erase_child i cs))"
proof -
  obtain xs x where cs: "cs = xs @ [x]" using assms by (cases cs rule: rev_cases) auto
  show ?thesis
  proof (cases "i = length xs")
    case True
    then show ?thesis by (simp add: cs erase_child_def)
  next
    case False
    then have i: "i < length xs" using assms cs by simp
    then have "xs ! i \<in># mset xs" by simp
    then have "add_mset (xs ! i) (mset xs - {#xs ! i#}) = mset xs" by simp
    then show ?thesis
      using i by (simp add: cs erase_child_def list_update_append nth_append mset_update)
  qed
qed

lemma sum_list_erase_child:
  fixes f :: "'a \<Rightarrow> 'b::comm_monoid_add"
  assumes "i < length cs"
  shows "sum_list (map f cs) = f (cs ! i) + sum_list (map f (erase_child i cs))"
  using arg_cong [OF mset_erase_child [OF assms], of "\<lambda>M. sum_mset (image_mset f M)"]
  by (simp flip: sum_mset_sum_list mset_map)

lemma wf_remove_child:
  assumes n: "wf_node L valid n" and i: "i < length (children n)" and e: "supp L (children n ! i) = {#}"
  shows "wf_node L valid (Node (span n) (tipSupport n) (branchSupport n) (erase_child i (children n)))"
    and "supp L (Node (span n) (tipSupport n) (branchSupport n) (erase_child i (children n))) = supp L n"
proof -
  let ?c = "children n ! i" and ?cs = "erase_child i (children n)"
  note m = mset_erase_child [OF i] and sum = sum_list_erase_child [OF i]
  have "branchSupport ?c = 0"
    using branch_size [OF wf_childD(1) [OF n nth_mem [OF i]]] e by simp
  moreover have "set ?cs \<subseteq> set (children n)" using arg_cong [OF m, of set_mset] by auto
  moreover have "distinct (map (\<lambda>c. startID L (span c)) ?cs)"
  proof -
    have "mset (map (\<lambda>c. startID L (span c)) (children n)) = mset (startID L (span ?c) # map (\<lambda>c. startID L (span c)) ?cs)"
      using m by simp
    then have "distinct (startID L (span ?c) # map (\<lambda>c. startID L (span c)) ?cs)"
      using wf_nodeD(5) [OF n] by (metis mset_eq_imp_distinct_iff)
    then show ?thesis by simp
  qed
  ultimately show "wf_node L valid (Node (span n) (tipSupport n) (branchSupport n) ?cs)"
    using wf_nodeD [OF n] wf_childD [OF n] sum [of branchSupport] by auto
  show "supp L (Node (span n) (tipSupport n) (branchSupport n) ?cs) = supp L n"
    unfolding supp_node [of L n] using sum [of "supp L"] e by (simp add: tip_hist_def)
qed

lemma set_erase_child:
  assumes "i < length cs" and "y \<in> set (erase_child i cs)"
  obtains j where "j < length cs" and "j \<noteq> i" and "y = cs ! j"
proof -
  obtain xs x where cs: "cs = xs @ [x]" using assms by (cases cs rule: rev_cases) auto
  have "\<exists>j < length cs. j \<noteq> i \<and> y = cs ! j"
  proof (cases "i = length xs")
    case True
    then have "y \<in> set xs" using assms(2) by (simp add: cs erase_child_def)
    then obtain j where "j < length xs" "y = xs ! j" by (auto simp: in_set_conv_nth)
    then show ?thesis using True by (intro exI [of _ j]) (simp add: cs nth_append)
  next
    case False
    then have i: "i < length xs" using assms(1) cs by simp
    then have "y \<in> set (xs[i := x])" using assms(2) by (simp add: cs erase_child_def list_update_append)
    then obtain j where j: "j < length xs" "y = xs[i := x] ! j" by (auto simp: in_set_conv_nth)
    show ?thesis
    proof (cases "j = i")
      case True
      then show ?thesis using i j by (intro exI [of _ "length xs"]) (simp add: cs)
    next
      case False
      then show ?thesis using j by (intro exI [of _ j]) (simp add: cs nth_append)
    qed
  qed
  then show ?thesis using that by blast
qed

lemma replace_child_same:
  assumes n: "wf_node L valid n" and i: "i < length (children n)"
    and d: "wf_node L valid d" "refits L (children n ! i) d" "supp L d = supp L (children n ! i)"
  shows "wf_node L valid (Node (span n) (tipSupport n) (branchSupport n) ((children n)[i := d]))"
    and "supp L (Node (span n) (tipSupport n) (branchSupport n) ((children n)[i := d])) = supp L n"
proof -
  have "branchSupport d = branchSupport (children n ! i)"
    using branch_size [OF d(1)] branch_size [OF wf_childD(1) [OF n nth_mem [OF i]]] d(3) by simp
  then have "branchSupport n = tipSupport n + sum_list (map branchSupport ((children n)[i := d]))"
    using wf_nodeD(4) [OF n] sum_list_update_eq [OF i, of branchSupport d] by simp
  then show "wf_node L valid (Node (span n) (tipSupport n) (branchSupport n) ((children n)[i := d]))"
    by (rule wf_replace_child [OF n i d(1,2)])
  show "supp L (Node (span n) (tipSupport n) (branchSupport n) ((children n)[i := d])) = supp L n"
    using supp_replace_child [OF i, where c = d and R = "{#}" and A = "{#}"] d(3) by simp
qed

lemma merge_child:
  assumes c: "wf_node L valid c" and one: "children c = [g]" and tip: "tipSupport c = 0"
  defines "m \<equiv> Node (Span_merge (span c) (span g)) (tipSupport g) (branchSupport g) (children g)"
  shows "wf_node L valid m" and "refits L c m" and "supp L m = supp L c"
proof -
  have g: "wf_node L valid g" "n_start g = n_end c"
      "hist L (n_ledger g) (n_end c) = hist L (n_ledger c) (n_end c)"
    using wf_childD [OF c] one by simp_all
  have s: "Span_merge (span c) (span g) = \<lparr>sp_start = n_start c, sp_end = n_end g, sp_ledger = n_ledger g\<rparr>"
    using wf_nodeD(2) [OF c] wf_nodeD(2) [OF g(1)] g(2) by (simp add: Span_merge_def)
  show "wf_node L valid m"
    unfolding m_def s
    using wf_nodeD [OF g(1)] wf_childD [OF g(1)] wf_nodeD(2) [OF c] g(2) by simp
  have "Suc (n_start c) \<le> n_end c" using wf_nodeD(2) [OF c] by simp
  then show "refits L c m" unfolding refits_def m_def s using hist_mono [OF g(3)] by simp
  have "supp L m = supp L g" unfolding m_def s supp_node [of L g] by (simp add: tip_hist_def)
  then show "supp L m = supp L c" unfolding supp_node [of L c] using one tip by simp
qed

text \<open>The compression loop keeps the support and leaves a compact tree.\<close>

lemma compress_spec:
  assumes "wf_node L valid n" and "path_ok p n" and "compact_except p n" and "compress p n = (n', running)"
  shows "wf_node L valid n' \<and> span n' = span n \<and> tipSupport n' = tipSupport n \<and> supp L n' = supp L n
    \<and> compact n' \<and> (\<not> running \<longrightarrow> p \<noteq> [] \<and> length (children n') = length (children n))"
  using assms
proof (induction p arbitrary: n n' running)
  case Nil
  then show ?case by simp
next
  case (Cons i p)
  let ?c = "children n ! i"
  let ?with = "Node (span n) (tipSupport n) (branchSupport n)"
  have i: "i < length (children n)" and ok: "path_ok p ?c" using Cons.prems(2) by simp_all
  have cx: "compact_except p ?c" and others: "\<And>j. j < length (children n) \<Longrightarrow> j \<noteq> i \<Longrightarrow>
      locally_compact (children n ! j) \<and> compact (children n ! j)" using Cons.prems(3) by simp_all
  have wc: "wf_node L valid ?c" by (rule wf_childD(1) [OF Cons.prems(1) nth_mem [OF i]])
  obtain c r where c: "compress p ?c = (c, r)" by fastforce
  note ih = Cons.IH [OF wc ok cx c]
  have rf: "refits L ?c c" using ih by (intro refits_refl) simp
  have M: "wf_node L valid (?with ((children n)[i := c]))" "supp L (?with ((children n)[i := c])) = supp L n"
    using replace_child_same [OF Cons.prems(1) i _ rf] ih by blast+
  have replaced: "compact (?with ((children n)[i := d]))" if "locally_compact d" "compact d" for d
  proof (rule compactI)
    fix x assume "x \<in> set ((children n)[i := d])"
    then obtain j where "j < length (children n)" "x = (children n)[i := d] ! j" by (auto simp: in_set_conv_nth)
    then show "locally_compact x \<and> compact x" using others [of j] that i by (cases "j = i") simp_all
  qed
  have keep: ?case if "n' = ?with ((children n)[i := c])" "\<not> running" "locally_compact c"
  proof -
    have "compact n'" unfolding that(1) using ih by (intro replaced that(3)) blast
    then show ?thesis using M that(1,2) by simp
  qed
  show ?case
  proof (cases "r \<and> tipSupport c = 0")
    case False
    then have "locally_compact c"
      using ih Cons.prems(3) by (cases r) (simp_all add: locally_compact_def)
    moreover have "n' = ?with ((children n)[i := c])" "\<not> running"
      using False Cons.prems(4) c by (auto simp: Let_def)
    ultimately show ?thesis by (intro keep)
  next
    case True
    consider (none) "children c = []" | (one) g where "children c = [g]"
      | (many) g g' gs where "children c = g # g' # gs" by (metis list.exhaust)
    then show ?thesis
    proof cases
      case none
      have e: "supp L c = {#}" unfolding supp_node [of L c] using none True by simp
      have n': "n' = ?with (erase_child i ((children n)[i := c]))" "running"
        using Cons.prems(4) c True none by (simp_all add: Let_def)
      have "compact n'"
        unfolding n'
      proof (rule compactI)
        fix x assume "x \<in> set (erase_child i ((children n)[i := c]))"
        then obtain j where "j < length ((children n)[i := c])" "j \<noteq> i" "x = (children n)[i := c] ! j"
          using i by (elim set_erase_child [rotated]) simp_all
        then show "locally_compact x \<and> compact x" using others [of j] by simp
      qed
      moreover have "wf_node L valid n'" "supp L n' = supp L n"
        using wf_remove_child [OF M(1), of i] e i M(2) by (simp_all add: n')
      ultimately show ?thesis using n' by simp
    next
      case one
      let ?m = "Node (Span_merge (span c) (span g)) (tipSupport g) (branchSupport g) (children g)"
      have n': "n' = ?with ((children n)[i := ?m])" "running"
        using Cons.prems(4) c True one i by (simp_all add: Let_def erase_child_last)
      have wfc: "wf_node L valid c" "span c = span ?c" "supp L c = supp L ?c" using ih by blast+
      note mc = merge_child [OF wfc(1) one True [THEN conjunct2]]
      have "refits L ?c ?m" using mc(2) unfolding refits_def wfc(2) .
      note rc = replace_child_same [OF Cons.prems(1) i mc(1) this mc(3) [unfolded wfc(3)]]
      have "wf_node L valid n'" "supp L n' = supp L n" unfolding n' by (rule rc)+
      moreover have "locally_compact g \<and> compact g" using ih one by (intro compact_children [of c]) simp_all
      then have "compact n'" unfolding n' by (intro replaced) (cases g; simp add: locally_compact_def)+
      ultimately show ?thesis using n' by simp
    next
      case many
      then have "n' = ?with ((children n)[i := c])" "\<not> running" "locally_compact c"
        using Cons.prems(4) c True by (simp_all add: Let_def locally_compact_def)
      then show ?thesis by (intro keep)
    qed
  qed
qed

section \<open>Tip and branch support\<close>

context ledger_history
begin

lemma tip_id_iff:
  assumes "wf_node L valid n" and "valid l"
  shows "id_of L l = tip_id (Span_tip L (span n)) \<longleftrightarrow> tip_hist L n = full_hist L l"
proof -
  note w = wf_nodeD [OF assms(1)]
  have t: "tip_id (Span_tip L (span n)) = at_of L (n_ledger n) (n_end n - 1)"
    by (simp add: Span_tip_def Let_def)
  have e: "n_end n - 1 \<le> seq_of L (n_ledger n)" "Suc (n_end n - 1) = n_end n" using w(2,3) by simp_all
  show ?thesis
  proof
    assume "id_of L l = tip_id (Span_tip L (span n))"
    then have eq: "at_of L l (seq_of L l) = at_of L (n_ledger n) (n_end n - 1)"
      using id_at [OF assms(2)] t by simp
    then have s: "seq_of L l = n_end n - 1" using unique_seq [OF assms(2) w(1) _ e(1)] by simp
    have "at_of L l q = at_of L (n_ledger n) q" if "q \<le> seq_of L l" for q
      using unique_history [OF assms(2) w(1) _ e(1), of q] eq s that by simp
    then show "tip_hist L n = full_hist L l"
      using s e(2) by (simp add: tip_hist_def full_hist_def hist_eq_iff)
  next
    assume h: "tip_hist L n = full_hist L l"
    then have "n_end n = Suc (seq_of L l)" unfolding tip_hist_def full_hist_def by (rule hist_inj_length)
    then have "at_of L (n_ledger n) (seq_of L l) = at_of L l (seq_of L l)"
      using h hist_at [of L "n_ledger n" "Suc (seq_of L l)" l "seq_of L l"]
      by (simp add: tip_hist_def full_hist_def)
    then show "id_of L l = tip_id (Span_tip L (span n))"
      using \<open>n_end n = Suc (seq_of L l)\<close> id_at [OF assms(2)] t by simp
  qed
qed

lemma findByLedgerID_spec:
  assumes "wf_node L valid n" and "valid l"
  shows "case findByLedgerID L l n of
      Some p \<Rightarrow> path_ok p n \<and> tip_hist L (node_at p n) = full_hist L l
    | None \<Rightarrow> full_hist L l \<notin># supp L n"
proof (cases "findByLedgerID L l n")
  case (Some p)
  note f = findByLedgerID_Some(1) [OF Some]
  then have "wf_node L valid (node_at p n)" using wf_at [OF assms(1)] by blast
  then show ?thesis using f Some tip_id_iff [OF _ assms(2)] by simp
next
  case None
  have "full_hist L l \<notin># supp L n"
  proof
    assume "full_hist L l \<in># supp L n"
    then obtain p where p: "path_ok p n" "tip_hist L (node_at p n) = full_hist L l" by (rule supp_path)
    then show False
      using findByLedgerID_None(1) [OF None p(1)] tip_id_iff [OF wf_at [OF assms(1) p(1)] assms(2)] by simp
  qed
  then show ?thesis using None by simp
qed

lemma trie_tipSupport_correct:
  assumes "trie_inv L valid t" and "valid l"
  shows "trie_tipSupport L l t = count (supp L (root t)) (full_hist L l)"
proof -
  have w: "wf_node L valid (root t)" using assms(1) by (simp add: trie_inv_def)
  show ?thesis
  proof (cases "findByLedgerID L l (root t)")
    case (Some p)
    then show ?thesis
      using findByLedgerID_spec [OF w assms(2)] count_tip_hist [OF w, of p] by (simp add: trie_tipSupport_def)
  next
    case None
    then show ?thesis using findByLedgerID_spec [OF w assms(2)] by (simp add: trie_tipSupport_def not_in_iff)
  qed
qed

text \<open>The search cannot stop early on a history that is the past of one below the node.\<close>

lemma find_complete:
  "wf_node L valid n \<Longrightarrow> valid l \<Longrightarrow> n_start n < pos \<Longrightarrow> pos = Span_diff L (span n) l \<Longrightarrow>
     h \<in># supp L n \<Longrightarrow> prefix (full_hist L l) h \<Longrightarrow> snd (find_from L l n pos) = Suc (seq_of L l)"
proof (induction n arbitrary: pos)
  case (Node s t b cs)
  let ?n = "Node s t b cs"
  note w = wf_nodeD [OF Node.prems(1)]
  note d = diff_beyond_start [OF Node.prems(1,2), folded Node.prems(4), OF Node.prems(3)]
  note th = supp_through [OF Node.prems(1,5)]
  have hl: "take k h = hist L l k" if "k \<le> Suc (seq_of L l)" for k
  proof -
    have "take k h = take k (take (Suc (seq_of L l)) h)" using that by (simp add: min_def)
    also have "\<dots> = take k (full_hist L l)"
      using Node.prems(6) by (metis append_eq_conv_conj full_hist_def length_hist prefixE)
    finally show ?thesis using that by (simp add: full_hist_def)
  qed
  have agree: "hist L l k = hist L (n_ledger ?n) k" if "k \<le> Suc (seq_of L l)" "k \<le> n_end ?n" for k
    using hl [OF that(1)] arg_cong [OF th(2), of "take k"] that(2) by (simp add: tip_hist_def min_def)
  have mm: "min (n_end ?n) (Suc (seq_of L l)) \<le> mismatch_of L (n_ledger ?n) l"
    using agree [of "min (n_end ?n) (Suc (seq_of L l))"] w(3)
    by (subst mismatch_hist [OF w(1) Node.prems(2)]) simp_all
  show ?case
  proof (cases "pos = sp_end s")
    case False
    then have "pos < sp_end s" using d(3) by simp
    then have "pos = Suc (seq_of L l)" using d(1,4) mm by simp
    then show ?thesis using False by simp
  next
    case True
    show ?thesis
    proof (cases "Suc (seq_of L l) = sp_end s")
      case e: True
      obtain p q where f: "find_child L l cs 0 pos = (p, q)" by fastforce
      have "\<not> pos < Span_diff L (span c) l" if "c \<in> set cs" for c
        using child_diff [OF Node.prems(1) _ Node.prems(2), of c] that agree [of "sp_end s"] e True by simp
      then have "find_child L l cs k pos = ([], pos)" for k
        by (induction cs arbitrary: k) (simp_all add: Let_def)
      then show ?thesis using True e by simp
    next
      case ne: False
      then have lt: "sp_end s \<le> seq_of L l" using d(4) True by simp
      have "sp_end s < length h"
        using prefix_length_le [OF Node.prems(6)] lt by (simp add: full_hist_def)
      then have nt: "h \<noteq> tip_hist L ?n" by (auto simp: tip_hist_def)
      obtain c where c: "c \<in> set cs" "h \<in># supp L c"
        by (rule supp_cases [OF Node.prems(5)]) (use nt in auto)
      have "startID L (span c) = at_of L l (sp_end s)"
        using supp_child_at(2) [OF Node.prems(1) _ c(2)] c(1) hl [of "Suc (seq_of L l)"] lt
          nth_take [of "sp_end s" "Suc (seq_of L l)" h] by simp
      then have match: "pos < Span_diff L (span d) l \<longleftrightarrow> d = c" if "d \<in> set cs" for d
        using child_diff [OF Node.prems(1) _ Node.prems(2), of d] that agree [of "sp_end s"] lt True
          child_eqI [OF Node.prems(1), of d c] c(1) by auto
      then have "snd (find_child L l cs k pos) = snd (find_from L l c (Span_diff L (span c) l))" for k
        using c(1) by (induction cs arbitrary: k) (auto simp: Let_def split: prod.split)
      moreover have "n_start c < Span_diff L (span c) l"
        using match [OF c(1)] wf_childD(2) [OF Node.prems(1), of c] c(1) True by simp
      ultimately show ?thesis
        using Node.IH [OF c(1) wf_childD(1) [OF Node.prems(1)] Node.prems(2) _ refl c(2) Node.prems(6)]
          c(1) True by simp
    qed
  qed
qed

lemma trie_branchSupport_correct:
  assumes inv: "trie_inv L valid t" and l: "valid l"
  shows "trie_branchSupport L l t = size (filter_mset (prefix (full_hist L l)) (supp L (root t)))"
proof -
  let ?r = "root t"
  have w: "wf_node L valid ?r" using inv by (simp add: trie_inv_def)
  have at: "branchSupport (node_at p ?r) = size (filter_mset (prefix (full_hist L l)) (supp L ?r))"
    if p: "path_ok p ?r" and b: "n_start (node_at p ?r) \<le> seq_of L l" "seq_of L l < n_end (node_at p ?r)"
      and h: "full_hist L l = hist L (n_ledger (node_at p ?r)) (Suc (seq_of L l))" for p
    using supp_at_filter [OF w p, of "Suc (seq_of L l)"] branch_size [OF wf_at [OF w p]] b h by simp
  show ?thesis
  proof (cases "findByLedgerID L l ?r")
    case (Some p)
    then have p: "path_ok p ?r" "tip_hist L (node_at p ?r) = full_hist L l"
      using findByLedgerID_spec [OF w l] by simp_all
    have e: "n_end (node_at p ?r) = Suc (seq_of L l)"
      using p(2) unfolding tip_hist_def full_hist_def by (rule hist_inj_length)
    then show ?thesis
      using at [OF p(1)] wf_nodeD(2) [OF wf_at [OF w p(1)]] p(2) Some
      by (simp add: trie_branchSupport_def tip_hist_def)
  next
    case None
    obtain p q where f: "trie_find L t l = (p, q)" by fastforce
    note s = trie_find_spec [OF inv l f]
    note d = diff_beyond_start [OF wf_at [OF w s(1)] l, folded s(3), OF s(2)]
    show ?thesis
    proof (cases "q > seq_of L l \<and> seq_of L l < n_end (node_at p ?r)")
      case True
      then have "q = Suc (seq_of L l)" using d(4) by simp
      then show ?thesis
        using at [OF s(1)] True s(2) d(2) None f by (simp add: trie_branchSupport_def full_hist_def)
    next
      case False
      have none: "filter_mset (prefix (full_hist L l)) (supp L ?r) = {#}"
      proof (rule filter_mset_none)
        fix h assume h: "h \<in># supp L ?r"
        have "n_start ?r < Span_diff L (span ?r) l" using root_diff [OF inv l] inv by (simp add: trie_inv_def)
        then have "prefix (full_hist L l) h \<Longrightarrow> q = Suc (seq_of L l)"
          using find_complete [OF w l _ refl h] f by (simp add: trie_find_def)
        then show "\<not> prefix (full_hist L l) h" using False d(3) by auto
      qed
      have "trie_branchSupport L l t = 0" using False None f by (auto simp: trie_branchSupport_def)
      then show ?thesis unfolding none by simp
    qed
  qed
qed

section \<open>Removal\<close>

lemma remove_here_spec:
  assumes "wf_node L valid n" and "k \<le> tipSupport n"
  shows "wf_node L valid (remove_here k n)" and "refits L n (remove_here k n)"
    and "supp L (remove_here k n) + replicate_mset k (tip_hist L n) = supp L n"
proof -
  show "wf_node L valid (remove_here k n)"
    using wf_nodeD [OF assms(1)] wf_childD [OF assms(1)] assms(2) by (simp add: remove_here_def)
  show "refits L n (remove_here k n)" by (simp add: refits_refl remove_here_def)
  have "replicate_mset (tipSupport n) (tip_hist L n)
      = replicate_mset (tipSupport n - k) (tip_hist L n) + replicate_mset k (tip_hist L n)"
    using assms(2) by (simp flip: replicate_mset_add)
  then show "supp L (remove_here k n) + replicate_mset k (tip_hist L n) = supp L n"
    unfolding supp_node [of L n] by (simp add: remove_here_def tip_hist_def)
qed

lemma trie_remove_correct:
  assumes inv: "trie_inv L valid t" and l: "valid l" and k: "0 < k" and r: "trie_remove L l k t = (res, t')"
  shows "trie_inv L valid t'"
    and "supp L (root t') = supp L (root t) - replicate_mset k (full_hist L l)"
    and "res \<longleftrightarrow> full_hist L l \<in># supp L (root t)"
proof -
  let ?r = "root t"
  have w: "wf_node L valid ?r" "compact ?r" "seq_ok (seqSupport t) (supp L ?r)"
      "n_start ?r = 0" "n_end ?r = 1"
    using inv by (simp_all add: trie_inv_def)
  have none: "trie_inv L valid t' \<and> supp L (root t') = supp L ?r - replicate_mset k (full_hist L l)
      \<and> (res \<longleftrightarrow> full_hist L l \<in># supp L ?r)"
    if "full_hist L l \<notin># supp L ?r" "t' = t" "\<not> res"
    using that inv by (simp add: multiset_eq_iff not_in_iff)
  have "trie_inv L valid t' \<and> supp L (root t') = supp L ?r - replicate_mset k (full_hist L l)
      \<and> (res \<longleftrightarrow> full_hist L l \<in># supp L ?r)"
  proof (cases "findByLedgerID L l ?r")
    case None
    then show ?thesis using findByLedgerID_spec [OF w(1) l] r by (intro none) (simp_all add: trie_remove_def)
  next
    case (Some p)
    then have p: "path_ok p ?r" "tip_hist L (node_at p ?r) = full_hist L l"
      using findByLedgerID_spec [OF w(1) l] by simp_all
    have cnt: "count (supp L ?r) (full_hist L l) = tipSupport (node_at p ?r)"
      using count_tip_hist [OF w(1) p(1)] p(2) by simp
    show ?thesis
    proof (cases "tipSupport (node_at p ?r) = 0")
      case True
      then show ?thesis using cnt r Some by (intro none) (simp_all add: trie_remove_def not_in_iff)
    next
      case False
      let ?k = "min k (tipSupport (node_at p ?r))"
      let ?d = "update_path (\<lambda>b. b - ?k) (remove_here ?k) p ?r"
      note h = remove_here_spec [OF wf_at [OF w(1) p(1)], of ?k, unfolded p(2)]
      have D: "wf_node L valid ?d" "supp L ?d + replicate_mset ?k (full_hist L l) = supp L ?r"
        using update_path_wf [OF w(1) p(1), of "remove_here ?k" "replicate_mset ?k (full_hist L l)" "{#}"
            "\<lambda>b. b - ?k"] h by simp_all
      have "path_ok p ?d" using p(1) by (rule path_ok_update)
      moreover have "compact_except p ?d"
        using compact_compact_except [OF w(2) p(1)] p(1)
        by (rule compact_except_update) (simp add: remove_here_def)
      moreover obtain n running where c: "compress p ?d = (n, running)" by fastforce
      ultimately have C: "wf_node L valid n" "span n = span ?d" "supp L n = supp L ?d" "compact n"
        using compress_spec [OF D(1)] by blast+
      have t': "t' = \<lparr>root = n, seqSupport = seqSupport_sub (seqSupport t) (seq_of L l) ?k\<rparr>" "res"
        using r Some False c by (simp_all add: trie_remove_def Let_def)
      have "span ?d = span ?r" by (cases p) (simp_all add: remove_here_def)
      moreover have "seq_ok (seqSupport_sub (seqSupport t) (seq_of L l) ?k) (supp L ?d)"
        using False k by (intro seq_ok_sub [OF w(3) D(2) [symmetric]]) (simp_all add: full_hist_def)
      ultimately have "trie_inv L valid t'" using C w(4,5) by (simp add: trie_inv_def t')
      moreover have "supp L ?d = supp L ?r - replicate_mset k (full_hist L l)"
        using D(2) cnt by (auto simp: multiset_eq_iff split: if_splits)
      moreover have "full_hist L l \<in># supp L ?r" using cnt False by (simp add: count_inI)
      ultimately show ?thesis using t' C(3) by simp
    qed
  qed
  then show "trie_inv L valid t'" "supp L (root t') = supp L ?r - replicate_mset k (full_hist L l)"
    "res \<longleftrightarrow> full_hist L l \<in># supp L ?r" by blast+
qed

end

end
