(* ===== verification/LedgerTrie_Preferred.thy ===== *)
theory LedgerTrie_Preferred
  imports LedgerTrie_Queries
begin

text \<open>
  The walk of \<^verbatim>\<open>getPreferred\<close> and the self-check \<^verbatim>\<open>checkInvariants\<close>. The walk is compared with a
  declarative rule on the multiset of histories, one sequence number at a time: from a history the
  preferred chain goes on to the best supported next ledger when its lead over every rival exceeds
  the support that is not yet committed.
\<close>

section \<open>The preference rule\<close>

definition branch_of :: "'id list multiset \<Rightarrow> 'id list \<Rightarrow> nat" where
  "branch_of M w = size (filter_mset (prefix w) M)"

text \<open>Support of ledgers before the next sequence number, or before the largest one issued.\<close>

definition committed_below :: "'id list multiset \<Rightarrow> nat \<Rightarrow> nat" where
  "committed_below M B = size (filter_mset (\<lambda>h. length h \<le> B) M)"

definition uncommitted_at :: "'id list multiset \<Rightarrow> nat \<Rightarrow> nat \<Rightarrow> nat" where
  "uncommitted_at M largestIssued s = committed_below M (max s largestIssued)"

definition prefers :: "'id::linorder list multiset \<Rightarrow> nat \<Rightarrow> 'id list \<Rightarrow> 'id \<Rightarrow> bool" where
  "prefers M largestIssued w x \<longleftrightarrow>
     (let u = uncommitted_at M largestIssued (length w); b = branch_of M (w @ [x])
      in 0 < b
         \<and> (\<forall>y. y \<noteq> x \<and> 0 < branch_of M (w @ [y]) \<longrightarrow> (branch_of M (w @ [y]), y) < (b, x))
         \<and> (u = 0 \<or> u < b
              \<and> (\<forall>y. y \<noteq> x \<and> 0 < branch_of M (w @ [y]) \<longrightarrow>
                    branch_of M (w @ [y]) + u < b + (if y < x then 1 else 0))))"

definition preferred_step :: "'id::linorder list multiset \<Rightarrow> nat \<Rightarrow> 'id list \<Rightarrow> 'id list \<Rightarrow> bool" where
  "preferred_step M largestIssued w w' \<longleftrightarrow> (\<exists>x. w' = w @ [x] \<and> prefers M largestIssued w x)"

section \<open>The check of the invariants\<close>

lemma seq_ok_unique: "seq_ok m M \<Longrightarrow> seq_ok m' M \<Longrightarrow> m = m'"
  by (rule smap_eqI) (simp_all add: seq_ok_def)

lemma check_nodes_ok:
  assumes "\<And>r n. (r, n) \<in> set nodes \<Longrightarrow> wf_node L valid n \<and> compact n \<and> (r \<or> locally_compact n)"
    and "seq_ok m M"
  shows "\<exists>m'. check_nodes nodes m = Some m' \<and> seq_ok m' (M + sum_list (map (supp L \<circ> snd) nodes))"
  using assms
proof (induction nodes m arbitrary: M rule: check_nodes.induct)
  case (1 m)
  then show ?case by simp
next
  case (2 is_root s t b cs nodes m)
  let ?n = "Node s t b cs"
  let ?m = "if t \<noteq> 0 then seqSupport_add m (sp_end s - 1) t else m"
  let ?nodes = "rev (map (Pair False) cs) @ nodes"
  have "wf_node L valid ?n \<and> compact ?n \<and> (is_root \<or> locally_compact ?n)"
    by (rule "2.prems"(1)) simp
  then have n: "wf_node L valid ?n" "compact ?n" "is_root \<or> locally_compact ?n" by blast+
  have ok: "\<not> (\<not> is_root \<and> t = 0 \<and> length cs < 2)" using n(3) by (auto simp: locally_compact_def)
  have sum: "\<not> t + sum_list (map branchSupport cs) \<noteq> b" using n(1) by simp
  have "seq_ok ?m (M + replicate_mset t (hist L (sp_ledger s) (sp_end s)))"
    using seq_ok_add [OF "2.prems"(2)] n(1) "2.prems"(2) by (cases "t = 0") simp_all
  moreover have "wf_node L valid n \<and> compact n \<and> (r \<or> locally_compact n)" if "(r, n) \<in> set ?nodes" for r n
  proof (cases "(r, n) \<in> set nodes")
    case True
    then show ?thesis by (intro "2.prems"(1)) simp
  next
    case False
    then have "n \<in> set (children ?n)" using that by auto
    then show ?thesis using wf_childD(1) [OF n(1)] compact_children [OF n(2)] by blast
  qed
  ultimately obtain m' where "check_nodes ?nodes ?m = Some m'"
      "seq_ok m' (M + replicate_mset t (hist L (sp_ledger s) (sp_end s)) + sum_list (map (supp L \<circ> snd) ?nodes))"
    using "2.IH" [OF ok refl sum] by blast
  moreover have "sum_list (map (supp L \<circ> snd) ?nodes) = sum_list (map (supp L) cs) + sum_list (map (supp L \<circ> snd) nodes)"
    by (simp add: rev_map [symmetric] comp_def sum_list_rev)
  ultimately show ?case using ok sum by (simp add: ac_simps comp_def)
qed

lemma checkInvariants_inv:
  assumes "trie_inv L valid t"
  shows "checkInvariants t"
proof -
  have t: "wf_node L valid (root t)" "compact (root t)" "seq_ok (seqSupport t) (supp L (root t))"
    using assms by (simp_all add: trie_inv_def)
  have "seq_ok [] {#}" by (simp add: seq_ok_def seq_count_def)
  moreover have "wf_node L valid n \<and> compact n \<and> (r \<or> locally_compact n)"
    if "(r, n) \<in> set [(True, root t)]" for r n
    using that t by simp
  ultimately have "\<exists>m. check_nodes [(True, root t)] [] = Some m
      \<and> seq_ok m ({#} + sum_list (map (supp L \<circ> snd) [(True, root t)]))"
    by (intro check_nodes_ok)
  then obtain m where "check_nodes [(True, root t)] [] = Some m" "seq_ok m (supp L (root t))" by auto
  then show ?thesis using seq_ok_unique [OF t(3)] by (simp add: checkInvariants_def)
qed

section \<open>Uncommitted support along the iterator\<close>

text \<open>The iterator has passed the entries below \<open>B\<close>, and \<open>u\<close> is their sum.\<close>

definition covers :: "(nat, nat) smap \<Rightarrow> 'id list multiset \<Rightarrow> nat \<Rightarrow> nat \<Rightarrow> (nat \<times> nat) list \<Rightarrow> bool" where
  "covers m M B u it \<longleftrightarrow> u = committed_below M B \<and> it = filter (\<lambda>(s, k). B \<le> s) m"

lemma committed_Suc: "committed_below M (Suc B) = committed_below M B + seq_count M B"
  by (induction M) (auto simp: committed_below_def seq_count_def)

lemma committed_const:
  assumes "B \<le> B'" and "\<And>s. B \<le> s \<Longrightarrow> s < B' \<Longrightarrow> seq_count M s = 0"
  shows "committed_below M B' = committed_below M B"
  using assms by (induction B' rule: dec_induct) (simp_all add: committed_Suc)

lemma seq_ok_count: "seq_ok m M \<Longrightarrow> (s, k) \<in> set m \<Longrightarrow> seq_count M s = k"
  using smap_find_iff [of m s k] by (auto simp: seq_ok_def split: if_splits)

lemma seq_ok_none: "seq_ok m M \<Longrightarrow> (\<And>k. (s, k) \<notin> set m) \<Longrightarrow> seq_count M s = 0"
  using smap_find_iff [of m s "seq_count M s"] by (auto simp: seq_ok_def split: if_splits)

lemma covers_head:
  assumes m: "seq_ok m M" and c: "covers m M B u ((s, k) # it)"
  shows "B \<le> s" and "B \<le> B' \<Longrightarrow> B' \<le> s \<Longrightarrow> covers m M B' u ((s, k) # it)"
    and "covers m M (Suc s) (u + k) it"
proof -
  have f: "filter (\<lambda>(s, k). B \<le> s) m = (s, k) # it" and u: "u = committed_below M B"
    using c by (simp_all add: covers_def)
  have "smap_ok ((s, k) # it)" unfolding f [symmetric] using m by (simp add: smap_ok_filter seq_ok_def)
  then have later: "s < fst e" if "e \<in> set it" for e using that by simp
  have "(s, k) \<in> set (filter (\<lambda>(s, k). B \<le> s) m)" unfolding f by simp
  then have mem: "(s, k) \<in> set m" and Bs: "B \<le> s" by simp_all
  show "B \<le> s" by (rule Bs)
  have gap: "seq_count M r = 0" if "B \<le> r" "r < s" for r
  proof (rule seq_ok_none [OF m])
    fix j
    show "(r, j) \<notin> set m"
    proof
      assume "(r, j) \<in> set m"
      then have "(r, j) \<in> set ((s, k) # it)" unfolding f [symmetric] using that(1) by simp
      then show False using that(2) later [of "(r, j)"] by auto
    qed
  qed
  have nested: "filter (\<lambda>(s, k). B' \<le> s) m = filter (\<lambda>(s, k). B' \<le> s) ((s, k) # it)" if "B \<le> B'" for B'
    unfolding f [symmetric] filter_filter using that by (intro filter_cong) auto
  show "covers m M B' u ((s, k) # it)" if "B \<le> B'" "B' \<le> s"
  proof -
    have "filter (\<lambda>(s, k). B' \<le> s) it = it" using later that(2) by (intro filter_True) fastforce
    moreover have "committed_below M B' = u" unfolding u using that by (intro committed_const gap) simp_all
    ultimately show ?thesis using that nested [OF that(1)] by (simp add: covers_def)
  qed
  have "filter (\<lambda>(r, k). Suc s \<le> r) it = it" using later by (intro filter_True) fastforce
  moreover have "committed_below M (Suc s) = u + k"
    using committed_const [OF Bs gap] u seq_ok_count [OF m mem] by (simp add: committed_Suc)
  ultimately show "covers m M (Suc s) (u + k) it" using nested [of "Suc s"] Bs by (simp add: covers_def)
qed

lemma covers_end:
  assumes m: "seq_ok m M" and c: "covers m M B u []" and "B \<le> B'"
  shows "covers m M B' u []"
proof -
  have e: "\<forall>e \<in> set m. \<not> B \<le> fst e"
    using c by (simp add: covers_def filter_empty_conv case_prod_beta eq_commute [of "[]"])
  then have "seq_count M r = 0" if "B \<le> r" for r using that by (intro seq_ok_none [OF m]) force
  then have "committed_below M B' = committed_below M B" using assms(3) by (intro committed_const) simp_all
  moreover have "filter (\<lambda>(s, k). B' \<le> s) m = []"
    using e assms(3) by (auto simp: filter_empty_conv)
  ultimately show ?thesis using c by (simp add: covers_def)
qed

lemma add_uncommitted_covers:
  assumes "seq_ok m M" and "covers m M B u it" and "B \<le> bound" and "add_uncommitted bound u it = (u', it')"
  shows "covers m M bound u' it'"
  using assms(2-)
proof (induction bound u it arbitrary: B rule: add_uncommitted.induct)
  case (1 bound u)
  then show ?case using covers_end [OF assms(1)] by simp
next
  case (2 bound u s k it)
  show ?case
  proof (cases "s < bound")
    case True
    then show ?thesis using 2 covers_head(3) [OF assms(1)] by (intro "2.IH" [of "Suc s"]) auto
  next
    case False
    then show ?thesis using "2.prems" covers_head(2) [OF assms(1) "2.prems"(1), of bound] by simp
  qed
qed

lemma advance_covers:
  assumes m: "seq_ok m M"
    and step: "\<And>j. n0 \<le> j \<Longrightarrow> j < e \<Longrightarrow> committed_below M (max j G) < b \<Longrightarrow> R (w j) (w (Suc j))"
    and "covers m M (max n G) u it" and "n0 \<le> n" and "n \<le> e" and "advance e b n u it = (n', u', it')"
  shows "n \<le> n' \<and> n' \<le> e \<and> covers m M (max n' G) u' it' \<and> R\<^sup>*\<^sup>* (w n) (w n') \<and> (n' < e \<longrightarrow> b \<le> u')"
  using assms(2-)
proof (induction e b n u it rule: advance.induct)
  case (1 e b n u it)
  have run: "R\<^sup>*\<^sup>* (w n) (w k)"
    if "u < b" "n \<le> k" "k \<le> e" and c: "\<And>j. n \<le> j \<Longrightarrow> j < k \<Longrightarrow> committed_below M (max j G) = u" for k
    using that(2,3) c
  proof (induction k rule: dec_induct)
    case (step k)
    have "R (w k) (w (Suc k))" using step that(1) "1.prems"(3) by (intro "1.prems"(1)) auto
    then show ?case using step by (simp add: rtranclp.rtrancl_into_rtrancl)
  qed simp
  show ?case
  proof (cases "n < e \<and> u < b")
    case False
    then show ?thesis using "1.prems" by (auto simp: advance.simps)
  next
    case True
    show ?thesis
    proof (cases "\<exists>s k it''. it = (s, k) # it'' \<and> s < e")
      case t: True
      then obtain s k it'' where it: "it = (s, k) # it''" "s < e" by blast
      note h = covers_head [OF m "1.prems"(2) [unfolded it(1)]]
      have "covers m M (max (s + 1) G) (u + k) it''" using h(1,3) by simp
      moreover have "advance e b (s + 1) (u + k) it'' = (n', u', it')"
        using "1.prems"(5) True it by (simp add: advance.simps [of e b n])
      moreover have "n0 \<le> s + 1" "s + 1 \<le> e" using "1.prems"(3) h(1) it(2) by simp_all
      ultimately have ih: "s + 1 \<le> n' \<and> n' \<le> e \<and> covers m M (max n' G) u' it'
          \<and> R\<^sup>*\<^sup>* (w (s + 1)) (w n') \<and> (n' < e \<longrightarrow> b \<le> u')"
        by (intro "1.IH" [OF True it(1) refl it(2) "1.prems"(1)])
      have "committed_below M (max j G) = u" if "n \<le> j" "j < Suc s" for j
        using h(2) [of "max j G"] h(1) that by (simp add: covers_def)
      then have "R\<^sup>*\<^sup>* (w n) (w (Suc s))" using True h(1) it(2) by (intro run) simp_all
      then have "R\<^sup>*\<^sup>* (w n) (w n')" using ih by (simp add: rtranclp_trans)
      moreover have "n \<le> n'" using ih h(1) by simp
      ultimately show ?thesis using ih by blast
    next
      case f: False
      have r: "(n', u', it') = (e, u, it)"
        using "1.prems"(5) True f by (auto simp: advance.simps [of e b n] split: list.splits if_splits)
      have cov: "covers m M (max j G) u it" if "n \<le> j" "j \<le> e" for j
      proof (cases it)
        case Nil
        then show ?thesis using covers_end [OF m "1.prems"(2) [unfolded Nil]] that by (simp add: max.mono)
      next
        case (Cons a it'')
        obtain s k where a: "a = (s, k)" by fastforce
        have "e \<le> s" using f Cons a by auto
        then show ?thesis
          using covers_head(1,2) [OF m "1.prems"(2) [unfolded Cons a]] that unfolding Cons a by simp
      qed
      have "committed_below M (max j G) = u" if "n \<le> j" "j < e" for j
        using cov [of j] that by (simp add: covers_def)
      then have "R\<^sup>*\<^sup>* (w n) (w e)" using True by (intro run) simp_all
      then show ?thesis using r cov [of e] True by simp
    qed
  qed
qed

section \<open>The rule along a span and at its end\<close>

lemma node_at_append: "node_at (p @ q) n = node_at q (node_at p n)"
  by (induction p arbitrary: n) simp_all

lemma path_ok_append: "path_ok (p @ q) n \<longleftrightarrow> path_ok p n \<and> path_ok q (node_at p n)"
  by (induction p arbitrary: n) simp_all

lemma in_supp_at:
  assumes "wf_node L valid R" and "path_ok p R" and "h \<in># supp L R"
    and "n_start (node_at p R) < k" and "k \<le> n_end (node_at p R)"
    and "prefix (hist L (n_ledger (node_at p R)) k) h"
  shows "h \<in># supp L (node_at p R)"
  unfolding supp_at_filter [OF assms(1,2,4,5), symmetric] using assms(3,6) by simp

lemma branch_of_span:
  assumes R: "wf_node L valid R" and p: "path_ok p R"
    and j: "n_start (node_at p R) < j" "j < n_end (node_at p R)"
  shows "branch_of (supp L R) (hist L (n_ledger (node_at p R)) j @ [y])
    = (if y = at_of L (n_ledger (node_at p R)) j then branchSupport (node_at p R) else 0)"
proof (cases "y = at_of L (n_ledger (node_at p R)) j")
  case True
  then show ?thesis
    using supp_at_filter [OF R p, of "Suc j"] j branch_size [OF wf_at [OF R p]]
    by (simp add: branch_of_def hist_Suc)
next
  case False
  let ?n = "node_at p R"
  have "\<not> prefix (hist L (n_ledger ?n) j @ [y]) h" if h: "h \<in># supp L R" for h
  proof
    assume pre: "prefix (hist L (n_ledger ?n) j @ [y]) h"
    then have "h \<in># supp L ?n" using j by (intro in_supp_at [OF R p h, of j]) (auto dest: append_prefixD)
    then have "take (n_end ?n) h ! j = tip_hist L ?n ! j" using supp_through(2) [OF wf_at [OF R p]] by simp
    then have "h ! j = at_of L (n_ledger ?n) j" using j by (simp add: tip_hist_def)
    moreover have "h ! j = y" using pre by (auto simp: prefix_def nth_append)
    ultimately show False using False by simp
  qed
  then show ?thesis using False by (simp add: branch_of_def filter_mset_none)
qed

lemma branch_of_child:
  assumes R: "wf_node L valid R" and p: "path_ok p R" and c: "c \<in> set (children (node_at p R))"
  shows "branch_of (supp L R) (hist L (n_ledger (node_at p R)) (n_end (node_at p R)) @ [startID L (span c)])
    = branchSupport c"
proof -
  let ?n = "node_at p R"
  obtain i where i: "i < length (children ?n)" "c = children ?n ! i" using c by (auto simp: in_set_conv_nth)
  have q: "path_ok (p @ [i]) R" "node_at (p @ [i]) R = c" using p i by (simp_all add: path_ok_append node_at_append)
  note w = wf_childD [OF wf_at [OF R p] c]
  have "hist L (n_ledger c) (Suc (n_end ?n)) = hist L (n_ledger ?n) (n_end ?n) @ [startID L (span c)]"
    using w(2,3) by (simp add: hist_Suc startID_def)
  then show ?thesis
    using supp_at_filter [OF R q(1), of "Suc (n_end ?n)"] wf_nodeD(2) [OF w(1)] w(2) branch_size [OF w(1)] q(2)
    by (simp add: branch_of_def)
qed

lemma branch_of_no_child:
  assumes R: "wf_node L valid R" and p: "path_ok p R"
    and y: "\<And>c. c \<in> set (children (node_at p R)) \<Longrightarrow> startID L (span c) \<noteq> y"
  shows "branch_of (supp L R) (hist L (n_ledger (node_at p R)) (n_end (node_at p R)) @ [y]) = 0"
proof -
  let ?n = "node_at p R"
  note w = wf_at [OF R p]
  have "\<not> prefix (hist L (n_ledger ?n) (n_end ?n) @ [y]) h" if h: "h \<in># supp L R" for h
  proof
    assume pre: "prefix (hist L (n_ledger ?n) (n_end ?n) @ [y]) h"
    then have "h \<in># supp L ?n"
      using wf_nodeD(2) [OF w] by (intro in_supp_at [OF R p h, of "n_end ?n"]) (auto dest: append_prefixD)
    moreover have "h \<noteq> tip_hist L ?n" using prefix_length_le [OF pre] by (auto simp: tip_hist_def)
    ultimately obtain c where c: "c \<in> set (children ?n)" "h \<in># supp L c" by (auto elim: supp_cases)
    have "h ! n_end ?n = y" using pre by (auto simp: prefix_def nth_append)
    then show False using supp_child_at(2) [OF w c] y [OF c(1)] by simp
  qed
  then show ?thesis by (simp add: branch_of_def filter_mset_none)
qed

lemma prefers_span:
  assumes "wf_node L valid R" and "path_ok p R"
    and "n_start (node_at p R) < j" "j < n_end (node_at p R)"
  shows "prefers (supp L R) G (hist L (n_ledger (node_at p R)) j) x \<longleftrightarrow>
    x = at_of L (n_ledger (node_at p R)) j \<and> uncommitted_at (supp L R) G j < branchSupport (node_at p R)"
  unfolding prefers_def Let_def branch_of_span [OF assms] by auto

text \<open>The order of the children puts the best one first, and the second best after it.\<close>

abbreviation rank :: "('l, 'id::linorder) ledger_ops \<Rightarrow> 'l node \<Rightarrow> nat \<times> 'id" where
  "rank L c \<equiv> (branchSupport c, startID L (span c))"

lemma child_order_sorted: "sorted_wrt (\<lambda>c d. rank L d \<le> rank L c) (child_order L cs)"
proof (cases "length cs < 2")
  case True
  then show ?thesis by (cases cs) (auto simp: child_order_def)
next
  case False
  have "sorted_wrt (\<lambda>c d. rank L c \<le> rank L d) (sort_key (rank L) cs)"
    using sorted_sort_key [of "rank L" cs] by (simp only: sorted_map)
  then show ?thesis using False by (simp add: child_order_def partial_sort_children_def sorted_wrt_rev)
qed

lemma best_margin_iff:
  assumes srt: "sorted_wrt (\<lambda>c d. rank L d \<le> rank L c) (best # others)"
    and pos: "\<And>c. c \<in> set others \<Longrightarrow> 0 < branchSupport c"
  shows "u < best_margin L best others \<longleftrightarrow>
      u < branchSupport best \<and> (\<forall>c \<in> set others. branchSupport c + u
        < branchSupport best + (if startID L (span c) < startID L (span best) then 1 else 0))"
proof (cases others)
  case (Cons second rest)
  have s2: "rank L c \<le> rank L second" if "c \<in> set others" for c
    using srt that by (auto simp: Cons)
  have b2: "branchSupport second \<le> branchSupport best" "0 < branchSupport second"
    using srt pos [of second] by (auto simp: Cons less_eq_prod_def)
  show ?thesis
  proof
    assume m: "u < best_margin L best others"
    have "branchSupport c + u < branchSupport best + (if startID L (span c) < startID L (span best) then 1 else 0)"
      if "c \<in> set others" for c
      using s2 [OF that] m b2 by (auto simp: Cons best_margin_def less_eq_prod_def split: if_splits)
    moreover have "u < branchSupport best" using m b2 by (auto simp: Cons best_margin_def split: if_splits)
    ultimately show "u < branchSupport best \<and> (\<forall>c \<in> set others. branchSupport c + u
        < branchSupport best + (if startID L (span c) < startID L (span best) then 1 else 0))" by blast
  next
    assume "u < branchSupport best \<and> (\<forall>c \<in> set others. branchSupport c + u
        < branchSupport best + (if startID L (span c) < startID L (span best) then 1 else 0))"
    then show "u < best_margin L best others"
      using b2 by (auto simp: Cons best_margin_def split: if_splits)
  qed
qed (simp add: best_margin_def)

lemma prefers_children:
  assumes R: "wf_node L valid R" and p: "path_ok p R" and n: "n = node_at p R"
    and ord: "child_order L (children n) = best # others"
    and pos: "\<And>c. c \<in> set (children n) \<Longrightarrow> 0 < branchSupport c"
    and u: "u = uncommitted_at (supp L R) G (n_end n)"
  shows "prefers (supp L R) G (hist L (n_ledger n) (n_end n)) x \<longleftrightarrow>
    x = startID L (span best) \<and> (u < best_margin L best others \<or> u = 0)"
proof -
  let ?w = "hist L (n_ledger n) (n_end n)" and ?M = "supp L R"
  have wn: "wf_node L valid n" unfolding n by (rule wf_at [OF R p])
  have set: "set (children n) = insert best (set others)"
    using arg_cong [OF ord, of set] by simp
  have dist: "distinct (map (\<lambda>c. startID L (span c)) (best # others))"
  proof -
    have "mset (map (\<lambda>c. startID L (span c)) (best # others)) = mset (map (\<lambda>c. startID L (span c)) (children n))"
      using arg_cong [OF ord, of mset] by simp
    then show ?thesis using wf_nodeD(5) [OF wn] by (metis mset_eq_imp_distinct_iff)
  qed
  have br: "branch_of ?M (?w @ [startID L (span c)]) = branchSupport c" if "c \<in> set (children n)" for c
    unfolding n using that by (intro branch_of_child [OF R p]) (simp add: n)
  have rival: "0 < branch_of ?M (?w @ [y]) \<longleftrightarrow> (\<exists>c \<in> set (children n). y = startID L (span c))" for y
    using br pos branch_of_no_child [OF R p, of y] by (force simp: n)
  have le: "rank L c \<le> rank L best" if "c \<in> set others" for c
    using child_order_sorted [of L "children n"] that by (simp add: ord)
  have "startID L (span best) \<notin> (\<lambda>c. startID L (span c)) ` set others" using dist by simp
  then have ne: "startID L (span c) \<noteq> startID L (span best)" if "c \<in> set others" for c
    using that by (metis image_eqI)
  have less: "rank L c < rank L best" if "c \<in> set others" for c
    using le [OF that] ne [OF that] by (auto simp: less_prod_def less_eq_prod_def)
  have bpos: "0 < branchSupport best" using pos set by simp
  have margin: "u < best_margin L best others \<longleftrightarrow>
      u < branchSupport best \<and> (\<forall>c \<in> set others. branchSupport c + u
        < branchSupport best + (if startID L (span c) < startID L (span best) then 1 else 0))"
    using child_order_sorted [of L "children n"] pos set by (intro best_margin_iff) (simp_all add: ord)
  show ?thesis
  proof
    assume P: "prefers ?M G ?w x"
    then obtain c where c: "c \<in> set (children n)" "x = startID L (span c)"
      using rival [of x] by (auto simp: prefers_def Let_def)
    have max: "rank L d < rank L c" if "d \<in> set (children n)" "startID L (span d) \<noteq> x" for d
      using P that rival [of "startID L (span d)"] br [OF that(1)] br [OF c(1)] c(2)
      by (auto simp: prefers_def Let_def)
    have "c = best"
    proof (rule ccontr)
      assume "c \<noteq> best"
      then have "c \<in> set others" using c set by auto
      then show False using max [of best] less [of c] ne [of c] c(2) set by auto
    qed
    moreover have "u = 0 \<or> u < branchSupport c \<and> (\<forall>d \<in> set others. branchSupport d + u
        < branchSupport c + (if startID L (span d) < x then 1 else 0))"
    proof -
      have "branchSupport d + u < branchSupport c + (if startID L (span d) < x then 1 else 0)"
        if "d \<in> set others" "u \<noteq> 0" for d
        using P that rival [of "startID L (span d)"] br [of d] br [OF c(1)] c(2) set ne [OF that(1)] \<open>c = best\<close> u
        by (auto simp: prefers_def Let_def)
      moreover have "u < branchSupport c" if "u \<noteq> 0"
        using P that br [OF c(1)] c(2) u by (auto simp: prefers_def Let_def)
      ultimately show ?thesis by blast
    qed
    ultimately show "x = startID L (span best) \<and> (u < best_margin L best others \<or> u = 0)"
      using c(2) margin by auto
  next
    assume x: "x = startID L (span best) \<and> (u < best_margin L best others \<or> u = 0)"
    have best: "best \<in> set (children n)" using set by simp
    have others: "\<exists>c \<in> set others. y = startID L (span c) \<and> branch_of ?M (?w @ [y]) = branchSupport c"
      if "y \<noteq> x" "0 < branch_of ?M (?w @ [y])" for y
      using that rival [of y] br set x by auto
    have lead: "(branch_of ?M (?w @ [y]), y) < (branchSupport best, x)
        \<and> (u \<noteq> 0 \<longrightarrow> branch_of ?M (?w @ [y]) + u < branchSupport best + (if y < x then 1 else 0))"
      if y: "y \<noteq> x" "0 < branch_of ?M (?w @ [y])" for y
    proof -
      obtain c where c: "c \<in> set others" "y = startID L (span c)" "branch_of ?M (?w @ [y]) = branchSupport c"
        using others [OF y] by blast
      then show ?thesis using less [OF c(1)] x margin by auto
    qed
    have bx: "branch_of ?M (?w @ [x]) = branchSupport best" using x br [OF best] by simp
    have "u = 0 \<or> u < branchSupport best" using x margin by auto
    then show "prefers ?M G ?w x"
      unfolding prefers_def Let_def length_hist u [symmetric] bx using lead bpos by blast
  qed
qed

section \<open>The walk\<close>

lemma compact_pos:
  assumes "wf_node L valid n" and "compact n" and "locally_compact n"
  shows "0 < branchSupport n"
  using assms
proof (induction n)
  case (Node s t b cs)
  show ?case
  proof (cases "t = 0")
    case True
    then obtain c cs' where cs: "cs = c # cs'" using Node.prems(3) by (cases cs) (auto simp: locally_compact_def)
    have "0 < branchSupport c" using Node.prems(1,2) by (intro Node.IH) (simp_all add: cs)
    then show ?thesis using Node.prems(1) by (simp add: cs)
  qed (use Node.prems(1) in simp)
qed

definition stops_at :: "'id::linorder list multiset \<Rightarrow> nat \<Rightarrow> 'id list \<Rightarrow> 'id list \<Rightarrow> bool" where
  "stops_at M G w w' \<longleftrightarrow> (preferred_step M G)\<^sup>*\<^sup>* w w' \<and> (\<forall>w''. \<not> preferred_step M G w' w'')"

definition is_tip :: "('l, 'id) ledger_ops \<Rightarrow> ('l, 'id) SpanTip \<Rightarrow> 'id list \<Rightarrow> bool" where
  "is_tip L res w \<longleftrightarrow> w \<noteq> [] \<and> tip_seq res = length w - 1 \<and> tip_id res = last w
     \<and> hist L (tip_ledger res) (length w) = w"

lemma stops_at_trans: "(preferred_step M G)\<^sup>*\<^sup>* w v \<Longrightarrow> stops_at M G v w' \<Longrightarrow> stops_at M G w w'"
  by (auto simp: stops_at_def)

lemma is_tip_span: "0 < sp_end s \<Longrightarrow> is_tip L (Span_tip L s) (hist L (sp_ledger s) (sp_end s))"
  by (cases "sp_end s") (simp_all add: is_tip_def Span_tip_def Let_def hist_Suc)

lemma walk_span:
  assumes R: "wf_node L valid R" and p: "path_ok p R" and n: "n = node_at p R" and m: "seq_ok m (supp L R)"
    and cov: "covers m (supp L R) B u it" "B \<le> max (Suc (n_start n)) G"
    and add: "add_uncommitted (max (Suc (n_start n)) G) u it = (u1, it1)"
    and adv: "advance (n_end n) (branchSupport n) (Suc (n_start n)) u1 it1 = (n2, u2, it2)"
  shows "n_start n < n2" and "n2 \<le> n_end n" and "covers m (supp L R) (max n2 G) u2 it2"
    and "(preferred_step (supp L R) G)\<^sup>*\<^sup>* (hist L (n_ledger n) (Suc (n_start n))) (hist L (n_ledger n) n2)"
    and "n2 < n_end n \<Longrightarrow> stops_at (supp L R) G (hist L (n_ledger n) (Suc (n_start n))) (hist L (n_ledger n) n2)"
proof -
  let ?M = "supp L R" and ?l = "n_ledger n"
  have c1: "covers m ?M (max (Suc (n_start n)) G) u1 it1" by (rule add_uncommitted_covers [OF m cov add])
  have step: "preferred_step ?M G (hist L ?l j) (hist L ?l (Suc j))"
    if "Suc (n_start n) \<le> j" "j < n_end n" "committed_below ?M (max j G) < branchSupport n" for j
    using prefers_span [OF R p, of j G] that
    by (auto simp: preferred_step_def hist_Suc uncommitted_at_def n)
  have lt: "Suc (n_start n) \<le> n_end n" using wf_nodeD(2) [OF wf_at [OF R p]] n by simp
  note A = advance_covers [where R = "preferred_step ?M G" and w = "hist L ?l", OF m step c1 order.refl lt adv]
  then show A': "n_start n < n2" "n2 \<le> n_end n" "covers m ?M (max n2 G) u2 it2"
    "(preferred_step ?M G)\<^sup>*\<^sup>* (hist L ?l (Suc (n_start n))) (hist L ?l n2)" by auto
  show "stops_at ?M G (hist L ?l (Suc (n_start n))) (hist L ?l n2)" if "n2 < n_end n"
  proof -
    have "branchSupport n \<le> uncommitted_at ?M G n2"
      using A A'(3) that by (auto simp: covers_def uncommitted_at_def)
    then have "\<not> prefers ?M G (hist L ?l n2) x" for x
      using prefers_span [OF R p, of n2 G x] A'(1) that n by simp
    then show ?thesis using A'(4) by (auto simp: stops_at_def preferred_step_def)
  qed
qed

lemma prefer_from_spec:
  assumes "wf_node L valid R" and "seq_ok m (supp L R)"
    and "path_ok p R" and "n = node_at p R" and "compact n"
    and "covers m (supp L R) B u it" and "B \<le> max (Suc (n_start n)) G"
    and "prefer_from L G n u it = (res, n')"
  shows "\<exists>w. stops_at (supp L R) G (hist L (n_ledger n) (Suc (n_start n))) w \<and> is_tip L res w"
  using assms
proof (induction L G n u it arbitrary: p B res n' rule: prefer_from.induct)
  case (1 L G s t b cs u it)
  let ?n = "Node s t b cs" and ?M = "supp L R" and ?l = "sp_ledger s"
  note R = "1.prems"(1) and m = "1.prems"(2) and p = "1.prems"(3) and n = "1.prems"(4)
  have wn: "wf_node L valid ?n" unfolding n by (rule wf_at [OF R p])
  obtain u1 it1 where add: "add_uncommitted (max (Suc (sp_start s)) G) u it = (u1, it1)" by fastforce
  obtain n2 u2 it2 where adv: "advance (sp_end s) b (Suc (sp_start s)) u1 it1 = (n2, u2, it2)"
    by (metis prod_cases3)
  have W: "sp_start s < n2" "n2 \<le> sp_end s" "covers m ?M (max n2 G) u2 it2"
    "(preferred_step ?M G)\<^sup>*\<^sup>* (hist L ?l (Suc (sp_start s))) (hist L ?l n2)"
    "n2 < sp_end s \<Longrightarrow> stops_at ?M G (hist L ?l (Suc (sp_start s))) (hist L ?l n2)"
    using walk_span [OF R p n m "1.prems"(6,7), of u1 it1 n2 u2 it2] add adv by simp_all
  show ?case
  proof (cases "n2 < sp_end s")
    case True
    then have "res = Span_tip L \<lparr>sp_start = sp_start s, sp_end = n2, sp_ledger = ?l\<rparr>"
      using "1.prems"(8) add adv W(1) by (simp add: prefer_from.simps Span_before_def Span_sub_def clamp_def)
    then have "is_tip L res (hist L ?l n2)"
      using is_tip_span [of "\<lparr>sp_start = sp_start s, sp_end = n2, sp_ledger = ?l\<rparr>" L] W(1) by simp
    then show ?thesis using W(5) True by auto
  next
    case False
    then have n2: "n2 = sp_end s" using W(2) by simp
    have here: ?thesis if "res = Span_tip L s" "\<And>x. \<not> prefers ?M G (hist L ?l (sp_end s)) x"
      using that W(4) n2 is_tip_span [of s L] wf_nodeD(2) [OF wn]
      by (intro exI [of _ "hist L ?l (sp_end s)"]) (auto simp: stops_at_def preferred_step_def)
    have pos: "0 < branchSupport c" if "c \<in> set cs" for c
      using compact_pos [OF wf_childD(1) [OF wn]] compact_children [OF "1.prems"(5)] that by simp
    show ?thesis
    proof (cases "child_order L cs")
      case Nil
      then have "cs = []" by (metis set_child_order set_empty)
      then have "\<not> prefers ?M G (hist L ?l (sp_end s)) x" for x
        using branch_of_no_child [OF R p, of x] by (simp add: prefers_def Let_def flip: n)
      then show ?thesis using "1.prems"(8) add adv n2 Nil by (intro here) (simp_all add: prefer_from.simps)
    next
      case (Cons best others)
      have u2: "u2 = uncommitted_at ?M G (sp_end s)" using W(3) n2 by (simp add: covers_def uncommitted_at_def)
      note P = prefers_children [OF R p n, of best others u2 G, simplified, OF Cons pos u2, folded u2]
      show ?thesis
      proof (cases "u2 < best_margin L best others \<or> u2 = 0")
        case go: False
        then show ?thesis
          using "1.prems"(8) add adv n2 Cons P by (intro here) (simp_all add: prefer_from.simps)
      next
        case go: True
        have best: "best \<in> set (children ?n)" using Cons by (metis list.set_intros(1) node.sel(4) set_child_order)
        note c = wf_childD [OF wn best]
        obtain r b' where rec: "prefer_from L G best u2 it2 = (r, b')" by fastforce
        have res: "res = r" using "1.prems"(8) add adv n2 Cons go rec by (simp add: prefer_from.simps)
        obtain i where i: "i < length cs" "best = cs ! i" using best by (auto simp: in_set_conv_nth)
        have q: "path_ok (p @ [i]) R" "best = node_at (p @ [i]) R"
          using p i by (simp_all add: path_ok_append node_at_append flip: n)
        have cb: "compact best" using compact_children [OF "1.prems"(5) best] by simp
        have le: "max n2 G \<le> max (Suc (n_start best)) G" using c(2) n2 by simp
        obtain w where w: "stops_at ?M G (hist L (n_ledger best) (Suc (n_start best))) w" "is_tip L r w"
          using "1.IH" [OF refl refl add [symmetric, unfolded Suc_eq_plus1] refl
              adv [symmetric, unfolded Suc_eq_plus1] refl False Cons go R m q cb W(3) le rec] by blast
        have e: "hist L (n_ledger best) (Suc (n_start best)) = hist L ?l (sp_end s) @ [startID L (span best)]"
          using c(2,3) by (simp add: hist_Suc startID_def)
        have "preferred_step ?M G (hist L ?l (sp_end s)) (hist L (n_ledger best) (Suc (n_start best)))"
          unfolding e preferred_step_def using P go by blast
        then have "stops_at ?M G (hist L ?l (Suc (sp_start s))) w"
          using W(4) w(1) n2 by (auto intro: stops_at_trans)
        then show ?thesis using w(2) res by auto
      qed
    qed
  qed
qed

section \<open>Reordering the children\<close>

definition reordered :: "('l, 'id) ledger_ops \<Rightarrow> ('l \<Rightarrow> bool) \<Rightarrow> 'l node \<Rightarrow> 'l node \<Rightarrow> bool" where
  "reordered L valid n n' \<longleftrightarrow> wf_node L valid n' \<and> span n' = span n \<and> tipSupport n' = tipSupport n
     \<and> supp L n' = supp L n \<and> compact n' \<and> length (children n') = length (children n)"

lemma reordered_perm:
  assumes "wf_node L valid (Node s t b cs)" and "compact (Node s t b cs)" and "mset cs' = mset cs"
  shows "reordered L valid (Node s t b cs) (Node s t b cs')"
proof -
  have sum: "sum_list (map f cs') = sum_list (map f cs)" for f :: "'a node \<Rightarrow> nat"
    using assms(3) by (metis mset_map sum_mset_sum_list)
  have "sum_list (map (supp L) cs') = sum_list (map (supp L) cs)"
    using assms(3) by (metis mset_map sum_mset_sum_list)
  moreover have "set cs' = set cs" "length cs' = length cs"
    using assms(3) mset_eq_setD mset_eq_length by blast+
  moreover have "distinct (map (\<lambda>c. startID L (span c)) cs')"
    using assms(1,3) by (metis mset_eq_imp_distinct_iff mset_map wf_node.simps)
  ultimately show ?thesis using assms(1,2) sum [of branchSupport] by (simp add: reordered_def)
qed

lemma reordered_head:
  assumes n: "wf_node L valid (Node s t b (c # cs))" and cc: "compact (Node s t b (c # cs))"
    and r: "reordered L valid c c'"
  shows "reordered L valid (Node s t b (c # cs)) (Node s t b (c' # cs))"
proof -
  have "refits L c c'" using r by (intro refits_refl) (simp add: reordered_def)
  then have "wf_node L valid (Node s t b (c' # cs))" "supp L (Node s t b (c' # cs)) = supp L (Node s t b (c # cs))"
    using replace_child_same [OF n, of 0 c'] r by (simp_all add: reordered_def)
  moreover have "locally_compact c'" using cc r by (auto simp: reordered_def locally_compact_def)
  ultimately show ?thesis using cc r by (simp add: reordered_def)
qed

lemma prefer_from_reordered:
  assumes "wf_node L valid n" and "compact n" and "prefer_from L G n u it = (res, n')"
  shows "reordered L valid n n'"
  using assms
proof (induction L G n u it arbitrary: res n' rule: prefer_from.induct)
  case (1 L G s t b cs u it)
  have same: "reordered L valid (Node s t b cs) (Node s t b cs)"
    by (rule reordered_perm [OF "1.prems"(1,2) refl])
  obtain u1 it1 where add: "add_uncommitted (max (sp_start s + 1) G) u it = (u1, it1)" by fastforce
  obtain n2 u2 it2 where adv: "advance (sp_end s) b (sp_start s + 1) u1 it1 = (n2, u2, it2)"
    by (metis prod_cases3)
  show ?case
  proof (cases "n2 < sp_end s \<or> child_order L cs = []")
    case True
    then have "n' = Node s t b cs" using "1.prems"(3) add adv by (auto simp: prefer_from.simps split: if_splits)
    then show ?thesis using same by simp
  next
    case False
    then obtain best others where ord: "child_order L cs = best # others" by (cases "child_order L cs") auto
    have perm: "mset (best # others) = mset cs" using arg_cong [OF ord, of mset] by simp
    note o = reordered_perm [OF "1.prems"(1,2) perm]
    show ?thesis
    proof (cases "u2 < best_margin L best others \<or> u2 = 0")
      case go: False
      then have "n' = Node s t b (best # others)"
        using "1.prems"(3) add adv False ord by (simp add: prefer_from.simps)
      then show ?thesis using o by simp
    next
      case go: True
      obtain r b' where rec: "prefer_from L G best u2 it2 = (r, b')" by fastforce
      then have n': "n' = Node s t b (b' # others)"
        using "1.prems"(3) add adv False ord go by (simp add: prefer_from.simps)
      have w: "wf_node L valid (Node s t b (best # others))" "compact (Node s t b (best # others))"
        using o by (simp_all add: reordered_def)
      have "reordered L valid best b'"
        using "1.IH" [OF refl refl add [symmetric] refl adv [symmetric] refl _ ord go _ _ rec] w False by auto
      then have "reordered L valid (Node s t b (best # others)) n'" unfolding n' by (rule reordered_head [OF w])
      then show ?thesis using o by (auto simp: reordered_def)
    qed
  qed
qed

section \<open>The preferred ledger\<close>

context ledger_history
begin

lemma at_0: "valid a \<Longrightarrow> at_of L a 0 = id_of L (genesis_of L)"
  using mismatch_agree [of a "genesis_of L" 0] mismatch_pos [of a "genesis_of L"] genesis id_at [of "genesis_of L"]
  by simp

lemma full_hist_eq_iff:
  assumes "valid a" and "valid b"
  shows "full_hist L a = full_hist L b \<longleftrightarrow> id_of L a = id_of L b"
proof
  assume h: "full_hist L a = full_hist L b"
  then have "Suc (seq_of L a) = Suc (seq_of L b)" unfolding full_hist_def by (rule hist_inj_length)
  then have "seq_of L a = seq_of L b" by simp
  then show "id_of L a = id_of L b"
    using h id_at [OF assms(1)] id_at [OF assms(2)] by (simp add: full_hist_def hist_Suc)
next
  assume "id_of L a = id_of L b"
  then have e: "at_of L a (seq_of L a) = at_of L b (seq_of L b)" using id_at assms by simp
  then have s: "seq_of L a = seq_of L b" using unique_seq [OF assms] by simp
  then show "full_hist L a = full_hist L b"
    using unique_history [OF assms, of "seq_of L a"] e by (simp add: full_hist_def hist_eq_iff less_Suc_eq_le)
qed

lemma trie_empty_iff: "trie_inv L valid t \<Longrightarrow> trie_empty t \<longleftrightarrow> supp L (root t) = {#}"
  using branch_size [of L valid "root t"] by (simp add: trie_empty_def trie_inv_def)

lemma getPreferred_correct:
  assumes inv: "trie_inv L valid t" and r: "getPreferred L G t = (res, t')"
  shows "trie_inv L valid t'" and "supp L (root t') = supp L (root t)"
    and "case res of
        None \<Rightarrow> supp L (root t) = {#}
      | Some tip \<Rightarrow> supp L (root t) \<noteq> {#}
          \<and> (\<exists>w. stops_at (supp L (root t)) G [id_of L (genesis_of L)] w \<and> is_tip L tip w)"
proof -
  let ?R = "root t"
  have R: "wf_node L valid ?R" "seq_ok (seqSupport t) (supp L ?R)" "compact ?R" "n_start ?R = 0" "n_end ?R = 1"
    using inv by (simp_all add: trie_inv_def)
  have "trie_inv L valid t' \<and> supp L (root t') = supp L ?R \<and> (case res of
        None \<Rightarrow> supp L ?R = {#}
      | Some tip \<Rightarrow> supp L ?R \<noteq> {#}
          \<and> (\<exists>w. stops_at (supp L ?R) G [id_of L (genesis_of L)] w \<and> is_tip L tip w))"
  proof (cases "trie_empty t")
    case True
    then show ?thesis using r inv trie_empty_iff [OF inv] by (auto simp: getPreferred_def)
  next
    case False
    obtain tip n where pf: "prefer_from L G ?R 0 (seqSupport t) = (tip, n)" by fastforce
    have res: "res = Some tip" "t' = t\<lparr>root := n\<rparr>" using r False pf by (simp_all add: getPreferred_def)
    have "\<not> length h \<le> 0" if "h \<in># supp L ?R" for h using supp_through(1) [OF R(1) that] R(5) by auto
    then have "committed_below (supp L ?R) 0 = 0" by (simp add: committed_below_def filter_mset_none)
    then have "covers (seqSupport t) (supp L ?R) 0 0 (seqSupport t)" by (simp add: covers_def)
    then obtain w where "stops_at (supp L ?R) G (hist L (n_ledger ?R) (Suc 0)) w" "is_tip L tip w"
      using prefer_from_spec [OF R(1,2), of "[]" ?R 0 0 "seqSupport t" G tip n] R pf by auto
    moreover have "hist L (n_ledger ?R) (Suc 0) = [id_of L (genesis_of L)]"
      using at_0 wf_nodeD(1) [OF R(1)] by (simp add: hist_def)
    moreover note o = prefer_from_reordered [OF R(1,3) pf]
    have "trie_inv L valid t'" "supp L (root t') = supp L ?R"
      using o R by (auto simp: reordered_def trie_inv_def res)
    ultimately show ?thesis using False trie_empty_iff [OF inv] res by auto
  qed
  then show "trie_inv L valid t'" "supp L (root t') = supp L ?R"
    "case res of None \<Rightarrow> supp L ?R = {#}
      | Some tip \<Rightarrow> supp L ?R \<noteq> {#}
          \<and> (\<exists>w. stops_at (supp L ?R) G [id_of L (genesis_of L)] w \<and> is_tip L tip w)" by blast+
qed

lemma trie_new_inv: "trie_inv L valid (trie_new L)" and supp_trie_new: "supp L (root (trie_new L)) = {#}"
  using genesis by (simp_all add: trie_inv_def trie_new_def Span_genesis_def seq_ok_def seq_count_def)

end

end
