(* ===== verification/Validations.thy ===== *)
theory Validations
  imports LedgerTrie_Preferred
begin

text \<open>
  The store of ledger validations (\<^verbatim>\<open>consensus/Validations.h\<close>). The adaptor is the record
  \<open>val_env\<close> of what it answers during one call: the network time, the time of the steady clock and
  the ledgers that can be acquired. Network times are whole seconds, computed by the code in 64 bits
  (\<^verbatim>\<open>NetClock\<close> plus \<^verbatim>\<open>std::chrono::seconds\<close>), so integers here. A hash map is a key-sorted association
  list: its order stands for the unspecified iteration order. The mutex makes every public member
  function one atomic step.
\<close>

section \<open>Parameters, sequence enforcement and currency\<close>

type_synonym NodeID = "160 word"
type_synonym NodeKey = "8 word list"

record ValidationParms =
  validationCURRENT_WALL :: int
  validationCURRENT_LOCAL :: int
  validationCURRENT_EARLY :: int
  validationSET_EXPIRES :: int
  validationFRESHNESS :: int

definition default_ValidationParms :: ValidationParms where
  "default_ValidationParms = \<lparr>validationCURRENT_WALL = 5 * 60, validationCURRENT_LOCAL = 3 * 60,
     validationCURRENT_EARLY = 3 * 60, validationSET_EXPIRES = 10 * 60, validationFRESHNESS = 20\<rparr>"

record SeqEnforcer =
  enf_seq :: nat
  enf_when :: int

definition new_SeqEnforcer :: SeqEnforcer where
  "new_SeqEnforcer = \<lparr>enf_seq = 0, enf_when = 0\<rparr>"

definition enforce :: "ValidationParms \<Rightarrow> int \<Rightarrow> nat \<Rightarrow> SeqEnforcer \<Rightarrow> bool \<times> SeqEnforcer" where
  "enforce p now s e =
     (let e = (if now > enf_when e + validationSET_EXPIRES p then e\<lparr>enf_seq := 0\<rparr> else e)
      in if s \<le> enf_seq e then (False, e) else (True, \<lparr>enf_seq = s, enf_when = now\<rparr>))"

definition largest :: "SeqEnforcer \<Rightarrow> nat" where
  "largest e = enf_seq e"

definition isCurrent :: "ValidationParms \<Rightarrow> int \<Rightarrow> int \<Rightarrow> int \<Rightarrow> bool" where
  "isCurrent p now signTime seenTime \<longleftrightarrow>
     signTime > now - validationCURRENT_EARLY p
     \<and> signTime < now + validationCURRENT_WALL p
     \<and> (seenTime = 0 \<or> seenTime < now + validationCURRENT_LOCAL p)"

datatype ValStatus = current | stale | badSeq | multiple | conflicting

definition ValStatus_to_string :: "ValStatus \<Rightarrow> string" where
  "ValStatus_to_string m =
     (case m of current \<Rightarrow> ''current'' | stale \<Rightarrow> ''stale'' | badSeq \<Rightarrow> ''badSeq''
      | multiple \<Rightarrow> ''multiple'' | conflicting \<Rightarrow> ''conflicting'')"

record 'id validation =
  v_ledgerID :: 'id
  v_seq :: nat
  v_signTime :: int
  v_seenTime :: int
  v_key :: NodeKey
  v_trusted :: bool
  v_full :: bool
  v_cookie :: u64
  v_loadFee :: "u32 option"

section \<open>Aged maps\<close>

text \<open>
  \<^verbatim>\<open>beast::aged_unordered_map\<close>: every element carries the time it was inserted or last touched. Expiry
  takes elements off the front of the chronological list, which is sorted as the clock is steady.
\<close>

type_synonym ('k, 'v) aged = "('k, 'v \<times> int) smap"

definition aged_index :: "int \<Rightarrow> 'v \<Rightarrow> 'k::linorder \<Rightarrow> ('k, 'v) aged \<Rightarrow> 'v \<times> ('k, 'v) aged" where
  "aged_index now d k m =
     (case smap_find m k of Some (v, w) \<Rightarrow> (v, m) | None \<Rightarrow> (d, smap_put k (d, now) m))"

definition aged_set :: "'k::linorder \<Rightarrow> 'v \<Rightarrow> ('k, 'v) aged \<Rightarrow> ('k, 'v) aged" where
  "aged_set k v m = (case smap_find m k of Some (_, w) \<Rightarrow> smap_put k (v, w) m | None \<Rightarrow> m)"

definition aged_touch :: "int \<Rightarrow> 'k::linorder \<Rightarrow> ('k, 'v) aged \<Rightarrow> ('k, 'v) aged" where
  "aged_touch now k m = (case smap_find m k of Some (v, _) \<Rightarrow> smap_put k (v, now) m | None \<Rightarrow> m)"

definition aged_expire :: "int \<Rightarrow> int \<Rightarrow> ('k, 'v) aged \<Rightarrow> ('k, 'v) aged" where
  "aged_expire now age m = filter (\<lambda>(k, v, w). \<not> w \<le> now - age) m"

section \<open>State\<close>

type_synonym 'id val_map = "(NodeID, 'id validation) smap"
type_synonym node_set = "(NodeID, unit) smap"

record ('l, 'id) vals =
  current_vals :: "'id val_map"
  localSeqEnforcer :: SeqEnforcer
  seqEnforcers :: "(NodeID, SeqEnforcer) smap"
  byLedger_map :: "('id, 'id val_map) aged"
  bySequence_map :: "(nat, 'id val_map) aged"
  toKeep :: "nat option"
  vtrie :: "'l trie"
  lastLedger :: "(NodeID, 'l) smap"
  acquiring :: "(nat \<times> 'id, node_set) smap"
  parms :: ValidationParms

record ('l, 'id) val_env =
  env_now :: int
  env_clock :: int
  env_acquire :: "'id \<Rightarrow> 'l option"

definition new_Validations :: "('l, 'id) ledger_ops \<Rightarrow> ValidationParms \<Rightarrow> ('l, 'id) vals" where
  "new_Validations L p =
     \<lparr>current_vals = [], localSeqEnforcer = new_SeqEnforcer, seqEnforcers = [], byLedger_map = [],
      bySequence_map = [], toKeep = None, vtrie = trie_new L, lastLedger = [], acquiring = [],
      parms = p\<rparr>"

section \<open>Keeping the trie\<close>

text \<open>Both \<^verbatim>\<open>removeTrie\<close> and \<^verbatim>\<open>updateTrie\<close> take a node out of a set of nodes waiting for a ledger.\<close>

definition stop_acquiring :: "nat \<times> 'id::linorder \<Rightarrow> NodeID \<Rightarrow> ('l, 'id) vals \<Rightarrow> ('l, 'id) vals" where
  "stop_acquiring key nodeID st =
     (case smap_find (acquiring st) key of
        None \<Rightarrow> st
      | Some nodes \<Rightarrow>
          let nodes = smap_erase nodeID nodes
          in st\<lparr>acquiring := if nodes = [] then smap_erase key (acquiring st)
                              else smap_put key nodes (acquiring st)\<rparr>)"

definition removeTrie :: "('l, 'id::linorder) ledger_ops \<Rightarrow> NodeID \<Rightarrow> 'id validation
    \<Rightarrow> ('l, 'id) vals \<Rightarrow> ('l, 'id) vals" where
  "removeTrie L nodeID val st =
     (let st = stop_acquiring (v_seq val, v_ledgerID val) nodeID st
      in case smap_find (lastLedger st) nodeID of
           None \<Rightarrow> st
         | Some l \<Rightarrow>
             if id_of L l = v_ledgerID val
             then st\<lparr>vtrie := snd (trie_remove L l 1 (vtrie st)),
                     lastLedger := smap_erase nodeID (lastLedger st)\<rparr>
             else st)"

definition updateTrie_ledger :: "('l, 'id) ledger_ops \<Rightarrow> NodeID \<Rightarrow> 'l \<Rightarrow> ('l, 'id) vals \<Rightarrow> ('l, 'id) vals" where
  "updateTrie_ledger L nodeID ledger st =
     (let t = (case smap_find (lastLedger st) nodeID of
                 Some l \<Rightarrow> snd (trie_remove L l 1 (vtrie st))
               | None \<Rightarrow> vtrie st)
      in st\<lparr>lastLedger := smap_put nodeID ledger (lastLedger st), vtrie := trie_insert L ledger 1 t\<rparr>)"

fun checkAcquired_loop :: "('l, 'id::linorder) ledger_ops \<Rightarrow> ('l, 'id) val_env
    \<Rightarrow> ((nat \<times> 'id) \<times> node_set) list \<Rightarrow> ('l, 'id) vals \<Rightarrow> ('l, 'id) vals" where
  "checkAcquired_loop L env [] st = st"
| "checkAcquired_loop L env ((key, nodes) # it) st =
     (case env_acquire env (snd key) of
        Some ledger \<Rightarrow>
          let st = fold (\<lambda>(nodeID, _). updateTrie_ledger L nodeID ledger) nodes st
          in checkAcquired_loop L env it (st\<lparr>acquiring := smap_erase key (acquiring st)\<rparr>)
      | None \<Rightarrow> checkAcquired_loop L env it st)"

definition checkAcquired :: "('l, 'id::linorder) ledger_ops \<Rightarrow> ('l, 'id) val_env
    \<Rightarrow> ('l, 'id) vals \<Rightarrow> ('l, 'id) vals" where
  "checkAcquired L env st = checkAcquired_loop L env (acquiring st) st"

definition updateTrie :: "('l, 'id::linorder) ledger_ops \<Rightarrow> ('l, 'id) val_env \<Rightarrow> NodeID \<Rightarrow> 'id validation
    \<Rightarrow> (nat \<times> 'id) option \<Rightarrow> ('l, 'id) vals \<Rightarrow> ('l, 'id) vals" where
  "updateTrie L env nodeID val prior st =
     (let st = (case prior of Some p \<Rightarrow> stop_acquiring p nodeID st | None \<Rightarrow> st);
          st = checkAcquired L env st;
          valPair = (v_seq val, v_ledgerID val)
      in case smap_find (acquiring st) valPair of
           Some nodes \<Rightarrow> st\<lparr>acquiring := smap_put valPair (smap_put nodeID () nodes) (acquiring st)\<rparr>
         | None \<Rightarrow>
             (case env_acquire env (v_ledgerID val) of
                Some ledger \<Rightarrow> updateTrie_ledger L nodeID ledger st
              | None \<Rightarrow> st\<lparr>acquiring := smap_put valPair [(nodeID, ())] (acquiring st)\<rparr>))"

text \<open>
  \<^verbatim>\<open>current\<close>: flush the stale validations and fold \<open>f\<close> over the others, in the order of iteration.
\<close>

fun current_loop :: "('l, 'id::linorder) ledger_ops \<Rightarrow> ('l, 'id) val_env \<Rightarrow> (NodeID \<Rightarrow> 'id validation \<Rightarrow> 'a \<Rightarrow> 'a)
    \<Rightarrow> (NodeID \<times> 'id validation) list \<Rightarrow> ('l, 'id) vals \<times> 'a \<Rightarrow> ('l, 'id) vals \<times> 'a" where
  "current_loop L env f [] (st, acc) = (st, acc)"
| "current_loop L env f ((nodeID, val) # it) (st, acc) =
     (if \<not> isCurrent (parms st) (env_now env) (v_signTime val) (v_seenTime val)
      then (let st = removeTrie L nodeID val st
            in current_loop L env f it (st\<lparr>current_vals := smap_erase nodeID (current_vals st)\<rparr>, acc))
      else current_loop L env f it (st, f nodeID val acc))"

definition current_do :: "('l, 'id::linorder) ledger_ops \<Rightarrow> ('l, 'id) val_env \<Rightarrow> (NodeID \<Rightarrow> 'id validation \<Rightarrow> 'a \<Rightarrow> 'a)
    \<Rightarrow> 'a \<Rightarrow> ('l, 'id) vals \<Rightarrow> ('l, 'id) vals \<times> 'a" where
  "current_do L env f acc st = current_loop L env f (current_vals st) (st, acc)"

definition withTrie :: "('l, 'id::linorder) ledger_ops \<Rightarrow> ('l, 'id) val_env
    \<Rightarrow> ('l trie \<Rightarrow> 'a \<times> 'l trie) \<Rightarrow> ('l, 'id) vals \<Rightarrow> 'a \<times> ('l, 'id) vals" where
  "withTrie L env f st =
     (let st = fst (current_do L env (\<lambda>_ _ acc. acc) () st);
          st = checkAcquired L env st;
          (res, t) = f (vtrie st)
      in (res, st\<lparr>vtrie := t\<rparr>))"

definition byLedger :: "('l, 'id::linorder) val_env \<Rightarrow> 'id \<Rightarrow> (NodeID \<Rightarrow> 'id validation \<Rightarrow> 'a \<Rightarrow> 'a) \<Rightarrow> 'a
    \<Rightarrow> ('l, 'id) vals \<Rightarrow> ('l, 'id) vals \<times> 'a" where
  "byLedger env ledgerID f acc st =
     (case smap_find (byLedger_map st) ledgerID of
        None \<Rightarrow> (st, acc)
      | Some (vm, _) \<Rightarrow>
          (st\<lparr>byLedger_map := aged_touch (env_clock env) ledgerID (byLedger_map st)\<rparr>,
           fold (\<lambda>(key, val). f key val) vm acc))"

section \<open>Public operations\<close>

definition canValidateSeq :: "('l, 'id) val_env \<Rightarrow> nat \<Rightarrow> ('l, 'id) vals \<Rightarrow> bool \<times> ('l, 'id) vals" where
  "canValidateSeq env s st =
     (let (ok, e) = enforce (parms st) (env_clock env) s (localSeqEnforcer st)
      in (ok, st\<lparr>localSeqEnforcer := e\<rparr>))"

text \<open>The enforcer of a validator, made on its first use.\<close>

definition enforcer :: "('l, 'id) vals \<Rightarrow> NodeID \<Rightarrow> SeqEnforcer" where
  "enforcer st n = (case smap_find (seqEnforcers st) n of Some e \<Rightarrow> e | None \<Rightarrow> new_SeqEnforcer)"

text \<open>The entry of \<^verbatim>\<open>bySequence_\<close> that \<^verbatim>\<open>add\<close> works on, after it has possibly replaced an old one.\<close>

definition tracked :: "ValidationParms \<Rightarrow> 'id validation option \<Rightarrow> 'id validation \<Rightarrow> 'id validation" where
  "tracked p seqit val =
     (case seqit of
        None \<Rightarrow> val
      | Some old \<Rightarrow>
          let diff = max (v_signTime old) (v_signTime val) - min (v_signTime old) (v_signTime val)
          in if diff > validationCURRENT_WALL p \<and> v_signTime val > v_signTime old then val else old)"

text \<open>The rest of \<^verbatim>\<open>add\<close>, once the enforcer has let the sequence number pass.\<close>

definition add_enforced :: "('l, 'id::linorder) ledger_ops \<Rightarrow> ('l, 'id) val_env \<Rightarrow> NodeID \<Rightarrow> 'id validation
    \<Rightarrow> ('l, 'id) vals \<Rightarrow> ValStatus \<times> ('l, 'id) vals" where
  "add_enforced L env nodeID val st =
     (let (lm, byLed) = aged_index (env_clock env) [] (v_ledgerID val) (byLedger_map st);
          st = st\<lparr>byLedger_map := aged_set (v_ledgerID val) (smap_put nodeID val lm) byLed\<rparr>
      in case smap_find (current_vals st) nodeID of
           Some oldVal \<Rightarrow>
             if v_signTime val > v_signTime oldVal then
               (let st = st\<lparr>current_vals := smap_put nodeID val (current_vals st)\<rparr>
                in (current,
                    if v_trusted val
                    then updateTrie L env nodeID val (Some (v_seq oldVal, v_ledgerID oldVal)) st
                    else st))
             else (stale, st)
         | None \<Rightarrow>
             (let st = st\<lparr>current_vals := smap_put nodeID val (current_vals st)\<rparr>
              in (current, if v_trusted val then updateTrie L env nodeID val None st else st)))"

definition Validations_add :: "('l, 'id::linorder) ledger_ops \<Rightarrow> ('l, 'id) val_env \<Rightarrow> NodeID \<Rightarrow> 'id validation
    \<Rightarrow> ('l, 'id) vals \<Rightarrow> ValStatus \<times> ('l, 'id) vals" where
  "Validations_add L env nodeID val st =
     (if \<not> isCurrent (parms st) (env_now env) (v_signTime val) (v_seenTime val) then (stale, st)
      else
        let now = env_clock env;
            (vm, bySeq) = aged_index now [] (v_seq val) (bySequence_map st);
            seqit = tracked (parms st) (smap_find vm nodeID) val;
            (ok, enf) = enforce (parms st) now (v_seq val) (enforcer st nodeID);
            st = st\<lparr>bySequence_map := aged_set (v_seq val) (smap_put nodeID seqit vm) bySeq,
                    seqEnforcers := smap_put nodeID enf (seqEnforcers st)\<rparr>
        in if \<not> ok then
             (if v_seq seqit = v_seq val \<and> v_ledgerID seqit \<noteq> v_ledgerID val then conflicting
              else if v_seq seqit = v_seq val \<and> v_cookie seqit \<noteq> v_cookie val then multiple
              else badSeq, st)
           else add_enforced L env nodeID val st)"

definition setSeqToKeep :: "nat \<Rightarrow> ('l, 'id) vals \<Rightarrow> ('l, 'id) vals" where
  "setSeqToKeep s st = st\<lparr>toKeep := Some s\<rparr>"

definition Validations_expire :: "('l, 'id::linorder) val_env \<Rightarrow> ('l, 'id) vals \<Rightarrow> ('l, 'id) vals" where
  "Validations_expire env st =
     (let now = env_clock env;
          age = validationSET_EXPIRES (parms st);
          st = (case toKeep st of
                  None \<Rightarrow> st
                | Some keep \<Rightarrow>
                    st\<lparr>byLedger_map := map (\<lambda>(k, vm, w).
                          (k, vm, case vm of (_, v) # _ \<Rightarrow> if v_seq v \<ge> keep then now else w | [] \<Rightarrow> w))
                          (byLedger_map st),
                       bySequence_map := map (\<lambda>(k, vm, w). (k, vm, if k \<ge> keep then now else w))
                          (bySequence_map st)\<rparr>)
      in st\<lparr>byLedger_map := aged_expire now age (byLedger_map st),
            bySequence_map := aged_expire now age (bySequence_map st)\<rparr>)"

text \<open>The new trust of a validation: a node in both sets counts as added.\<close>

definition trust_update :: "NodeID set \<Rightarrow> NodeID set \<Rightarrow> NodeID \<Rightarrow> 'id validation \<Rightarrow> 'id validation" where
  "trust_update added removed nodeID val =
     (if nodeID \<in> added then val\<lparr>v_trusted := True\<rparr>
      else if nodeID \<in> removed then val\<lparr>v_trusted := False\<rparr> else val)"

fun trustChanged_loop :: "('l, 'id::linorder) ledger_ops \<Rightarrow> ('l, 'id) val_env \<Rightarrow> NodeID set \<Rightarrow> NodeID set
    \<Rightarrow> (NodeID \<times> 'id validation) list \<Rightarrow> ('l, 'id) vals \<Rightarrow> ('l, 'id) vals" where
  "trustChanged_loop L env added removed [] st = st"
| "trustChanged_loop L env added removed ((nodeID, val) # it) st =
     (let val' = trust_update added removed nodeID val;
          st = st\<lparr>current_vals := smap_put nodeID val' (current_vals st)\<rparr>;
          st = (if nodeID \<in> added then updateTrie L env nodeID val' None st
                else if nodeID \<in> removed then removeTrie L nodeID val' st
                else st)
      in trustChanged_loop L env added removed it st)"

definition trustChanged :: "('l, 'id::linorder) ledger_ops \<Rightarrow> ('l, 'id) val_env \<Rightarrow> NodeID set \<Rightarrow> NodeID set
    \<Rightarrow> ('l, 'id) vals \<Rightarrow> ('l, 'id) vals" where
  "trustChanged L env added removed st =
     (let st = trustChanged_loop L env added removed (current_vals st) st
      in st\<lparr>byLedger_map := map (\<lambda>(k, vm, w).
             (k, map (\<lambda>(nodeID, val). (nodeID, trust_update added removed nodeID val)) vm, w))
             (byLedger_map st)\<rparr>)"

text \<open>\<^verbatim>\<open>std::max_element\<close>: the first of the largest elements.\<close>

definition max_element :: "('a \<Rightarrow> 'a \<Rightarrow> bool) \<Rightarrow> 'a list \<Rightarrow> 'a option" where
  "max_element lt xs =
     (case xs of [] \<Rightarrow> None | x # xs \<Rightarrow> Some (fold (\<lambda>y best. if lt best y then y else best) xs x))"

definition preferred_acquiring :: "((nat \<times> 'id::linorder) \<times> node_set) list \<Rightarrow> (nat \<times> 'id) option" where
  "preferred_acquiring acq =
     map_option fst (max_element (\<lambda>(aKey, aNodes) (bKey, bNodes).
       (length aNodes, snd aKey) < (length bNodes, snd bKey)) acq)"

definition Validations_getPreferred :: "('l, 'id::linorder) ledger_ops \<Rightarrow> ('l, 'id) val_env \<Rightarrow> 'l
    \<Rightarrow> ('l, 'id) vals \<Rightarrow> (nat \<times> 'id) option \<times> ('l, 'id) vals" where
  "Validations_getPreferred L env curr_ledger st =
     (let (preferred, st) = withTrie L env (getPreferred L (largest (localSeqEnforcer st))) st;
          mine = (seq_of L curr_ledger, id_of L curr_ledger)
      in case preferred of
           None \<Rightarrow> (preferred_acquiring (acquiring st), st)
         | Some tip \<Rightarrow>
             (Some (if tip_seq tip = seq_of L curr_ledger + 1
                       \<and> SpanTip_ancestor L tip (seq_of L curr_ledger) = id_of L curr_ledger then mine
                    else if tip_seq tip > seq_of L curr_ledger then (tip_seq tip, tip_id tip)
                    else if at_of L curr_ledger (tip_seq tip) \<noteq> tip_id tip then (tip_seq tip, tip_id tip)
                    else mine), st))"

definition getPreferred_min :: "('l, 'id::linorder) ledger_ops \<Rightarrow> ('l, 'id) val_env \<Rightarrow> 'l \<Rightarrow> nat
    \<Rightarrow> ('l, 'id) vals \<Rightarrow> 'id \<times> ('l, 'id) vals" where
  "getPreferred_min L env curr_ledger minValidSeq st =
     (let (preferred, st) = Validations_getPreferred L env curr_ledger st
      in (case preferred of
            Some (s, i) \<Rightarrow> if s \<ge> minValidSeq then i else id_of L curr_ledger
          | None \<Rightarrow> id_of L curr_ledger, st))"

definition getPreferredLCL :: "('l, 'id::linorder) ledger_ops \<Rightarrow> ('l, 'id) val_env \<Rightarrow> 'l \<Rightarrow> nat \<Rightarrow> ('id \<times> nat) list
    \<Rightarrow> ('l, 'id) vals \<Rightarrow> 'id \<times> ('l, 'id) vals" where
  "getPreferredLCL L env lcl minSq peerCounts st =
     (let (preferred, st) = Validations_getPreferred L env lcl st
      in (case preferred of
            Some (s, i) \<Rightarrow> if s \<ge> minSq then i else id_of L lcl
          | None \<Rightarrow>
              (case max_element (\<lambda>(ai, ac) (bi, bc). (ac, ai) < (bc, bi)) peerCounts of
                 Some (i, _) \<Rightarrow> i
               | None \<Rightarrow> id_of L lcl), st))"

definition getNodesAfter :: "('l, 'id::linorder) ledger_ops \<Rightarrow> ('l, 'id) val_env \<Rightarrow> 'l \<Rightarrow> 'id
    \<Rightarrow> ('l, 'id) vals \<Rightarrow> nat \<times> ('l, 'id) vals" where
  "getNodesAfter L env ledger ledgerID st =
     (if id_of L ledger = ledgerID
      then withTrie L env (\<lambda>t. (trie_branchSupport L ledger t - trie_tipSupport L ledger t, t)) st
      else (length (filter (\<lambda>(_, l). seq_of L l > 0 \<and> at_of L l (seq_of L l - 1) = ledgerID) (lastLedger st)), st))"

definition currentTrusted :: "('l, 'id::linorder) ledger_ops \<Rightarrow> ('l, 'id) val_env
    \<Rightarrow> ('l, 'id) vals \<Rightarrow> ('l, 'id) vals \<times> 'id validation list" where
  "currentTrusted L env st =
     current_do L env (\<lambda>_ v ret. if v_trusted v \<and> v_full v then ret @ [v] else ret) [] st"

definition getCurrentNodeIDs :: "('l, 'id::linorder) ledger_ops \<Rightarrow> ('l, 'id) val_env
    \<Rightarrow> ('l, 'id) vals \<Rightarrow> ('l, 'id) vals \<times> NodeID set" where
  "getCurrentNodeIDs L env st = current_do L env (\<lambda>nid _ ret. insert nid ret) {} st"

definition numTrustedForLedger :: "('l, 'id::linorder) val_env \<Rightarrow> 'id \<Rightarrow> ('l, 'id) vals
    \<Rightarrow> ('l, 'id) vals \<times> nat" where
  "numTrustedForLedger env ledgerID st =
     byLedger env ledgerID (\<lambda>_ v n. if v_trusted v \<and> v_full v then n + 1 else n) 0 st"

definition getTrustedForLedger :: "('l, 'id::linorder) val_env \<Rightarrow> 'id \<Rightarrow> ('l, 'id) vals
    \<Rightarrow> ('l, 'id) vals \<times> 'id validation list" where
  "getTrustedForLedger env ledgerID st =
     byLedger env ledgerID (\<lambda>_ v res. if v_trusted v \<and> v_full v then res @ [v] else res) [] st"

definition Validations_fees :: "('l, 'id::linorder) val_env \<Rightarrow> 'id \<Rightarrow> u32 \<Rightarrow> ('l, 'id) vals
    \<Rightarrow> ('l, 'id) vals \<times> u32 list" where
  "Validations_fees env ledgerID baseFee st =
     byLedger env ledgerID (\<lambda>_ v res.
       if v_trusted v \<and> v_full v
       then res @ [case v_loadFee v of Some fee \<Rightarrow> fee | None \<Rightarrow> baseFee] else res) [] st"

definition Validations_flush :: "('l, 'id) vals \<Rightarrow> ('l, 'id) vals" where
  "Validations_flush st = st\<lparr>current_vals := []\<rparr>"

definition laggards :: "('l, 'id::linorder) ledger_ops \<Rightarrow> ('l, 'id) val_env \<Rightarrow> nat \<Rightarrow> NodeKey set
    \<Rightarrow> ('l, 'id) vals \<Rightarrow> ('l, 'id) vals \<times> NodeKey set \<times> nat" where
  "laggards L env sq trustedKeys st =
     current_do L env (\<lambda>_ v (keys, n).
       if env_now env < v_seenTime v + validationFRESHNESS (parms st) \<and> v_key v \<in> keys
       then (keys - {v_key v}, if sq > v_seq v then n + 1 else n) else (keys, n)) (trustedKeys, 0) st"

end
