(* ===== verification/RCLValidatedLedger.thy ===== *)
theory RCLValidatedLedger
  imports LedgerTrie_Preferred
begin

text \<open>
  The ledger type of the validators' trie (\<^verbatim>\<open>app/consensus/RCLValidations.cpp\<close>): an identifier, a
  sequence number and the identifiers of the ancestors that the ledger's skip list has. The
  contract of the trie is discharged for ledgers with a complete skip list, and the properties of
  the trie are stated for it.
\<close>

section \<open>Model\<close>

record rcl_ledger =
  ledgerID :: uint256
  ledgerSeq :: nat
  ancestors :: "uint256 list"

definition MakeGenesis :: rcl_ledger where
  "MakeGenesis = \<lparr>ledgerID = 0, ledgerSeq = 0, ancestors = []\<rparr>"

text \<open>The constructor from a ledger: its hash, its sequence number and the hashes of the skip list, if any.\<close>

definition RCLValidatedLedger :: "uint256 \<Rightarrow> nat \<Rightarrow> uint256 list option \<Rightarrow> rcl_ledger" where
  "RCLValidatedLedger hash sq hashIndex =
     \<lparr>ledgerID = hash, ledgerSeq = sq,
      ancestors = (case hashIndex of Some hashes \<Rightarrow> hashes | None \<Rightarrow> [])\<rparr>"

definition minSeq :: "rcl_ledger \<Rightarrow> nat" where
  "minSeq a = ledgerSeq a - min (ledgerSeq a) (length (ancestors a))"

definition idAt :: "rcl_ledger \<Rightarrow> nat \<Rightarrow> uint256" where
  "idAt a s =
     (if minSeq a \<le> s \<and> s \<le> ledgerSeq a then
        (if s = ledgerSeq a then ledgerID a
         else ancestors a ! (length (ancestors a) - (ledgerSeq a - s)))
      else 0)"

fun mismatch_loop :: "rcl_ledger \<Rightarrow> rcl_ledger \<Rightarrow> nat \<Rightarrow> nat \<Rightarrow> nat" where
  "mismatch_loop a b lower 0 = 0"
| "mismatch_loop a b lower (Suc cur) =
     (if idAt a (Suc cur) \<noteq> idAt b (Suc cur) \<and> lower \<le> Suc cur
      then mismatch_loop a b lower cur else Suc cur)"

definition mismatch :: "rcl_ledger \<Rightarrow> rcl_ledger \<Rightarrow> nat" where
  "mismatch a b =
     (let lower = max (minSeq a) (minSeq b);
          upper = min (ledgerSeq a) (ledgerSeq b);
          cur = mismatch_loop a b lower upper
      in if cur < lower then 1 else cur + 1)"

definition rcl_ops :: "(rcl_ledger, uint256) ledger_ops" where
  "rcl_ops = \<lparr>seq_of = ledgerSeq, id_of = ledgerID, at_of = idAt, mismatch_of = mismatch,
              genesis_of = MakeGenesis\<rparr>"

section \<open>Ledgers with a complete skip list\<close>

text \<open>
  \<open>hdr\<close> is the header a ledger hash stands for: its sequence number and the hash of its parent. A
  ledger is complete for \<open>hdr\<close> when its skip list reaches back to the first ledger, and every
  identifier is not zero and has the sequence number and the parent that its header says.
\<close>

definition complete_ledger :: "(uint256 \<Rightarrow> nat \<times> uint256) \<Rightarrow> rcl_ledger \<Rightarrow> bool" where
  "complete_ledger hdr a \<longleftrightarrow>
     (ledgerSeq a = 0 \<longrightarrow> ledgerID a = 0)
     \<and> length (ancestors a) = ledgerSeq a - 1
     \<and> (\<forall>s < ledgerSeq a. idAt a (Suc s) \<noteq> 0
          \<and> fst (hdr (idAt a (Suc s))) = Suc s \<and> snd (hdr (idAt a (Suc s))) = idAt a s)"

lemma complete_at_0:
  assumes "complete_ledger hdr a"
  shows "idAt a 0 = 0"
proof (cases "ledgerSeq a")
  case 0
  then show ?thesis using assms by (simp add: complete_ledger_def idAt_def)
next
  case (Suc k)
  then have "minSeq a = 1" using assms by (simp add: complete_ledger_def minSeq_def)
  then show ?thesis by (simp add: idAt_def)
qed

lemma complete_hdr:
  "complete_ledger hdr a \<Longrightarrow> s \<le> ledgerSeq a \<Longrightarrow> s \<noteq> 0 \<Longrightarrow> idAt a s \<noteq> 0 \<and> fst (hdr (idAt a s)) = s"
  by (cases s) (simp_all add: complete_ledger_def)

lemma complete_seq:
  assumes "complete_ledger hdr a" and "complete_ledger hdr b" and "p \<le> ledgerSeq a" and "q \<le> ledgerSeq b"
    and "idAt a p = idAt b q"
  shows "p = q"
  using complete_hdr [OF assms(1,3)] complete_hdr [OF assms(2,4)] assms(5)
    complete_at_0 [OF assms(1)] complete_at_0 [OF assms(2)]
  by (cases "p = 0"; cases "q = 0") auto

lemma complete_parent: "complete_ledger hdr a \<Longrightarrow> Suc s \<le> ledgerSeq a \<Longrightarrow> snd (hdr (idAt a (Suc s))) = idAt a s"
  by (simp add: complete_ledger_def)

lemma complete_minSeq: "complete_ledger hdr a \<Longrightarrow> minSeq a \<le> 1"
  by (simp add: complete_ledger_def minSeq_def)

lemma complete_unique:
  assumes "complete_ledger hdr a" and "complete_ledger hdr b" and "p \<le> ledgerSeq a" and "p \<le> ledgerSeq b"
    and "idAt a p = idAt b p" and "q \<le> p"
  shows "idAt a q = idAt b q"
  using assms(6,3-5)
proof (induction p rule: dec_induct)
  case (step p)
  then show ?case using complete_parent [OF assms(1), of p] complete_parent [OF assms(2), of p] by simp
qed simp

text \<open>The loop of \<^verbatim>\<open>mismatch\<close> runs down to the last ledger in common.\<close>

lemma mismatch_loop_spec:
  assumes "lower \<le> 1"
  shows "mismatch_loop a b lower n \<le> n"
    and "mismatch_loop a b lower n = 0 \<or> idAt a (mismatch_loop a b lower n) = idAt b (mismatch_loop a b lower n)"
    and "mismatch_loop a b lower n < j \<Longrightarrow> j \<le> n \<Longrightarrow> idAt a j \<noteq> idAt b j"
  using assms by (induction n) (auto simp: le_Suc_eq split: if_splits)

lemma mismatch_complete:
  assumes "complete_ledger hdr a" and "complete_ledger hdr b"
  obtains k where "mismatch a b = Suc k" and "k \<le> min (ledgerSeq a) (ledgerSeq b)"
    and "idAt a k = idAt b k" and "\<And>j. k < j \<Longrightarrow> j \<le> min (ledgerSeq a) (ledgerSeq b) \<Longrightarrow> idAt a j \<noteq> idAt b j"
proof -
  let ?lower = "max (minSeq a) (minSeq b)" and ?n = "min (ledgerSeq a) (ledgerSeq b)"
  let ?k = "mismatch_loop a b ?lower ?n"
  have l: "?lower \<le> 1" using complete_minSeq assms by simp
  note s = mismatch_loop_spec [OF l]
  have "mismatch a b = Suc ?k" using l by (auto simp: mismatch_def Let_def)
  moreover have "idAt a ?k = idAt b ?k" using s(2) [of a b ?n] complete_at_0 assms by metis
  ultimately show ?thesis using that s(1,3) by blast
qed

interpretation rcl: ledger_history rcl_ops "complete_ledger hdr" for hdr
proof
  show "complete_ledger hdr (genesis_of rcl_ops)" "seq_of rcl_ops (genesis_of rcl_ops) = 0"
    by (simp_all add: rcl_ops_def MakeGenesis_def complete_ledger_def)
  fix a b p q
  show "id_of rcl_ops a = at_of rcl_ops a (seq_of rcl_ops a)"
    by (simp add: rcl_ops_def idAt_def minSeq_def)
  assume v: "complete_ledger hdr a" "complete_ledger hdr b"
  obtain k where k: "mismatch a b = Suc k" "k \<le> min (ledgerSeq a) (ledgerSeq b)" "idAt a k = idAt b k"
    "\<And>j. k < j \<Longrightarrow> j \<le> min (ledgerSeq a) (ledgerSeq b) \<Longrightarrow> idAt a j \<noteq> idAt b j"
    using mismatch_complete [OF v] by metis
  show "0 < mismatch_of rcl_ops a b"
    "mismatch_of rcl_ops a b \<le> Suc (min (seq_of rcl_ops a) (seq_of rcl_ops b))"
    using k(1,2) by (simp_all add: rcl_ops_def)
  show "at_of rcl_ops a p = at_of rcl_ops b p" if "p < mismatch_of rcl_ops a b"
    using complete_unique [OF v _ _ k(3), of p] k(1,2) that by (simp add: rcl_ops_def)
  show "at_of rcl_ops a (mismatch_of rcl_ops a b) \<noteq> at_of rcl_ops b (mismatch_of rcl_ops a b)"
    if "mismatch_of rcl_ops a b \<le> min (seq_of rcl_ops a) (seq_of rcl_ops b)"
    using k(1) k(4) [of "Suc k"] that by (simp add: rcl_ops_def)
  show "p = q" if "p \<le> seq_of rcl_ops a" "q \<le> seq_of rcl_ops b" "at_of rcl_ops a p = at_of rcl_ops b q"
    using complete_seq [OF v, of p q] that by (simp add: rcl_ops_def)
  show "at_of rcl_ops a q = at_of rcl_ops b q"
    if "p \<le> seq_of rcl_ops a" "p \<le> seq_of rcl_ops b" "at_of rcl_ops a p = at_of rcl_ops b p" "q \<le> p"
    using complete_unique [OF v, of p q] that by (simp add: rcl_ops_def)
qed

section \<open>Runs of the trie\<close>

text \<open>
  The tries that the operations reach, each with the multiset of ledger histories it stands for:
  the abstract state is only added to and subtracted from.
\<close>

inductive trie_run :: "(uint256 \<Rightarrow> nat \<times> uint256) \<Rightarrow> rcl_ledger trie \<Rightarrow> uint256 list multiset \<Rightarrow> bool"
  for hdr where
  new: "trie_run hdr (trie_new rcl_ops) {#}"
| inserted: "trie_run hdr t M \<Longrightarrow> complete_ledger hdr l \<Longrightarrow> 0 < k \<Longrightarrow>
    trie_run hdr (trie_insert rcl_ops l k t) (M + replicate_mset k (full_hist rcl_ops l))"
| removed: "trie_run hdr t M \<Longrightarrow> complete_ledger hdr l \<Longrightarrow> 0 < k \<Longrightarrow>
    trie_remove rcl_ops l k t = (res, t') \<Longrightarrow>
    trie_run hdr t' (M - replicate_mset k (full_hist rcl_ops l))"
| preferred: "trie_run hdr t M \<Longrightarrow> getPreferred rcl_ops G t = (tip, t') \<Longrightarrow> trie_run hdr t' M"

lemma trie_run_inv:
  assumes "trie_run hdr t M"
  shows "trie_inv rcl_ops (complete_ledger hdr) t" and "supp rcl_ops (root t) = M"
proof -
  have "trie_inv rcl_ops (complete_ledger hdr) t \<and> supp rcl_ops (root t) = M"
    using assms
  proof induction
    case new
    then show ?case using rcl.trie_new_inv rcl.supp_trie_new by blast
  next
    case (inserted t M l k)
    then show ?case using rcl.trie_insert_correct by blast
  next
    case (removed t M l k res t')
    then show ?case using rcl.trie_remove_correct(1,2) [of hdr t l k res t'] by blast
  next
    case (preferred t M G tip t')
    then show ?case using rcl.getPreferred_correct(1,2) [of hdr t G tip t'] by simp
  qed
  then show "trie_inv rcl_ops (complete_ledger hdr) t" "supp rcl_ops (root t) = M" by blast+
qed

lemma trie_run_preferred:
  assumes "trie_run hdr t M" and "getPreferred rcl_ops G t = (res, t')"
  shows "case res of None \<Rightarrow> M = {#}
    | Some tip \<Rightarrow> M \<noteq> {#} \<and> (\<exists>w. stops_at M G [0] w \<and> is_tip rcl_ops tip w)"
proof -
  have g: "id_of rcl_ops (genesis_of rcl_ops) = 0" by (simp add: rcl_ops_def MakeGenesis_def)
  show ?thesis
    using rcl.getPreferred_correct(3) [OF trie_run_inv(1) [OF assms(1)] assms(2)]
    unfolding trie_run_inv(2) [OF assms(1)] g .
qed

lemma prefers_unique:
  assumes "prefers M G w x" and "prefers M G w y"
  shows "x = y"
proof (rule ccontr)
  assume ne: "x \<noteq> y"
  have "(branch_of M (w @ [y]), y) < (branch_of M (w @ [x]), x)"
    using assms ne by (metis prefers_def)
  moreover have "(branch_of M (w @ [x]), x) < (branch_of M (w @ [y]), y)"
    using assms ne by (metis prefers_def)
  ultimately show False by (rule less_asym)
qed

lemma preferred_step_unique: "preferred_step M G w v \<Longrightarrow> preferred_step M G w v' \<Longrightarrow> v = v'"
  by (auto simp: preferred_step_def dest: prefers_unique)

lemma stops_at_unique:
  assumes "stops_at M G w v" and "stops_at M G w v'"
  shows "v = v'"
proof -
  have "(preferred_step M G)\<^sup>*\<^sup>* w v" "\<forall>u. \<not> preferred_step M G v u" using assms(1) by (auto simp: stops_at_def)
  then show ?thesis
    using assms(2)
  proof (induction rule: converse_rtranclp_induct)
    case base
    then have "(preferred_step M G)\<^sup>*\<^sup>* v v'" by (simp add: stops_at_def)
    then show ?case using base(1) by (cases rule: converse_rtranclpE) auto
  next
    case (step w u)
    have "(preferred_step M G)\<^sup>*\<^sup>* w v'" "\<forall>u. \<not> preferred_step M G v' u"
      using step.prems(2) by (simp_all add: stops_at_def)
    then have "(preferred_step M G)\<^sup>*\<^sup>* u v'"
      by (cases rule: converse_rtranclpE) (use step.hyps(1) preferred_step_unique in blast)+
    then have "stops_at M G u v'" using step.prems(2) by (simp add: stops_at_def)
    then show ?case by (rule step.IH [OF step.prems(1)])
  qed
qed

section \<open>A sample\<close>

text \<open>Two ledgers with a common parent, one with twice the support of the other.\<close>

definition sample_hdr :: "uint256 \<Rightarrow> nat \<times> uint256" where
  "sample_hdr i = (if i = 10 then (1, 0) else (2, 10))"

definition sample_a :: rcl_ledger where "sample_a = RCLValidatedLedger 10 1 None"
definition sample_b :: rcl_ledger where "sample_b = RCLValidatedLedger 20 2 (Some [10])"
definition sample_c :: rcl_ledger where "sample_c = RCLValidatedLedger 30 2 (Some [10])"

definition sample_trie :: "rcl_ledger trie" where
  "sample_trie = trie_insert rcl_ops sample_b 2 (trie_insert rcl_ops sample_c 1 (trie_new rcl_ops))"

definition sample_support :: "uint256 list multiset" where
  "sample_support = {#[0, 10, 20], [0, 10, 20], [0, 10, 30]#}"

lemma sample_complete:
  "complete_ledger sample_hdr sample_a" "complete_ledger sample_hdr sample_b" "complete_ledger sample_hdr sample_c"
  by code_simp+

lemma sample_hist:
  "full_hist rcl_ops sample_a = [0, 10]" "full_hist rcl_ops sample_b = [0, 10, 20]"
  "full_hist rcl_ops sample_c = [0, 10, 30]"
  by code_simp+

lemma sample_run: "trie_run sample_hdr sample_trie sample_support"
  using trie_run.inserted [OF trie_run.inserted [OF trie_run.new sample_complete(3), of 1] sample_complete(2), of 2]
  by (simp add: sample_trie_def sample_support_def sample_hist numeral_2_eq_2)

section \<open>Properties\<close>









end
