(* ===== verification/Validations_Correct.thy ===== *)
theory Validations_Correct
  imports Validations RCLValidatedLedger
begin

text \<open>
  Correctness of the store of validations. The invariant ties the trie to the map of the last
  acquired ledger of every validator: the trie stands for exactly one history per validator. It is
  proved for every ledger type that keeps the contract of the trie, and used for the one of the
  validators.
\<close>

section \<open>Sequence enforcement\<close>

text \<open>What the trie keeps to itself: its updates change no other part of the store.\<close>

definition same_books :: "('l, 'id) vals \<Rightarrow> ('l, 'id) vals \<Rightarrow> bool" where
  "same_books st st' \<longleftrightarrow> seqEnforcers st' = seqEnforcers st \<and> parms st' = parms st
     \<and> bySequence_map st' = bySequence_map st \<and> byLedger_map st' = byLedger_map st
     \<and> current_vals st' = current_vals st"

lemma same_books_trans: "same_books a b \<Longrightarrow> same_books b c \<Longrightarrow> same_books a c"
  by (simp add: same_books_def)

lemma same_books_refl [simp]: "same_books st st"
  by (simp add: same_books_def)

lemma same_books_acquiring [simp]: "same_books st (st'\<lparr>acquiring := a\<rparr>) \<longleftrightarrow> same_books st st'"
  by (simp add: same_books_def)

lemma stop_acquiring_books: "same_books st (stop_acquiring key n st)"
  by (auto simp: stop_acquiring_def same_books_def Let_def split: option.split)

lemma updateTrie_ledger_books: "same_books st (updateTrie_ledger L n l st)"
  by (simp add: updateTrie_ledger_def same_books_def Let_def)

lemma updateTrie_fold_books:
  "same_books st (fold (\<lambda>(nodeID, _). updateTrie_ledger L nodeID l) nodes st)"
proof (induction nodes arbitrary: st)
  case (Cons e nodes)
  obtain n u where "e = (n, u)" by fastforce
  then show ?case using same_books_trans [OF updateTrie_ledger_books Cons.IH] by simp
qed (simp add: same_books_def)

lemma checkAcquired_loop_books: "same_books st (checkAcquired_loop L env it st)"
proof (induction L env it st rule: checkAcquired_loop.induct)
  case (2 L env key nodes it st)
  show ?case
  proof (cases "env_acquire env (snd key)")
    case (Some l)
    have "same_books st ((fold (\<lambda>(nodeID, _). updateTrie_ledger L nodeID l) nodes st)\<lparr>acquiring := a\<rparr>)" for a
      by (simp add: updateTrie_fold_books)
    from same_books_trans [OF this 2(2) [OF Some refl]] show ?thesis using Some by (simp add: Let_def)
  qed (use 2 in simp)
qed simp

lemma updateTrie_books: "same_books st (updateTrie L env n val prior st)"
proof -
  let ?s1 = "case prior of Some p \<Rightarrow> stop_acquiring p n st | None \<Rightarrow> st"
  have "same_books st (checkAcquired L env ?s1)"
    unfolding checkAcquired_def
    by (rule same_books_trans [OF _ checkAcquired_loop_books]) (simp add: stop_acquiring_books split: option.split)
  then show ?thesis
    using same_books_trans [OF _ updateTrie_ledger_books]
    by (auto simp: updateTrie_def Let_def split: option.split)
qed

lemma add_enforcer:
  fixes st :: "('l, 'id::linorder) vals"
  shows "parms (snd (Validations_add L env m val st)) = parms st" (is ?p)
    and "enforcer (snd (Validations_add L env m val st)) n =
      (if m = n \<and> isCurrent (parms st) (env_now env) (v_signTime val) (v_seenTime val)
       then snd (enforce (parms st) (env_clock env) (v_seq val) (enforcer st n)) else enforcer st n)" (is ?e)
    and "fst (Validations_add L env m val st) = current \<Longrightarrow>
      isCurrent (parms st) (env_now env) (v_signTime val) (v_seenTime val)
      \<and> fst (enforce (parms st) (env_clock env) (v_seq val) (enforcer st m))"
proof -
  have u: "seqEnforcers (updateTrie L env m val prior s) = seqEnforcers s"
      "parms (updateTrie L env m val prior s) = parms s" for m prior and s :: "('l, 'id) vals"
    using updateTrie_books [of s L env m val prior] unfolding same_books_def by blast+
  have a: "seqEnforcers (snd (add_enforced L env m val s)) = seqEnforcers s"
      "parms (snd (add_enforced L env m val s)) = parms s" for m and s :: "('l, 'id) vals"
    by (simp_all add: add_enforced_def Let_def case_prod_beta u split: option.split)
  let ?c = "isCurrent (parms st) (env_now env) (v_signTime val) (v_seenTime val)"
  show ?p
    by (simp add: Validations_add_def Let_def case_prod_beta a)
  have ae: "enforcer (snd (add_enforced L env m val s)) n = enforcer s n" for m and s :: "('l, 'id) vals"
    by (simp add: enforcer_def a)
  have up: "enforcer (st\<lparr>bySequence_map := x, seqEnforcers := smap_put m e (seqEnforcers st)\<rparr>) n
      = (if m = n then e else enforcer st n)" for x e m
    by (simp add: enforcer_def smap_find_put)
  show ?e
    by (simp add: Validations_add_def Let_def case_prod_beta ae up)
  show "?c \<and> fst (enforce (parms st) (env_clock env) (v_seq val) (enforcer st m))"
    if r: "fst (Validations_add L env m val st) = current"
  proof -
    have c: ?c using r by (rule contrapos_pp) (simp add: Validations_add_def)
    have "fst (enforce (parms st) (env_clock env) (v_seq val) (enforcer st m))"
      using r by (rule contrapos_pp) (simp add: Validations_add_def Let_def case_prod_beta)
    with c show ?thesis ..
  qed
qed

lemma enforce_fresh:
  assumes "\<not> now > enf_when e + validationSET_EXPIRES p"
  shows "enforce p now s e = (if s \<le> enf_seq e then (False, e) else (True, \<lparr>enf_seq = s, enf_when = now\<rparr>))"
  using assms by (simp add: enforce_def)

lemma enforce_True:
  "fst (enforce p now s e) \<Longrightarrow> snd (enforce p now s e) = \<lparr>enf_seq = s, enf_when = now\<rparr>"
  by (simp add: enforce_def Let_def split: if_splits)

text \<open>The answers of the store to a sequence of validations, each with its adaptor and its validator.\<close>

type_synonym ('l, 'id) add_call = "('l, 'id) val_env \<times> NodeID \<times> 'id validation"

abbreviation call_time :: "('l, 'id) add_call \<Rightarrow> int" where "call_time c \<equiv> env_clock (fst c)"
abbreviation call_node :: "('l, 'id) add_call \<Rightarrow> NodeID" where "call_node c \<equiv> fst (snd c)"
abbreviation call_seq :: "('l, 'id) add_call \<Rightarrow> nat" where "call_seq c \<equiv> v_seq (snd (snd c))"

primrec add_run :: "('l, 'id::linorder) ledger_ops \<Rightarrow> ('l, 'id) add_call list \<Rightarrow> ('l, 'id) vals \<Rightarrow> ValStatus list" where
  "add_run L [] st = []"
| "add_run L (c # calls) st =
     (let r = Validations_add L (fst c) (fst (snd c)) (snd (snd c)) st in fst r # add_run L calls (snd r))"

text \<open>Within the expiry time of the last accepted validation, only larger sequence numbers are accepted.\<close>

lemma add_run_above:
  assumes "sorted (enf_when (enforcer st n) # map call_time calls)" and "j < length calls"
    and "call_time (calls ! j) \<le> enf_when (enforcer st n) + validationSET_EXPIRES (parms st)"
    and "call_node (calls ! j) = n" and "add_run L calls st ! j = current"
  shows "enf_seq (enforcer st n) < call_seq (calls ! j)"
  using assms
proof (induction calls arbitrary: st j)
  case (Cons c calls)
  obtain env m val where c: "c = (env, m, val)" by (cases c)
  let ?e = "enforcer st n" and ?st = "snd (Validations_add L env m val st)"
  have "env_clock env \<le> call_time ((c # calls) ! j)" using Cons.prems(1,2) c by (cases j) auto
  then have n: "enforce (parms st) (env_clock env) s ?e =
      (if s \<le> enf_seq ?e then (False, ?e) else (True, \<lparr>enf_seq = s, enf_when = env_clock env\<rparr>))" for s
    using Cons.prems(3) by (intro enforce_fresh) simp
  have w: "enf_when ?e \<le> enf_when (enforcer ?st n)" "enf_seq ?e \<le> enf_seq (enforcer ?st n)"
      "enf_when (enforcer ?st n) \<le> env_clock env"
    using Cons.prems(1) n c by (auto simp: add_enforcer(2))
  show ?case
  proof (cases j)
    case 0
    then have "m = n" "fst (Validations_add L env m val st) = current"
      using Cons.prems(4,5) c by (simp_all add: Let_def)
    then have "fst (enforce (parms st) (env_clock env) (v_seq val) ?e)" using add_enforcer(3) by blast
    then show ?thesis using n c 0 by (simp split: if_splits)
  next
    case (Suc i)
    have "sorted (enf_when (enforcer ?st n) # map call_time calls)" using Cons.prems(1) w(3) c by auto
    then have "enf_seq (enforcer ?st n) < call_seq (calls ! i)"
      using Cons.IH [of ?st i] Cons.prems(2-5) Suc c w(1) by (simp add: Let_def add_enforcer(1))
    then show ?thesis using w(2) Suc by simp
  qed
qed simp

lemma add_run_increasing:
  assumes "sorted (map call_time calls)" and "i < j" and "j < length calls"
    and "add_run L calls st ! i = current" and "add_run L calls st ! j = current"
    and "call_node (calls ! i) = call_node (calls ! j)"
    and "call_time (calls ! j) \<le> call_time (calls ! i) + validationSET_EXPIRES (parms st)"
  shows "call_seq (calls ! i) < call_seq (calls ! j)"
  using assms
proof (induction calls arbitrary: st i j)
  case (Cons c calls)
  obtain env m val where c: "c = (env, m, val)" by (cases c)
  obtain j' where j: "j = Suc j'" using Cons.prems(2) by (cases j) auto
  let ?st = "snd (Validations_add L env m val st)"
  show ?case
  proof (cases i)
    case 0
    then have r: "fst (Validations_add L env m val st) = current" using Cons.prems(4) c by (simp add: Let_def)
    have "enforcer ?st m = \<lparr>enf_seq = v_seq val, enf_when = env_clock env\<rparr>"
      using add_enforcer(2,3) [of L env m val st] r enforce_True by auto
    then show ?thesis
      using add_run_above [of ?st m calls j' L] Cons.prems 0 j c by (simp add: Let_def add_enforcer(1))
  next
    case (Suc i')
    then show ?thesis using Cons.IH [of i' j' ?st] Cons.prems j c by (simp add: Let_def add_enforcer(1))
  qed
qed simp

section \<open>One vote per validator\<close>

definition votes_ok :: "('l, 'id) ledger_ops \<Rightarrow> ('l \<Rightarrow> bool) \<Rightarrow> 'l trie \<Rightarrow> (NodeID, 'l) smap \<Rightarrow> bool" where
  "votes_ok L valid t vs \<longleftrightarrow> trie_inv L valid t \<and> smap_ok vs \<and> (\<forall>n l. (n, l) \<in> set vs \<longrightarrow> valid l)
     \<and> supp L (root t) = image_mset (full_hist L \<circ> snd) (mset vs)"

definition vals_inv :: "('l, 'id) ledger_ops \<Rightarrow> ('l \<Rightarrow> bool) \<Rightarrow> ('l, 'id::linorder) vals \<Rightarrow> bool" where
  "vals_inv L valid st \<longleftrightarrow> votes_ok L valid (vtrie st) (lastLedger st)
     \<and> smap_ok (current_vals st) \<and> smap_ok (acquiring st)
     \<and> (\<forall>(k, nodes) \<in> set (acquiring st). nodes \<noteq> [] \<and> smap_ok nodes)"

definition env_ok :: "('l, 'id) ledger_ops \<Rightarrow> ('l \<Rightarrow> bool) \<Rightarrow> ('l, 'id) val_env \<Rightarrow> bool" where
  "env_ok L valid env \<longleftrightarrow> (\<forall>i l. env_acquire env i = Some l \<longrightarrow> valid l \<and> id_of L l = i)"

context ledger_history
begin

lemma remove_one:
  assumes "trie_inv L valid t" and "valid l"
  shows "trie_inv L valid (snd (trie_remove L l 1 t))"
    and "supp L (root (snd (trie_remove L l 1 t))) = supp L (root t) - {#full_hist L l#}"
proof -
  have r: "trie_remove L l 1 t = (fst (trie_remove L l 1 t), snd (trie_remove L l 1 t))" by simp
  show "trie_inv L valid (snd (trie_remove L l 1 t))"
    using trie_remove_correct(1) [OF assms _ r] by simp
  show "supp L (root (snd (trie_remove L l 1 t))) = supp L (root t) - {#full_hist L l#}"
    using trie_remove_correct(2) [OF assms _ r] by simp
qed

lemma insert_one:
  assumes "trie_inv L valid t" and "valid l"
  shows "trie_inv L valid (trie_insert L l 1 t)"
    and "supp L (root (trie_insert L l 1 t)) = add_mset (full_hist L l) (supp L (root t))"
  using trie_insert_correct [OF assms, of 1] by simp_all

lemma votes_okI:
  assumes "trie_inv L valid t" and "smap_ok vs" and "\<And>n l. (n, l) \<in> set vs \<Longrightarrow> valid l"
    and "supp L (root t) = image_mset (full_hist L \<circ> snd) (mset vs)"
  shows "votes_ok L valid t vs"
  using assms unfolding votes_ok_def by blast

lemma votes_okD:
  assumes "votes_ok L valid t vs"
  shows "trie_inv L valid t" and "smap_ok vs" and "(n, l) \<in> set vs \<Longrightarrow> valid l"
    and "supp L (root t) = image_mset (full_hist L \<circ> snd) (mset vs)"
  using assms unfolding votes_ok_def by blast+

lemma votes_ok_put_new:
  assumes v: "votes_ok L valid t vs" and l: "valid l" and n: "smap_find vs n = None"
  shows "votes_ok L valid (trie_insert L l 1 t) (smap_put n l vs)"
proof (rule votes_okI)
  note t = votes_okD [OF v]
  show "trie_inv L valid (trie_insert L l 1 t)" by (rule insert_one(1) [OF t(1) l])
  show "smap_ok (smap_put n l vs)" by (rule smap_ok_put [OF t(2)])
  show "valid l'" if "(n', l') \<in> set (smap_put n l vs)" for n' l'
    using that set_smap_put [of n l vs] t(3) l by blast
  show "supp L (root (trie_insert L l 1 t)) = image_mset (full_hist L \<circ> snd) (mset (smap_put n l vs))"
    unfolding insert_one(2) [OF t(1) l] mset_smap_put_new [OF n] t(4) by simp
qed

lemma votes_ok_erase:
  assumes v: "votes_ok L valid t vs" and f: "smap_find vs n = Some l"
  shows "votes_ok L valid (snd (trie_remove L l 1 t)) (smap_erase n vs)"
proof (rule votes_okI)
  note t = votes_okD [OF v]
  have l: "valid l" using t(3) smap_find_in [OF f] .
  show "trie_inv L valid (snd (trie_remove L l 1 t))" by (rule remove_one(1) [OF t(1) l])
  show "smap_ok (smap_erase n vs)" by (rule smap_ok_erase [OF t(2)])
  show "valid l'" if "(n', l') \<in> set (smap_erase n vs)" for n' l'
    using that set_smap_erase [of n vs] t(3) by blast
  show "supp L (root (snd (trie_remove L l 1 t))) = image_mset (full_hist L \<circ> snd) (mset (smap_erase n vs))"
    unfolding remove_one(2) [OF t(1) l] t(4) mset_smap_erase [OF f] by simp
qed

lemma votes_ok_put:
  assumes v: "votes_ok L valid t vs" and l: "valid l"
  shows "votes_ok L valid (trie_insert L l 1
      (case smap_find vs n of Some l' \<Rightarrow> snd (trie_remove L l' 1 t) | None \<Rightarrow> t)) (smap_put n l vs)"
proof (cases "smap_find vs n")
  case None
  then show ?thesis using votes_ok_put_new [OF v l] by simp
next
  case (Some l')
  have "smap_find (smap_erase n vs) n = None"
    using votes_okD(2) [OF v] by (simp add: smap_find_erase)
  from votes_ok_put_new [OF votes_ok_erase [OF v Some] l this] show ?thesis
    using Some by (simp add: smap_put_erase [OF votes_okD(2) [OF v]])
qed

lemma stop_acquiring_inv: "vals_inv L valid st \<Longrightarrow> vals_inv L valid (stop_acquiring key n st)"
proof -
  assume inv: "vals_inv L valid st"
  show ?thesis
  proof (cases "smap_find (acquiring st) key")
    case None
    then show ?thesis using inv by (simp add: stop_acquiring_def)
  next
    case (Some nodes)
    have "smap_ok nodes" using inv smap_find_in [OF Some] by (auto simp: vals_inv_def)
    then show ?thesis
      using inv Some set_smap_put [of key "smap_erase n nodes" "acquiring st"] set_smap_erase [of key "acquiring st"]
      by (auto simp: vals_inv_def stop_acquiring_def Let_def smap_ok_erase smap_ok_put)
  qed
qed

lemma removeTrie_inv:
  assumes "vals_inv L valid st"
  shows "vals_inv L valid (removeTrie L n val st)"
  using stop_acquiring_inv [OF assms, of "(v_seq val, v_ledgerID val)" n]
    votes_ok_erase [of "vtrie (stop_acquiring (v_seq val, v_ledgerID val) n st)"
      "lastLedger (stop_acquiring (v_seq val, v_ledgerID val) n st)" n]
  by (auto simp: removeTrie_def Let_def vals_inv_def split: option.split)

lemma updateTrie_ledger_inv:
  assumes "vals_inv L valid st" and "valid l"
  shows "vals_inv L valid (updateTrie_ledger L n l st)"
  using assms votes_ok_put [OF _ assms(2), of "vtrie st" "lastLedger st" n]
  by (auto simp: updateTrie_ledger_def Let_def vals_inv_def)

lemma updateTrie_ledger_frame [simp]:
  "acquiring (updateTrie_ledger L n l st) = acquiring st"
  "current_vals (updateTrie_ledger L n l st) = current_vals st"
  "parms (updateTrie_ledger L n l st) = parms st"
  "bySequence_map (updateTrie_ledger L n l st) = bySequence_map st"
  "seqEnforcers (updateTrie_ledger L n l st) = seqEnforcers st"
  by (simp_all add: updateTrie_ledger_def Let_def)

lemma updateTrie_fold_inv:
  "vals_inv L valid st \<Longrightarrow> valid l \<Longrightarrow>
     vals_inv L valid (fold (\<lambda>(nodeID, _). updateTrie_ledger L nodeID l) nodes st)"
  by (induction nodes arbitrary: st) (auto intro: updateTrie_ledger_inv)

lemma checkAcquired_loop_inv:
  assumes "env_ok L valid env" and "vals_inv L valid st"
  shows "vals_inv L valid (checkAcquired_loop L env it st)"
  using assms(2)
proof (induction it arbitrary: st)
  case (Cons e it)
  obtain key nodes where e: "e = (key, nodes)" by fastforce
  show ?case
  proof (cases "env_acquire env (snd key)")
    case None
    then show ?thesis using Cons e by simp
  next
    case (Some l)
    then have "valid l" using assms(1) by (auto simp: env_ok_def)
    then have "vals_inv L valid (fold (\<lambda>(nodeID, _). updateTrie_ledger L nodeID l) nodes st)"
      using Cons.prems by (rule updateTrie_fold_inv [rotated])
    then have "vals_inv L valid ((fold (\<lambda>(nodeID, _). updateTrie_ledger L nodeID l) nodes st)
        \<lparr>acquiring := smap_erase key (acquiring (fold (\<lambda>(nodeID, _). updateTrie_ledger L nodeID l) nodes st))\<rparr>)"
      using set_smap_erase [of key] by (fastforce simp: vals_inv_def smap_ok_erase)
    then show ?thesis using Cons.IH Some e by (simp add: Let_def)
  qed
qed simp

lemma checkAcquired_inv:
  "env_ok L valid env \<Longrightarrow> vals_inv L valid st \<Longrightarrow> vals_inv L valid (checkAcquired L env st)"
  by (simp add: checkAcquired_def checkAcquired_loop_inv)

lemma acquiring_put_inv:
  assumes "vals_inv L valid st" and "smap_ok nodes" and "nodes \<noteq> []"
  shows "vals_inv L valid (st\<lparr>acquiring := smap_put key nodes (acquiring st)\<rparr>)"
  using assms set_smap_put [of key nodes "acquiring st"] by (auto simp: vals_inv_def smap_ok_put)

lemma updateTrie_inv:
  assumes "env_ok L valid env" and "vals_inv L valid st"
  shows "vals_inv L valid (updateTrie L env n val prior st)"
proof -
  let ?s1 = "case prior of Some p \<Rightarrow> stop_acquiring p n st | None \<Rightarrow> st"
  let ?s = "checkAcquired L env ?s1"
  have i: "vals_inv L valid ?s"
    using assms stop_acquiring_inv by (intro checkAcquired_inv) (auto split: option.split)
  have ok: "smap_ok nodes" if "smap_find (acquiring ?s) k = Some nodes" for k nodes
    using i smap_find_in [OF that] by (auto simp: vals_inv_def)
  show ?thesis
  proof (cases "smap_find (acquiring ?s) (v_seq val, v_ledgerID val)")
    case (Some nodes)
    then show ?thesis
      using acquiring_put_inv [OF i smap_ok_put [OF ok [OF Some]]] by (simp add: updateTrie_def Let_def)
  next
    case None
    then show ?thesis
      using acquiring_put_inv [OF i, of "[(n, ())]"] updateTrie_ledger_inv [OF i] assms(1)
      by (auto simp: updateTrie_def Let_def env_ok_def split: option.split)
  qed
qed

lemma current_vals_inv:
  assumes "vals_inv L valid st" and "smap_ok m"
  shows "vals_inv L valid (st\<lparr>current_vals := m\<rparr>)"
  using assms by (simp add: vals_inv_def)

lemma current_vals_ok: "vals_inv L valid st \<Longrightarrow> smap_ok (current_vals st)"
  by (simp add: vals_inv_def)

lemma current_loop_inv:
  "vals_inv L valid st \<Longrightarrow> vals_inv L valid (fst (current_loop L env f it (st, acc)))"
proof (induction it arbitrary: st acc)
  case (Cons e it)
  obtain n val where e: "e = (n, val)" by fastforce
  have "vals_inv L valid ((removeTrie L n val st)\<lparr>current_vals :=
      smap_erase n (current_vals (removeTrie L n val st))\<rparr>)"
    using removeTrie_inv [OF Cons.prems] by (intro current_vals_inv smap_ok_erase current_vals_ok)
  then show ?case using Cons e by (simp add: Let_def)
qed simp

lemma current_do_inv: "vals_inv L valid st \<Longrightarrow> vals_inv L valid (fst (current_do L env f acc st))"
  by (simp add: current_do_def current_loop_inv)

lemma withTrie_inv:
  assumes "env_ok L valid env" and "vals_inv L valid st"
    and f: "\<And>t. trie_inv L valid t \<Longrightarrow> trie_inv L valid (snd (f t)) \<and> supp L (root (snd (f t))) = supp L (root t)"
  shows "vals_inv L valid (snd (withTrie L env f st))"
proof -
  let ?s = "checkAcquired L env (fst (current_do L env (\<lambda>_ _ acc. acc) () st))"
  have i: "vals_inv L valid ?s" using assms(1,2) by (intro checkAcquired_inv current_do_inv)
  have "vals_inv L valid (?s\<lparr>vtrie := snd (f (vtrie ?s))\<rparr>)"
    using i f [of "vtrie ?s"] by (simp add: vals_inv_def votes_ok_def)
  then show ?thesis by (simp add: withTrie_def Let_def case_prod_beta)
qed

lemma getPreferred_keeps:
  "trie_inv L valid t \<Longrightarrow> trie_inv L valid (snd (getPreferred L G t)) \<and> supp L (root (snd (getPreferred L G t))) = supp L (root t)"
  using getPreferred_correct(1,2) [of t G "fst (getPreferred L G t)" "snd (getPreferred L G t)"] by simp

lemma Validations_getPreferred_inv:
  assumes "env_ok L valid env" and "vals_inv L valid st"
  shows "vals_inv L valid (snd (Validations_getPreferred L env l st))"
  using withTrie_inv [OF assms getPreferred_keeps, of "\<lambda>_. largest (localSeqEnforcer st)"]
  by (auto simp: Validations_getPreferred_def Let_def case_prod_beta split: option.split)

lemma getNodesAfter_inv:
  assumes "env_ok L valid env" and "vals_inv L valid st"
  shows "vals_inv L valid (snd (getNodesAfter L env l i st))"
  using withTrie_inv [OF assms, of "\<lambda>t. (trie_branchSupport L l t - trie_tipSupport L l t, t)"] assms(2)
  by (simp add: getNodesAfter_def)

lemma vals_inv_frame:
  assumes "vals_inv L valid st" and "vtrie st' = vtrie st" and "lastLedger st' = lastLedger st"
    and "acquiring st' = acquiring st" and "smap_ok (current_vals st')"
  shows "vals_inv L valid st'"
  using assms by (simp add: vals_inv_def)

lemma add_enforced_inv:
  assumes e: "env_ok L valid env" and "vals_inv L valid st"
  shows "vals_inv L valid (snd (add_enforced L env n val st))"
proof -
  have i: "vals_inv L valid (st\<lparr>byLedger_map := c\<rparr>)"
      "vals_inv L valid (st\<lparr>byLedger_map := c, current_vals := smap_put n val (current_vals st)\<rparr>)" for c
    using current_vals_ok [OF assms(2)] by (auto intro!: vals_inv_frame [OF assms(2)] smap_ok_put)
  show ?thesis
    using i updateTrie_inv [OF e i(2)]
    by (simp add: add_enforced_def Let_def case_prod_beta split: option.split)
qed

lemma Validations_add_inv:
  assumes "env_ok L valid env" and "vals_inv L valid st"
  shows "vals_inv L valid (snd (Validations_add L env n val st))"
proof -
  have i: "vals_inv L valid (st\<lparr>bySequence_map := a, seqEnforcers := b\<rparr>)" for a b
    using current_vals_ok [OF assms(2)] by (auto intro!: vals_inv_frame [OF assms(2)])
  show ?thesis
    using assms(2) i add_enforced_inv [OF assms(1) i]
    by (simp add: Validations_add_def Let_def case_prod_beta)
qed

lemma trustChanged_loop_inv:
  assumes "env_ok L valid env"
  shows "vals_inv L valid st \<Longrightarrow> vals_inv L valid (trustChanged_loop L env added removed it st)"
proof (induction it arbitrary: st)
  case (Cons e it)
  obtain n val where e: "e = (n, val)" by fastforce
  let ?v = "trust_update added removed n val"
  have i: "vals_inv L valid (st\<lparr>current_vals := smap_put n ?v (current_vals st)\<rparr>)"
    using Cons.prems by (intro current_vals_inv smap_ok_put current_vals_ok)
  show ?case
    using Cons.IH i updateTrie_inv [OF assms i] removeTrie_inv [OF i] by (simp add: e Let_def)
qed simp

lemma trustChanged_inv:
  assumes "env_ok L valid env" and "vals_inv L valid st"
  shows "vals_inv L valid (trustChanged L env added removed st)"
  using trustChanged_loop_inv [OF assms, of added removed "current_vals st"]
  by (simp add: trustChanged_def Let_def vals_inv_def)

lemma new_Validations_inv: "vals_inv L valid (new_Validations L p)"
  using trie_new_inv supp_trie_new by (simp add: vals_inv_def votes_ok_def new_Validations_def)

text \<open>What the invariant says of the trie: its support counts validators.\<close>

lemma count_votes: "smap_ok vs \<Longrightarrow> size (filter_mset P (image_mset h (mset vs))) = card {n. \<exists>l. smap_find vs n = Some l \<and> P (h (n, l))}"
proof -
  assume ok: "smap_ok vs"
  have "size (filter_mset P (image_mset h (mset vs))) = length (filter (P \<circ> h) vs)"
    by (simp add: filter_mset_image_mset flip: mset_filter) (simp add: comp_def)
  also have "\<dots> = card (set (filter (P \<circ> h) vs))"
    using smap_ok_distinct [OF ok] by (intro distinct_card [symmetric] distinct_filter) (simp add: distinct_map)
  also have "\<dots> = card (fst ` set (filter (P \<circ> h) vs))"
    using smap_ok_distinct [OF ok] by (intro card_image [symmetric]) (auto simp: distinct_map intro: inj_on_subset)
  also have "fst ` set (filter (P \<circ> h) vs) = {n. \<exists>l. smap_find vs n = Some l \<and> P (h (n, l))}"
    using smap_find_iff [OF ok] by force
  finally show ?thesis .
qed

lemma full_hist_prefix_iff:
  assumes "valid a" and "valid b"
  shows "prefix (full_hist L a) (full_hist L b) \<longleftrightarrow> seq_of L a \<le> seq_of L b \<and> at_of L b (seq_of L a) = id_of L a"
    (is "?l \<longleftrightarrow> ?r")
proof
  assume ?l
  then have s: "seq_of L a \<le> seq_of L b" using prefix_length_le [OF \<open>?l\<close>] by (simp add: full_hist_def)
  have "full_hist L a ! seq_of L a = full_hist L b ! seq_of L a"
    using \<open>?l\<close> by (auto simp: prefix_def nth_append full_hist_def)
  then show ?r using s id_at [OF assms(1)] by (simp add: full_hist_def)
next
  assume r: ?r
  then have "at_of L a q = at_of L b q" if "q \<le> seq_of L a" for q
    using unique_history [OF assms, of "seq_of L a" q] id_at [OF assms(1)] that by simp
  then have "full_hist L a = take (Suc (seq_of L a)) (full_hist L b)"
    using r by (simp add: full_hist_def hist_eq_iff)
  then show ?l by (metis take_is_prefix)
qed

lemma tipSupport_votes:
  assumes "vals_inv L valid st" and "valid l"
  shows "trie_tipSupport L l (vtrie st) = card {n. \<exists>l'. smap_find (lastLedger st) n = Some l' \<and> id_of L l' = id_of L l}"
proof -
  have v: "votes_ok L valid (vtrie st) (lastLedger st)" using assms(1) by (simp add: vals_inv_def)
  note d = votes_okD [OF v]
  have "count (supp L (root (vtrie st))) (full_hist L l)
      = card {n. \<exists>l'. smap_find (lastLedger st) n = Some l' \<and> full_hist L l' = full_hist L l}"
    using count_votes [OF d(2), of "\<lambda>h. h = full_hist L l" "full_hist L \<circ> snd"]
    unfolding d(4) by (simp add: filter_eq_replicate_mset)
  also have "{n. \<exists>l'. smap_find (lastLedger st) n = Some l' \<and> full_hist L l' = full_hist L l}
      = {n. \<exists>l'. smap_find (lastLedger st) n = Some l' \<and> id_of L l' = id_of L l}"
    using full_hist_eq_iff [OF _ assms(2)] d(3) smap_find_in by (metis (no_types, lifting))
  finally show ?thesis using trie_tipSupport_correct [OF d(1) assms(2)] by simp
qed

lemma branchSupport_votes:
  assumes "vals_inv L valid st" and "valid l"
  shows "trie_branchSupport L l (vtrie st) = card {n. \<exists>l'. smap_find (lastLedger st) n = Some l'
           \<and> seq_of L l \<le> seq_of L l' \<and> at_of L l' (seq_of L l) = id_of L l}"
proof -
  have v: "votes_ok L valid (vtrie st) (lastLedger st)" using assms(1) by (simp add: vals_inv_def)
  note d = votes_okD [OF v]
  have "prefix (full_hist L l) (full_hist L l') \<longleftrightarrow> seq_of L l \<le> seq_of L l' \<and> at_of L l' (seq_of L l) = id_of L l"
    if "smap_find (lastLedger st) n = Some l'" for n l'
    using full_hist_prefix_iff [OF assms(2) d(3) [OF smap_find_in [OF that]]] .
  then have "{n. \<exists>l'. smap_find (lastLedger st) n = Some l' \<and> prefix (full_hist L l) (full_hist L l')}
      = {n. \<exists>l'. smap_find (lastLedger st) n = Some l' \<and> seq_of L l \<le> seq_of L l' \<and> at_of L l' (seq_of L l) = id_of L l}"
    by (metis (no_types, lifting))
  then show ?thesis
    using trie_branchSupport_correct [OF d(1) assms(2)]
      count_votes [OF d(2), of "prefix (full_hist L l)" "full_hist L \<circ> snd"] unfolding d(4) by simp
qed

end

section \<open>Runs of the store\<close>

text \<open>
  The states that the public operations of the store reach, with the adaptor of the validators
  (\<^verbatim>\<open>app/consensus/RCLValidations.cpp\<close>): every ledger it acquires is complete and is the one asked for.
\<close>

abbreviation rcl_env_ok :: "(uint256 \<Rightarrow> nat \<times> uint256) \<Rightarrow> (rcl_ledger, uint256) val_env \<Rightarrow> bool" where
  "rcl_env_ok hdr \<equiv> env_ok rcl_ops (complete_ledger hdr)"

inductive vals_run :: "(uint256 \<Rightarrow> nat \<times> uint256) \<Rightarrow> (rcl_ledger, uint256) vals \<Rightarrow> bool" for hdr where
  new: "vals_run hdr (new_Validations rcl_ops p)"
| canValidateSeq: "vals_run hdr st \<Longrightarrow> vals_run hdr (snd (canValidateSeq env s st))"
| add: "vals_run hdr st \<Longrightarrow> rcl_env_ok hdr env \<Longrightarrow> vals_run hdr (snd (Validations_add rcl_ops env n val st))"
| setSeqToKeep: "vals_run hdr st \<Longrightarrow> vals_run hdr (setSeqToKeep s st)"
| expire: "vals_run hdr st \<Longrightarrow> vals_run hdr (Validations_expire env st)"
| trustChanged: "vals_run hdr st \<Longrightarrow> rcl_env_ok hdr env \<Longrightarrow> vals_run hdr (trustChanged rcl_ops env added removed st)"
| getPreferred: "vals_run hdr st \<Longrightarrow> rcl_env_ok hdr env \<Longrightarrow> vals_run hdr (snd (Validations_getPreferred rcl_ops env l st))"
| getNodesAfter: "vals_run hdr st \<Longrightarrow> rcl_env_ok hdr env \<Longrightarrow> vals_run hdr (snd (getNodesAfter rcl_ops env l i st))"
| current: "vals_run hdr st \<Longrightarrow> vals_run hdr (fst (current_do rcl_ops env f () st))"
| byLedger: "vals_run hdr st \<Longrightarrow> vals_run hdr (fst (byLedger env i g () st))"
| flush: "vals_run hdr st \<Longrightarrow> vals_run hdr (Validations_flush st)"

lemma vals_run_inv: "vals_run hdr st \<Longrightarrow> vals_inv rcl_ops (complete_ledger hdr) st"
proof (induction rule: vals_run.induct)
  case (byLedger st env i g)
  then show ?case
    by (auto simp: byLedger_def vals_inv_def split: option.split)
qed (simp_all add: rcl.new_Validations_inv rcl.Validations_add_inv rcl.trustChanged_inv
    rcl.Validations_getPreferred_inv rcl.getNodesAfter_inv rcl.current_do_inv,
    auto simp: vals_inv_def canValidateSeq_def setSeqToKeep_def Validations_expire_def
      Validations_flush_def Let_def case_prod_beta split: option.split)

section \<open>Stale validations\<close>

text \<open>What \<^verbatim>\<open>current\<close> does to the map it walks over: it drops the stale validations.\<close>

abbreviation val_current :: "('l, 'id) val_env \<Rightarrow> ('l, 'id) vals \<Rightarrow> 'id validation \<Rightarrow> bool" where
  "val_current env st v \<equiv> isCurrent (parms st) (env_now env) (v_signTime v) (v_seenTime v)"

lemma removeTrie_books: "same_books st (removeTrie L n val st)"
  using stop_acquiring_books [of st "(v_seq val, v_ledgerID val)" n]
  by (auto simp: removeTrie_def Let_def same_books_def split: option.split)

lemma current_loop_spec:
  "snd (current_loop L env f it (st, acc)) = fold (\<lambda>(n, v). f n v) (filter (val_current env st \<circ> snd) it) acc
   \<and> current_vals (fst (current_loop L env f it (st, acc)))
     = fold smap_erase (map fst (filter (Not \<circ> val_current env st \<circ> snd) it)) (current_vals st)"
proof (induction it arbitrary: st acc)
  case (Cons e it)
  obtain n val where e: "e = (n, val)" by fastforce
  have "parms (removeTrie L n val st) = parms st" "current_vals (removeTrie L n val st) = current_vals st"
    using removeTrie_books [of st L n val] unfolding same_books_def by blast+
  then show ?case using Cons.IH by (simp add: e Let_def comp_def)
qed simp

lemma current_do_spec:
  assumes "smap_ok (current_vals st)"
  shows "snd (current_do L env f acc st)
      = fold (\<lambda>(n, v). f n v) (filter (val_current env st \<circ> snd) (current_vals st)) acc"
    and "current_vals (fst (current_do L env f acc st)) = filter (val_current env st \<circ> snd) (current_vals st)"
proof -
  let ?m = "current_vals st" and ?P = "val_current env st \<circ> snd"
  show "snd (current_do L env f acc st) = fold (\<lambda>(n, v). f n v) (filter ?P ?m) acc"
    using current_loop_spec [of L env f ?m st acc] by (simp add: current_do_def)
  have "fold smap_erase (map fst (filter (Not \<circ> ?P) ?m)) ?m = filter ?P ?m"
  proof (rule smap_eqI [OF smap_ok_fold_erase [OF assms] smap_ok_filter [OF assms]])
    fix k
    have "k \<in> fst ` set (filter (Not \<circ> ?P) ?m) \<longleftrightarrow> (\<exists>v. smap_find ?m k = Some v \<and> \<not> ?P (k, v))"
      using smap_find_iff [OF assms, of k] by force
    then show "smap_find (fold smap_erase (map fst (filter (Not \<circ> ?P) ?m)) ?m) k = smap_find (filter ?P ?m) k"
      unfolding smap_find_fold_erase [OF assms] smap_find_filter [OF assms] set_map
      by (cases "smap_find ?m k") simp_all
  qed
  then show "current_vals (fst (current_do L env f acc st)) = filter ?P ?m"
    using current_loop_spec [of L env f ?m st acc] by (simp add: current_do_def comp_assoc)
qed

lemma fold_collect: "fold (\<lambda>(n, v) ret. if P v then ret @ [v] else ret) xs acc = acc @ map snd (filter (P \<circ> snd) xs)"
  by (induction xs arbitrary: acc) auto

section \<open>Preferred ledgers\<close>

text \<open>
  The rule of \<^verbatim>\<open>getPreferred\<close> in terms of histories: a working ledger that the preferred history is
  the past of, or goes on from by a single ledger, is kept.
\<close>

definition keeps_working :: "'id list \<Rightarrow> 'id list \<Rightarrow> bool" where
  "keeps_working own w \<longleftrightarrow> prefix w own \<or> (w \<noteq> [] \<and> butlast w = own)"

context ledger_history
begin

lemma withTrie_getPreferred:
  assumes "env_ok L valid env" and "vals_inv L valid st"
    and r: "withTrie L env (getPreferred L G) st = (res, st')"
  shows "case res of None \<Rightarrow> lastLedger st' = []
    | Some tip \<Rightarrow> lastLedger st' \<noteq> [] \<and> (\<exists>w. stops_at (image_mset (full_hist L \<circ> snd) (mset (lastLedger st'))) G
        [id_of L (genesis_of L)] w \<and> is_tip L tip w)"
proof -
  let ?s = "checkAcquired L env (fst (current_do L env (\<lambda>_ _ acc. acc) () st))"
  have i: "vals_inv L valid ?s" using assms(1,2) by (intro checkAcquired_inv current_do_inv)
  then have "votes_ok L valid (vtrie ?s) (lastLedger ?s)" by (simp add: vals_inv_def)
  note d = votes_okD [OF this]
  obtain t' where g: "getPreferred L G (vtrie ?s) = (res, t')" and l: "lastLedger st' = lastLedger ?s"
    using r by (cases "getPreferred L G (vtrie ?s)") (auto simp: withTrie_def Let_def)
  show ?thesis using getPreferred_correct(3) [OF d(1) g] unfolding d(4) l by (auto split: option.splits)
qed

lemma stops_at_supported:
  assumes "stops_at M G v w" and "\<exists>h \<in># M. prefix v h"
  shows "\<exists>h \<in># M. prefix w h"
proof -
  have "(preferred_step M G)\<^sup>*\<^sup>* v w" using assms(1) by (simp add: stops_at_def)
  then show ?thesis
  proof (cases rule: rtranclp.cases)
    case (rtrancl_into_rtrancl b)
    then have "0 < size (filter_mset (prefix w) M)"
      by (auto simp: preferred_step_def prefers_def branch_of_def Let_def)
    then have "filter_mset (prefix w) M \<noteq> {#}" by (metis less_irrefl size_empty)
    then obtain h where "h \<in># filter_mset (prefix w) M" by (rule multiset_nonemptyE)
    then show ?thesis by auto
  qed (use assms(2) in simp)
qed

lemma prefix_take_iff: "prefix xs ys \<longleftrightarrow> take (length xs) ys = xs"
  by (metis append_eq_conv_conj prefix_def take_is_prefix)

lemma tip_in_past:
  assumes l: "valid l" "valid l'" and w: "is_tip L tip w" "prefix w (full_hist L l')"
  shows "tip_seq tip \<le> seq_of L l \<Longrightarrow> at_of L l (tip_seq tip) = tip_id tip \<longleftrightarrow> prefix w (full_hist L l)"
    and "tip_seq tip = Suc (seq_of L l) \<Longrightarrow>
      SpanTip_ancestor L tip (seq_of L l) = id_of L l \<longleftrightarrow> butlast w = full_hist L l"
proof -
  have n: "w \<noteq> []" "length w = Suc (tip_seq tip)" "tip_id tip = last w" "hist L (tip_ledger tip) (length w) = w"
    using w(1) by (auto simp: is_tip_def)
  have s: "tip_seq tip \<le> seq_of L l'" using prefix_length_le [OF w(2)] n(2) by (simp add: full_hist_def)
  have h: "w = hist L l' (Suc (tip_seq tip))" using w(2) n(2) s by (simp add: prefix_take_iff full_hist_def)
  have e: "hist L l (Suc k) = hist L l' (Suc k) \<longleftrightarrow> at_of L l k = at_of L l' k"
    if "k \<le> seq_of L l" "k \<le> tip_seq tip" for k
  proof
    assume "at_of L l k = at_of L l' k"
    then have "at_of L l q = at_of L l' q" if "q \<le> k" for q
      using unique_history [OF l, of k q] that \<open>k \<le> seq_of L l\<close> \<open>k \<le> tip_seq tip\<close> s by simp
    then show "hist L l (Suc k) = hist L l' (Suc k)" by (simp add: hist_eq_iff)
  qed (simp add: hist_Suc)
  show "at_of L l (tip_seq tip) = tip_id tip \<longleftrightarrow> prefix w (full_hist L l)" if "tip_seq tip \<le> seq_of L l"
  proof -
    have "prefix w (full_hist L l) \<longleftrightarrow> hist L l (Suc (tip_seq tip)) = w"
      using that n(2) by (simp add: prefix_take_iff full_hist_def)
    then show ?thesis using e [OF that] h n(3) by (simp add: hist_Suc)
  qed
  show "SpanTip_ancestor L tip (seq_of L l) = id_of L l \<longleftrightarrow> butlast w = full_hist L l"
    if "tip_seq tip = Suc (seq_of L l)"
  proof -
    have b: "butlast w = hist L l' (Suc (seq_of L l))" unfolding h that by (simp add: hist_Suc butlast_append)
    have a: "at_of L (tip_ledger tip) (seq_of L l) = at_of L l' (seq_of L l)"
      by (rule hist_at [OF trans [OF n(4) h [folded n(2)]]]) (simp add: n(2) that)
    have i: "id_of L l = at_of L l (seq_of L l)" by (rule id_at [OF l(1)])
    show ?thesis
      unfolding SpanTip_ancestor_def a b i full_hist_def using e [of "seq_of L l"] that by (metis le_SucI order_refl)
  qed
qed

lemma genesis_hist: "valid l \<Longrightarrow> prefix [id_of L (genesis_of L)] (full_hist L l)"
proof -
  assume l: "valid l"
  have "at_of L (genesis_of L) 0 = at_of L l 0"
    using mismatch_agree [OF genesis(1) l] mismatch_pos [OF genesis(1) l] by simp
  then show ?thesis
    using id_at [OF genesis(1)] genesis(2) by (simp add: full_hist_def hist_def upt_conv_Cons del: upt_Suc)
qed

lemma getPreferred_rule:
  assumes e: "env_ok L valid env" and i: "vals_inv L valid st" and l: "valid l"
    and r: "Validations_getPreferred L env l st = (res, st')"
  shows "if lastLedger st' = [] then res = preferred_acquiring (acquiring st')
    else \<exists>w. stops_at (image_mset (full_hist L \<circ> snd) (mset (lastLedger st'))) (largest (localSeqEnforcer st))
              [id_of L (genesis_of L)] w
            \<and> res = Some (if keeps_working (full_hist L l) w then (seq_of L l, id_of L l) else (length w - 1, last w))"
proof -
  let ?G = "largest (localSeqEnforcer st)"
  obtain tip where t: "withTrie L env (getPreferred L ?G) st = (tip, st')"
    using r by (cases "withTrie L env (getPreferred L ?G) st")
      (auto simp: Validations_getPreferred_def Let_def split: option.splits)
  note p = withTrie_getPreferred [OF e i t]
  show ?thesis
  proof (cases tip)
    case None
    then show ?thesis using p r t by (simp add: Validations_getPreferred_def)
  next
    case (Some tp)
    let ?M = "image_mset (full_hist L \<circ> snd) (mset (lastLedger st'))"
    obtain w where ne: "lastLedger st' \<noteq> []" and w: "stops_at ?M ?G [id_of L (genesis_of L)] w" "is_tip L tp w"
      using p Some by auto
    have "vals_inv L valid st'" using Validations_getPreferred_inv [OF e i, of l] r by simp
    then have v: "(n, x) \<in> set (lastLedger st') \<Longrightarrow> valid x" for n x
      by (simp add: vals_inv_def votes_ok_def)
    have "\<exists>h \<in># ?M. prefix [id_of L (genesis_of L)] h"
      using ne v genesis_hist by (cases "lastLedger st'") fastforce+
    from stops_at_supported [OF w(1) this]
    obtain n' l' where m: "(n', l') \<in> set (lastLedger st')" and w': "prefix w (full_hist L l')" by auto
    note l' = v [OF m] w'
    note past = tip_in_past [OF l l'(1) w(2) l'(2)]
    have n: "length w = Suc (tip_seq tp)" "tip_id tp = last w" "w \<noteq> []" using w(2) by (auto simp: is_tip_def)
    have o: "length (full_hist L l) = Suc (seq_of L l)" by (simp add: full_hist_def)
    have k: "keeps_working (full_hist L l) w \<longleftrightarrow>
        (tip_seq tp = Suc (seq_of L l) \<and> SpanTip_ancestor L tp (seq_of L l) = id_of L l)
        \<or> (tip_seq tp \<le> seq_of L l \<and> at_of L l (tip_seq tp) = tip_id tp)"
    proof -
      have a: "tip_seq tp \<le> seq_of L l" if "prefix w (full_hist L l)"
        using prefix_length_le [OF that] n o by simp
      have b: "tip_seq tp = Suc (seq_of L l)" if "butlast w = full_hist L l"
        using arg_cong [OF that, of length] n o by simp
      show ?thesis unfolding keeps_working_def using past a b n(3) by blast
    qed
    show ?thesis
      using r t Some ne w(1) n k
      by (auto simp: Validations_getPreferred_def Let_def intro!: exI [of _ w])
  qed
qed

end

end
