(* ===== verification/Validations_Properties.thy ===== *)
theory Validations_Properties
  imports Validations_Correct
begin

text \<open>
  The properties of the store of validations, for the ledgers and the adaptor of the validators.
\<close>

section \<open>A sample store\<close>

text \<open>
  Three validators at sequence numbers 2 and 3. The ledgers 20 and 30 of the sample trie can be
  acquired, the ledger 40 cannot.
\<close>

definition sample_env :: "int \<Rightarrow> (rcl_ledger, uint256) val_env" where
  "sample_env now = \<lparr>env_now = now, env_clock = now, env_acquire =
     (\<lambda>i. if i = 20 then Some sample_b else if i = 30 then Some sample_c else None)\<rparr>"

definition sample_val :: "uint256 \<Rightarrow> nat \<Rightarrow> int \<Rightarrow> uint256 validation" where
  "sample_val i s t = \<lparr>v_ledgerID = i, v_seq = s, v_signTime = t, v_seenTime = t, v_key = [],
     v_trusted = True, v_full = True, v_cookie = 0, v_loadFee = None\<rparr>"

definition sample_store :: "(rcl_ledger, uint256) vals" where
  "sample_store = snd (Validations_add rcl_ops (sample_env 1000) 2 (sample_val 30 2 1000)
     (snd (Validations_add rcl_ops (sample_env 1000) 1 (sample_val 20 2 1000)
       (new_Validations rcl_ops default_ValidationParms))))"

lemma sample_env_ok: "rcl_env_ok sample_hdr (sample_env now)"
  using sample_complete by (auto simp: env_ok_def sample_env_def rcl_ops_def sample_b_def sample_c_def RCLValidatedLedger_def)

lemma sample_store_run: "vals_run sample_hdr sample_store"
  unfolding sample_store_def by (intro vals_run.add sample_env_ok vals_run.new)

text \<open>The first validator goes on to a ledger that cannot be acquired, and then all grows stale.\<close>

definition sample_stale :: "(rcl_ledger, uint256) vals" where
  "sample_stale = snd (Validations_getPreferred rcl_ops (sample_env 5000) sample_a
     (snd (Validations_add rcl_ops (sample_env 1001) 1 (sample_val 40 3 1001) sample_store)))"

lemma sample_stale_run: "vals_run sample_hdr sample_stale"
  unfolding sample_stale_def by (intro vals_run.getPreferred vals_run.add sample_env_ok sample_store_run)

section \<open>The books of the store\<close>

definition books_ok :: "('l, 'id::linorder) vals \<Rightarrow> bool" where
  "books_ok st \<longleftrightarrow> smap_ok (byLedger_map st) \<and> smap_ok (bySequence_map st)"

lemma aged_ok:
  "smap_ok m \<Longrightarrow> smap_ok (snd (aged_index now d k m))"
  "smap_ok m \<Longrightarrow> smap_ok (aged_set k v m)"
  "smap_ok m \<Longrightarrow> smap_ok (aged_touch now k m)"
  "smap_ok m \<Longrightarrow> smap_ok (aged_expire now age m)"
  by (auto simp: aged_index_def aged_set_def aged_touch_def aged_expire_def
      intro: smap_ok_put smap_ok_filter split: option.split)

lemma updateTrie_sel [simp]:
  "seqEnforcers (updateTrie L env n val prior st) = seqEnforcers st"
  "parms (updateTrie L env n val prior st) = parms st"
  "bySequence_map (updateTrie L env n val prior st) = bySequence_map st"
  "byLedger_map (updateTrie L env n val prior st) = byLedger_map st"
  "current_vals (updateTrie L env n val prior st) = current_vals st"
  using updateTrie_books [of st L env n val prior] unfolding same_books_def by blast+

lemma removeTrie_sel [simp]:
  "bySequence_map (removeTrie L n val st) = bySequence_map st"
  "byLedger_map (removeTrie L n val st) = byLedger_map st"
  using removeTrie_books [of st L n val] unfolding same_books_def by blast+

lemma checkAcquired_sel [simp]:
  "bySequence_map (checkAcquired L env st) = bySequence_map st"
  "byLedger_map (checkAcquired L env st) = byLedger_map st"
  using checkAcquired_loop_books [of st L env "acquiring st"] unfolding same_books_def checkAcquired_def by blast+

lemma current_loop_books_ok: "books_ok (fst (current_loop L env f it (st, acc))) = books_ok st"
proof (induction it arbitrary: st acc)
  case (Cons e it)
  obtain n val where "e = (n, val)" by fastforce
  then show ?case
    using Cons.IH by (simp add: Let_def books_ok_def)
qed simp

lemma withTrie_books_ok: "books_ok (snd (withTrie L env f st)) = books_ok st"
  using current_loop_books_ok [of L env "\<lambda>_ _ acc. acc" "current_vals st" st "()"]
  by (simp add: withTrie_def current_do_def Let_def case_prod_beta books_ok_def)

lemma add_books_ok: "books_ok st \<Longrightarrow> books_ok (snd (Validations_add L env n val st))"
proof -
  assume ok: "books_ok st"
  have e: "books_ok (snd (add_enforced L env n val s))" if "books_ok s" for s :: "('a, 'b) vals"
    using that
    by (auto simp: add_enforced_def books_ok_def Let_def case_prod_beta intro: aged_ok split: option.split)
  have "books_ok (st\<lparr>bySequence_map := aged_set s x (snd (aged_index now [] s (bySequence_map st))), seqEnforcers := y\<rparr>)"
    for s x now y using ok by (simp add: books_ok_def aged_ok)
  then show ?thesis
    using ok e by (simp add: Validations_add_def Let_def case_prod_beta)
qed

lemma trustChanged_books_ok: "books_ok st \<Longrightarrow> books_ok (trustChanged L env added removed st)"
proof -
  assume ok: "books_ok st"
  have "books_ok (trustChanged_loop L env added removed it s) = books_ok s" for it s
  proof (induction it arbitrary: s)
    case (Cons e it)
    obtain n val where "e = (n, val)" by fastforce
    then show ?case
      using Cons.IH by (simp add: Let_def books_ok_def)
  qed simp
  then show ?thesis using ok smap_ok_map_snd [of "\<lambda>_ v. (map _ (fst v), snd v)"]
    by (simp add: trustChanged_def Let_def books_ok_def smap_ok_def comp_def case_prod_beta)
qed

lemma vals_run_books: "vals_run hdr st \<Longrightarrow> books_ok st"
proof (induction rule: vals_run.induct)
  case (getPreferred st env l)
  then show ?case
    by (auto simp: Validations_getPreferred_def Let_def case_prod_beta withTrie_books_ok split: option.split)
next
  case (getNodesAfter st env l i)
  then show ?case by (simp add: getNodesAfter_def withTrie_books_ok)
next
  case (current st env f)
  then show ?case by (simp add: current_do_def current_loop_books_ok)
next
  case (byLedger st env i g)
  then show ?case by (auto simp: byLedger_def books_ok_def aged_ok split: option.split)
next
  case (expire st env)
  then show ?case
    by (auto simp: Validations_expire_def books_ok_def Let_def smap_ok_def comp_def case_prod_beta
        intro!: aged_ok(4) [unfolded smap_ok_def] split: option.split)
qed (simp_all add: add_books_ok trustChanged_books_ok, simp_all add: new_Validations_def books_ok_def
    canValidateSeq_def setSeqToKeep_def Validations_flush_def Let_def case_prod_beta)

section \<open>Repeated sequence numbers\<close>

text \<open>After an accepted validation, its validator's entry for the sequence number is tracked.\<close>

lemma tracked_after_add:
  assumes a: "Validations_add L env n v st = (current, st1)"
    and new: "\<forall>vm w. smap_find (bySequence_map st) (v_seq v) = Some (vm, w) \<longrightarrow> smap_find vm n = None"
  shows "\<exists>vm w. smap_find (bySequence_map st1) (v_seq v) = Some (vm, w) \<and> smap_find vm n = Some v"
    and "enforcer st1 n = \<lparr>enf_seq = v_seq v, enf_when = env_clock env\<rparr>" and "parms st1 = parms st"
proof -
  have c: "isCurrent (parms st) (env_now env) (v_signTime v) (v_seenTime v)"
      "fst (enforce (parms st) (env_clock env) (v_seq v) (enforcer st n))"
    using add_enforcer(3) [of L env n v st] a by simp_all
  show "enforcer st1 n = \<lparr>enf_seq = v_seq v, enf_when = env_clock env\<rparr>" "parms st1 = parms st"
    using add_enforcer(1,2) [of L env n v st] a c enforce_True [OF c(2)] by simp_all
  let ?i = "aged_index (env_clock env) [] (v_seq v) (bySequence_map st)"
  have t: "tracked (parms st) (smap_find (fst ?i) n) v = v"
    using new by (auto simp: aged_index_def tracked_def split: option.split)
  have "\<exists>w. smap_find (snd ?i) (v_seq v) = Some (fst ?i, w)"
    by (auto simp: aged_index_def smap_find_put split: option.split)
  moreover have "bySequence_map st1 = aged_set (v_seq v) (smap_put n v (fst ?i)) (snd ?i)"
  proof -
    have e: "bySequence_map (snd (add_enforced L env n v s)) = bySequence_map s" for s
      by (simp add: add_enforced_def Let_def case_prod_beta split: option.split)
    have "st1 = snd (Validations_add L env n v st)" using a by simp
    then show ?thesis using c t by (simp add: Validations_add_def Let_def case_prod_beta e)
  qed
  ultimately show "\<exists>vm w. smap_find (bySequence_map st1) (v_seq v) = Some (vm, w) \<and> smap_find vm n = Some v"
    by (auto simp: aged_set_def smap_find_put)
qed

lemma tracked_stays:
  "v_signTime v' \<le> v_signTime v + validationCURRENT_WALL p \<Longrightarrow> tracked p (Some v) v' = v"
  by (auto simp: tracked_def Let_def)

section \<open>Properties\<close>

lemma rcl_sel:
  "seq_of rcl_ops = ledgerSeq" "id_of rcl_ops = ledgerID" "at_of rcl_ops = idAt" "ledgerID (genesis_of rcl_ops) = 0"
  by (simp_all add: rcl_ops_def MakeGenesis_def)





text \<open>C24. Two validations that the store accepts from one validator, in whatever stream of validations
  of all the validators, have increasing sequence numbers, as long as the second comes within the
  expiry time of the first.\<close>

theorem add_accepts_increasing:
  assumes "sorted (map call_time calls)" and "i < j" and "j < length calls"
    and "add_run L calls st ! i = current" and "add_run L calls st ! j = current"
    and "call_node (calls ! i) = call_node (calls ! j)"
    and "call_time (calls ! j) \<le> call_time (calls ! i) + validationSET_EXPIRES (parms st)"
  shows "call_seq (calls ! i) < call_seq (calls ! j)"
  using assms by (rule add_run_increasing)

theorem add_accepts_increasing_witness:
  "call_seq (sample_env 1000, 1, sample_val 20 2 1000) < call_seq (sample_env 1001, 1, sample_val 40 3 1001)"
proof -
  let ?c = "[(sample_env 1000, 1, sample_val 20 2 1000), (sample_env 1000, 2, sample_val 30 2 1000),
    (sample_env 1001, 1, sample_val 40 3 1001)]"
  let ?st = "new_Validations rcl_ops default_ValidationParms"
  have "sorted (map call_time ?c)" "add_run rcl_ops ?c ?st ! 0 = current" "add_run rcl_ops ?c ?st ! 2 = current"
      "call_node (?c ! 0) = call_node (?c ! 2)"
      "call_time (?c ! 2) \<le> call_time (?c ! 0) + validationSET_EXPIRES (parms ?st)"
    by code_simp+
  then show ?thesis using add_accepts_increasing [of ?c 0 2 rcl_ops ?st] by simp
qed





text \<open>C27. A query over the current validations answers with exactly those that are in the validity
  window, trusted and full, in the order of the map, and leaves in the map those in the window.\<close>

theorem currentTrusted_exact:
  assumes "vals_run hdr st"
  shows "currentTrusted rcl_ops env st =
      (fst (currentTrusted rcl_ops env st),
       map snd (filter (\<lambda>(n, v). val_current env st v \<and> v_trusted v \<and> v_full v) (current_vals st)))
    \<and> current_vals (fst (currentTrusted rcl_ops env st)) = filter (\<lambda>(n, v). val_current env st v) (current_vals st)"
proof -
  note c = current_do_spec [OF rcl.current_vals_ok [OF vals_run_inv [OF assms]], of rcl_ops env
      "\<lambda>_ v ret. if v_trusted v \<and> v_full v then ret @ [v] else ret" "[]"]
  show ?thesis
    using c fold_collect [of "\<lambda>v. v_trusted v \<and> v_full v" "filter (val_current env st \<circ> snd) (current_vals st)" "[]"]
    by (simp add: currentTrusted_def prod_eq_iff comp_def case_prod_unfold conj_commute conj_left_commute)
qed

theorem currentTrusted_exact_witness:
  "map v_ledgerID (snd (currentTrusted rcl_ops (sample_env 1000) sample_store)) = [20, 30]"
proof -
  have "map (v_ledgerID \<circ> snd) (filter (\<lambda>(n, v). val_current (sample_env 1000) sample_store v \<and> v_trusted v \<and> v_full v)
      (current_vals sample_store)) = [20, 30]"
    by code_simp
  then show ?thesis
    using arg_cong [OF conjunct1 [OF currentTrusted_exact [OF sample_store_run, of "sample_env 1000"]], of snd] by simp
qed


end
