(* ===== verification/Ledger_View.thy ===== *)
theory Ledger_View
  imports Prelude
begin

text \<open>
  Views of a ledger: the interface to read one (\<^verbatim>\<open>ledger/ReadView.h\<close>) and to change one
  (\<^verbatim>\<open>ledger/RawView.h\<close>), with their contracts as locales, and the closed ledger at the bottom of every
  stack of views (\<^verbatim>\<open>app/ledger/Ledger.cpp\<close>). The state map and the transaction map of a ledger are
  key-sorted association lists, the order in which a \<^verbatim>\<open>SHAMap\<close> is iterated; a state item is kept as
  the entry it deserialises to. Drops are integers: a ledger has fewer than 2 to the 57 of them.
\<close>

section \<open>State entries and keylets\<close>

datatype LedgerEntryType =
    ltANY | ltCHILD | ltINVALID
  | ltACCOUNT_ROOT | ltDIR_NODE | ltBIXD_STATE | ltTICKET | ltSIGNER_LIST | ltOFFER | ltLEDGER_HASHES
  | ltAMENDMENTS | ltFEE_SETTINGS | ltESCROW | ltPAYCHAN | ltCHECK | ltDEPOSIT_PREAUTH | ltNEGATIVE_UNL
  | ltNICKNAME | ltNotUsed01

record 'f sle =
  sle_key :: uint256
  sle_type :: LedgerEntryType
  sle_fields :: 'f

record Keylet =
  kl_type :: LedgerEntryType
  kl_key :: uint256

definition Keylet_check :: "Keylet \<Rightarrow> 'f sle \<Rightarrow> bool" where
  "Keylet_check k s =
     (if kl_type k = ltANY then True
      else if kl_type k = ltINVALID then False
      else if kl_type k = ltCHILD then sle_type s \<noteq> ltDIR_NODE
      else sle_type s = kl_type k)"

definition keylet_unchecked :: "uint256 \<Rightarrow> Keylet" where
  "keylet_unchecked k = \<lparr>kl_type = ltANY, kl_key = k\<rparr>"

definition keylet_child :: "uint256 \<Rightarrow> Keylet" where
  "keylet_child k = \<lparr>kl_type = ltCHILD, kl_key = k\<rparr>"

text \<open>A \<^verbatim>\<open>LogicError\<close> and a null pointer followed end the process; operations return them as error values.\<close>

datatype logic_error = LogicError string | NullDereference

record LedgerInfo =
  li_seq :: u32
  li_parentCloseTime :: u32
  li_hash :: uint256
  li_txHash :: uint256
  li_accountHash :: uint256
  li_parentHash :: uint256
  li_drops :: int
  li_validated :: bool
  li_accepted :: bool
  li_closeFlags :: int
  li_closeTimeResolution :: u32
  li_closeTime :: u32

type_synonym 'f contents = "uint256 \<Rightarrow> 'f sle option"

section \<open>Reading a view\<close>

text \<open>
  A view as its readers see it. The outer option of \<open>rv_succ\<close> and of the two lists of entries is
  \<open>None\<close> when the call does not return a value: it loops or follows a null pointer.
\<close>

record 'f read_view =
  rv_exists :: "Keylet \<Rightarrow> bool"
  rv_read :: "Keylet \<Rightarrow> 'f sle option"
  rv_succ :: "uint256 \<Rightarrow> uint256 option \<Rightarrow> uint256 option option"
  rv_sles :: "'f sle list option"
  rv_upper_bound :: "uint256 \<Rightarrow> 'f sle list option"

text \<open>The entry a keylet selects, and the successor of a key, in the contents of a view.\<close>

definition lookup :: "'f contents \<Rightarrow> Keylet \<Rightarrow> 'f sle option" where
  "lookup M k = (case M (kl_key k) of Some s \<Rightarrow> if Keylet_check k s then Some s else None | None \<Rightarrow> None)"

definition next_key :: "'f contents \<Rightarrow> uint256 \<Rightarrow> uint256 option \<Rightarrow> uint256 option" where
  "next_key M key last_key =
     (let S = {k \<in> dom M. key < k \<and> (\<forall>l. last_key = Some l \<longrightarrow> k < l)}
      in if S = {} then None else Some (Min S))"

definition entries :: "'f contents \<Rightarrow> 'f sle list \<Rightarrow> bool" where
  "entries M xs \<longleftrightarrow> sorted_wrt (<) (map sle_key xs) \<and> (\<forall>s. s \<in> set xs \<longleftrightarrow> M (sle_key s) = Some s)"

definition above :: "uint256 \<Rightarrow> 'f contents \<Rightarrow> 'f contents" where
  "above key M = (\<lambda>k. if key < k then M k else None)"

text \<open>
  The contract: \<open>C s\<close> are the contents of the view in the state \<open>s\<close>, for the states that are \<open>ok\<close>.
  Entries are stored under their own key and never under zero. The existence test may ignore the
  type of the keylet.
\<close>

locale entry_view =
  fixes view :: "'s \<Rightarrow> 'f read_view" and C :: "'s \<Rightarrow> 'f contents" and ok :: "'s \<Rightarrow> bool"
  assumes keyed: "ok s \<Longrightarrow> C s k = Some e \<Longrightarrow> sle_key e = k \<and> k \<noteq> 0"
    and read: "ok s \<Longrightarrow> rv_read (view s) kl = lookup (C s) kl"
    and exists_typed: "ok s \<Longrightarrow> lookup (C s) kl \<noteq> None \<Longrightarrow> rv_exists (view s) kl"
    and exists_key: "ok s \<Longrightarrow> rv_exists (view s) kl \<Longrightarrow> C s (kl_key kl) \<noteq> None"
    and succ: "ok s \<Longrightarrow> rv_succ (view s) key last_key = Some (next_key (C s) key last_key)"

text \<open>A view that iterates over its own entries.\<close>

locale ledger_view = entry_view view C ok
  for view :: "'s \<Rightarrow> 'f read_view" and C :: "'s \<Rightarrow> 'f contents" and ok :: "'s \<Rightarrow> bool" +
  assumes sles: "ok s \<Longrightarrow> \<exists>xs. rv_sles (view s) = Some xs \<and> entries (C s) xs"
    and upper_bound: "ok s \<Longrightarrow> \<exists>xs. rv_upper_bound (view s) key = Some xs \<and> entries (above key (C s)) xs"

section \<open>Changing a view\<close>

text \<open>
  The contract of \<^verbatim>\<open>RawView\<close>: an insertion needs a free key, a replacement and an erasure a used one,
  and then the change is made. \<open>D\<close> are the drops destroyed so far.
\<close>

locale raw_view =
  fixes C :: "'s \<Rightarrow> 'f contents" and ok :: "'s \<Rightarrow> bool" and D :: "'s \<Rightarrow> int"
    and rawErase :: "'f sle \<Rightarrow> 's \<Rightarrow> logic_error + 's"
    and rawInsert :: "'f sle \<Rightarrow> 's \<Rightarrow> logic_error + 's"
    and rawReplace :: "'f sle \<Rightarrow> 's \<Rightarrow> logic_error + 's"
    and rawDestroy :: "int \<Rightarrow> 's \<Rightarrow> 's"
  assumes erase: "ok s \<Longrightarrow> C s (sle_key e) \<noteq> None \<Longrightarrow>
      \<exists>s'. rawErase e s = Inr s' \<and> ok s' \<and> C s' = (C s)(sle_key e := None) \<and> D s' = D s"
    and insert: "ok s \<Longrightarrow> C s (sle_key e) = None \<Longrightarrow> sle_key e \<noteq> 0 \<Longrightarrow>
      \<exists>s'. rawInsert e s = Inr s' \<and> ok s' \<and> C s' = (C s)(sle_key e \<mapsto> e) \<and> D s' = D s"
    and replace: "ok s \<Longrightarrow> C s (sle_key e) \<noteq> None \<Longrightarrow>
      \<exists>s'. rawReplace e s = Inr s' \<and> ok s' \<and> C s' = (C s)(sle_key e \<mapsto> e) \<and> D s' = D s"
    and destroy: "ok s \<Longrightarrow> ok (rawDestroy fee s) \<and> C (rawDestroy fee s) = C s \<and> D (rawDestroy fee s) = D s + fee"

section \<open>The closed ledger\<close>

record ('f, 'tx) ledger =
  stateMap :: "(uint256, 'f sle) smap"
  txMap :: "(uint256, 'tx \<times> 'tx) smap"
  led_info :: LedgerInfo

definition Ledger_exists :: "('f, 'tx) ledger \<Rightarrow> Keylet \<Rightarrow> bool" where
  "Ledger_exists led k \<longleftrightarrow> smap_find (stateMap led) (kl_key k) \<noteq> None"

definition Ledger_succ :: "('f, 'tx) ledger \<Rightarrow> uint256 \<Rightarrow> uint256 option \<Rightarrow> uint256 option" where
  "Ledger_succ led key last_key =
     (case smap_upper_bound key (stateMap led) of
        [] \<Rightarrow> None
      | (k, _) # _ \<Rightarrow> (case last_key of Some l \<Rightarrow> if k \<ge> l then None else Some k | None \<Rightarrow> Some k))"

definition Ledger_read :: "('f, 'tx) ledger \<Rightarrow> Keylet \<Rightarrow> 'f sle option" where
  "Ledger_read led k =
     (if kl_key k = 0 then None
      else case smap_find (stateMap led) (kl_key k) of
             None \<Rightarrow> None
           | Some s \<Rightarrow> if Keylet_check k s then Some s else None)"

definition Ledger_peek :: "('f, 'tx) ledger \<Rightarrow> Keylet \<Rightarrow> 'f sle option" where
  "Ledger_peek led k =
     (case smap_find (stateMap led) (kl_key k) of
        None \<Rightarrow> None
      | Some s \<Rightarrow> if Keylet_check k s then Some s else None)"

definition Ledger_sles :: "('f, 'tx) ledger \<Rightarrow> 'f sle list" where
  "Ledger_sles led = map snd (stateMap led)"

definition Ledger_slesUpperBound :: "('f, 'tx) ledger \<Rightarrow> uint256 \<Rightarrow> 'f sle list" where
  "Ledger_slesUpperBound led key = map snd (smap_upper_bound key (stateMap led))"

definition Ledger_txExists :: "('f, 'tx) ledger \<Rightarrow> uint256 \<Rightarrow> bool" where
  "Ledger_txExists led key \<longleftrightarrow> smap_find (txMap led) key \<noteq> None"

definition Ledger_txRead :: "('f, 'tx) ledger \<Rightarrow> uint256 \<Rightarrow> ('tx \<times> 'tx) option" where
  "Ledger_txRead led key = smap_find (txMap led) key"

definition Ledger_rawErase :: "'f sle \<Rightarrow> ('f, 'tx) ledger \<Rightarrow> logic_error + ('f, 'tx) ledger" where
  "Ledger_rawErase s led =
     (case smap_find (stateMap led) (sle_key s) of
        None \<Rightarrow> Inl (LogicError ''Ledger::rawErase: key not found'')
      | Some _ \<Rightarrow> Inr (led\<lparr>stateMap := smap_erase (sle_key s) (stateMap led)\<rparr>))"

definition Ledger_rawInsert :: "'f sle \<Rightarrow> ('f, 'tx) ledger \<Rightarrow> logic_error + ('f, 'tx) ledger" where
  "Ledger_rawInsert s led =
     (case smap_find (stateMap led) (sle_key s) of
        None \<Rightarrow> Inr (led\<lparr>stateMap := smap_put (sle_key s) s (stateMap led)\<rparr>)
      | Some _ \<Rightarrow> Inl (LogicError ''Ledger::rawInsert: key already exists''))"

definition Ledger_rawReplace :: "'f sle \<Rightarrow> ('f, 'tx) ledger \<Rightarrow> logic_error + ('f, 'tx) ledger" where
  "Ledger_rawReplace s led =
     (case smap_find (stateMap led) (sle_key s) of
        None \<Rightarrow> Inl (LogicError ''Ledger::rawReplace: key not found'')
      | Some _ \<Rightarrow> Inr (led\<lparr>stateMap := smap_put (sle_key s) s (stateMap led)\<rparr>))"

definition Ledger_rawDestroy :: "int \<Rightarrow> ('f, 'tx) ledger \<Rightarrow> ('f, 'tx) ledger" where
  "Ledger_rawDestroy fee led = led\<lparr>led_info := (led_info led)\<lparr>li_drops := li_drops (led_info led) - fee\<rparr>\<rparr>"

definition Ledger_rawTxInsert :: "uint256 \<Rightarrow> 'tx \<Rightarrow> 'tx option \<Rightarrow> ('f, 'tx) ledger \<Rightarrow> logic_error + ('f, 'tx) ledger" where
  "Ledger_rawTxInsert key txn metaData led =
     (case metaData of
        None \<Rightarrow> Inl NullDereference
      | Some meta \<Rightarrow>
          (case smap_find (txMap led) key of
             None \<Rightarrow> Inr (led\<lparr>txMap := smap_put key (txn, meta) (txMap led)\<rparr>)
           | Some _ \<Rightarrow> Inl (LogicError ''duplicate_tx'')))"

definition Ledger_view :: "('f, 'tx) ledger \<Rightarrow> 'f read_view" where
  "Ledger_view led =
     \<lparr>rv_exists = Ledger_exists led, rv_read = Ledger_read led,
      rv_succ = (\<lambda>key last_key. Some (Ledger_succ led key last_key)),
      rv_sles = Some (Ledger_sles led), rv_upper_bound = (\<lambda>key. Some (Ledger_slesUpperBound led key))\<rparr>"

definition ledger_contents :: "('f, 'tx) ledger \<Rightarrow> 'f contents" where
  "ledger_contents led = smap_find (stateMap led)"

definition ledger_ok :: "('f, 'tx) ledger \<Rightarrow> bool" where
  "ledger_ok led \<longleftrightarrow> smap_ok (stateMap led) \<and> (\<forall>(k, s) \<in> set (stateMap led). sle_key s = k \<and> k \<noteq> 0)"

abbreviation ledger_drops :: "('f, 'tx) ledger \<Rightarrow> int" where
  "ledger_drops led \<equiv> li_drops (led_info led)"

section \<open>The contracts hold for the closed ledger\<close>

lemma next_key_least:
  assumes "k \<in> dom M" and "key < k" and "\<And>j. j \<in> dom M \<Longrightarrow> key < j \<Longrightarrow> k \<le> j"
  shows "next_key M key last_key = (case last_key of Some l \<Rightarrow> if k \<ge> l then None else Some k | None \<Rightarrow> Some k)"
proof -
  let ?S = "{k \<in> dom M. key < k \<and> (\<forall>l. last_key = Some l \<longrightarrow> k < l)}"
  show ?thesis
  proof (cases "\<exists>l. last_key = Some l \<and> l \<le> k")
    case True
    then have "?S = {}" using assms(3) by fastforce
    then show ?thesis using True by (auto simp: next_key_def)
  next
    case False
    then have "k \<in> ?S" using assms(1,2) by auto
    moreover have "Min ?S = k" using \<open>k \<in> ?S\<close> assms(3) by (intro Min_eqI) auto
    ultimately have "next_key M key last_key = Some k" unfolding next_key_def Let_def by auto
    then show ?thesis using False by (auto split: option.split)
  qed
qed

lemma next_key_none:
  assumes "\<And>j. j \<in> dom M \<Longrightarrow> \<not> key < j"
  shows "next_key M key last_key = None"
  using assms by (auto simp: next_key_def)

lemma next_key_eq_Some:
  "next_key M key last_key = Some k \<longleftrightarrow> k \<in> dom M \<and> key < k \<and> (\<forall>l. last_key = Some l \<longrightarrow> k < l)
     \<and> (\<forall>j \<in> dom M. key < j \<longrightarrow> k \<le> j)" (is "?l \<longleftrightarrow> ?r")
proof
  let ?S = "{k \<in> dom M. key < k \<and> (\<forall>l. last_key = Some l \<longrightarrow> k < l)}"
  assume l: ?l
  then have "?S \<noteq> {}" and k: "k = Min ?S" by (auto simp: next_key_def Let_def split: if_splits)
  then have "k \<in> ?S" by (metis (no_types, lifting) Min_in finite_code)
  moreover have "k \<le> j" if "j \<in> dom M" "key < j" for j
  proof (cases "\<forall>l. last_key = Some l \<longrightarrow> j < l")
    case True
    then show ?thesis unfolding k using that by (intro Min_le) auto
  next
    case False
    then show ?thesis using \<open>k \<in> ?S\<close> by auto
  qed
  ultimately show ?r by blast
next
  assume r: ?r
  then show ?l using next_key_least [of k M key last_key] by (auto split: option.split)
qed

lemma next_key_SomeD:
  assumes "next_key M key last_key = Some k"
  shows "k \<in> dom M" and "key < k" and "\<forall>l. last_key = Some l \<longrightarrow> k < l" and "\<forall>j \<in> dom M. key < j \<longrightarrow> k \<le> j"
  using assms unfolding next_key_eq_Some by simp_all

lemma next_key_eq_None:
  "next_key M key last_key = None \<longleftrightarrow> (\<forall>j \<in> dom M. key < j \<longrightarrow> (\<exists>l. last_key = Some l \<and> l \<le> j))"
  unfolding next_key_def Let_def by (auto simp: not_less) (metis domI not_le)

lemma smap_upper_bound_next:
  assumes "smap_ok m"
  shows "(case smap_upper_bound key m of [] \<Rightarrow> None
      | (k, _) # _ \<Rightarrow> (case last_key of Some l \<Rightarrow> if k \<ge> l then None else Some k | None \<Rightarrow> Some k))
    = next_key (smap_find m) key last_key"
proof (cases "smap_upper_bound key m")
  case Nil
  then have "\<not> key < j" if "j \<in> dom (smap_find m)" for j
    using set_smap_upper_bound [OF assms, of key] that smap_find_in by fastforce
  then have "next_key (smap_find m) key last_key = None" by (rule next_key_none)
  then show ?thesis using Nil by simp
next
  case (Cons e r)
  obtain k v where e: "e = (k, v)" by fastforce
  have s: "set ((k, v) # r) = {(k', v'). (k', v') \<in> set m \<and> key < k'}"
    using set_smap_upper_bound [OF assms, of key] Cons e by simp
  then have k: "(k, v) \<in> set m" "key < k" by auto
  have "k \<le> j" if j: "j \<in> dom (smap_find m)" "key < j" for j
  proof -
    obtain v' where "smap_find m j = Some v'" using j(1) by blast
    then have "(j, v') \<in> set m" by (rule smap_find_in)
    then have "(j, v') \<in> set ((k, v) # r)" using s j(2) by auto
    moreover have "\<forall>p \<in> set r. k < fst p" using smap_ok_upper_bound [OF assms, of key] Cons e by simp
    ultimately show ?thesis by fastforce
  qed
  moreover have "k \<in> dom (smap_find m)" using k(1) smap_find_iff [OF assms] by blast
  ultimately show ?thesis using Cons e next_key_least [of k "smap_find m" key] k(2) by simp
qed

lemma entries_smap:
  assumes "smap_ok m" and "\<forall>(k, s) \<in> set m. sle_key s = k"
  shows "entries (smap_find m) (map snd m)"
proof -
  have e: "map sle_key (map snd m) = map fst m" using assms(2) by auto
  have "sorted_wrt (<) (map sle_key (map snd m))" unfolding e using assms(1) by (simp add: smap_ok_def)
  moreover have "s \<in> set (map snd m) \<longleftrightarrow> smap_find m (sle_key s) = Some s" for s
    using assms(2) smap_find_iff [OF assms(1), of "sle_key s" s] by force
  ultimately show ?thesis by (simp add: entries_def)
qed

lemma smap_upper_bound_filter: "smap_ok m \<Longrightarrow> smap_upper_bound key m = filter (\<lambda>(k, v). key < k) m"
  by (induction key m rule: smap_upper_bound.induct) (auto intro!: filter_True [symmetric])

lemma smap_find_upper_bound:
  assumes "smap_ok m"
  shows "smap_find (smap_upper_bound key m) k = (if key < k then smap_find m k else None)"
  unfolding smap_upper_bound_filter [OF assms] smap_find_filter [OF assms] by (simp split: option.split)

lemma ledger_okD: "ledger_ok led \<Longrightarrow> smap_find (stateMap led) k = Some e \<Longrightarrow> sle_key e = k \<and> k \<noteq> 0"
  using smap_find_in by (fastforce simp: ledger_ok_def)

interpretation led: ledger_view Ledger_view ledger_contents ledger_ok
proof
  fix s :: "('a, 'b) ledger" and kl key last_key k e
  assume ok: "ledger_ok s"
  note m = ok [unfolded ledger_ok_def, THEN conjunct1]
  show "ledger_contents s k = Some e \<Longrightarrow> sle_key e = k \<and> k \<noteq> 0"
    using ledger_okD [OF ok] by (simp add: ledger_contents_def)
  show "rv_read (Ledger_view s) kl = lookup (ledger_contents s) kl"
    using ledger_okD [OF ok, of 0]
    by (auto simp: Ledger_view_def Ledger_read_def lookup_def ledger_contents_def split: option.split)
  show "lookup (ledger_contents s) kl \<noteq> None \<Longrightarrow> rv_exists (Ledger_view s) kl"
    by (auto simp: Ledger_view_def Ledger_exists_def lookup_def ledger_contents_def split: option.splits)
  show "rv_exists (Ledger_view s) kl \<Longrightarrow> ledger_contents s (kl_key kl) \<noteq> None"
    by (simp add: Ledger_view_def Ledger_exists_def ledger_contents_def)
  show "rv_succ (Ledger_view s) key last_key = Some (next_key (ledger_contents s) key last_key)"
    using smap_upper_bound_next [OF m] by (simp add: Ledger_view_def Ledger_succ_def ledger_contents_def)
  show "\<exists>xs. rv_sles (Ledger_view s) = Some xs \<and> entries (ledger_contents s) xs"
    using entries_smap [OF m] ok by (fastforce simp: Ledger_view_def Ledger_sles_def ledger_contents_def ledger_ok_def)
  have u: "smap_find (smap_upper_bound key (stateMap s)) = above key (ledger_contents s)"
    using smap_find_upper_bound [OF m, of key] by (simp add: ledger_contents_def above_def fun_eq_iff)
  have "entries (smap_find (smap_upper_bound key (stateMap s))) (map snd (smap_upper_bound key (stateMap s)))"
    using entries_smap [OF smap_ok_upper_bound [OF m]] ok set_smap_upper_bound [OF m, of key]
    by (fastforce simp: ledger_ok_def)
  then show "\<exists>xs. rv_upper_bound (Ledger_view s) key = Some xs \<and> entries (above key (ledger_contents s)) xs"
    unfolding u by (simp add: Ledger_view_def Ledger_slesUpperBound_def)
qed

lemma ledger_ok_put: "ledger_ok led \<Longrightarrow> sle_key e \<noteq> 0 \<Longrightarrow> ledger_ok (led\<lparr>stateMap := smap_put (sle_key e) e (stateMap led)\<rparr>)"
  using set_smap_put [of "sle_key e" e "stateMap led"] by (fastforce simp: ledger_ok_def smap_ok_put)

lemma ledger_ok_erase: "ledger_ok led \<Longrightarrow> ledger_ok (led\<lparr>stateMap := smap_erase k (stateMap led)\<rparr>)"
  using set_smap_erase [of k "stateMap led"] by (fastforce simp: ledger_ok_def smap_ok_erase)

interpretation led_raw: raw_view ledger_contents ledger_ok "\<lambda>led. - ledger_drops led"
  Ledger_rawErase Ledger_rawInsert Ledger_rawReplace Ledger_rawDestroy
proof
  fix s :: "('a, 'b) ledger" and e :: "'a sle" and fee
  assume ok: "ledger_ok s"
  show "\<exists>s'. Ledger_rawErase e s = Inr s' \<and> ledger_ok s' \<and>
      ledger_contents s' = (ledger_contents s)(sle_key e := None) \<and> - ledger_drops s' = - ledger_drops s"
    if "ledger_contents s (sle_key e) \<noteq> None"
    using that ok ledger_ok_erase [OF ok, of "sle_key e"]
    by (auto simp: Ledger_rawErase_def ledger_contents_def fun_eq_iff smap_find_erase ledger_ok_def)
  show "\<exists>s'. Ledger_rawInsert e s = Inr s' \<and> ledger_ok s' \<and>
      ledger_contents s' = (ledger_contents s)(sle_key e \<mapsto> e) \<and> - ledger_drops s' = - ledger_drops s"
    if "ledger_contents s (sle_key e) = None" "sle_key e \<noteq> 0"
    using that ledger_ok_put [OF ok that(2)]
    by (simp add: Ledger_rawInsert_def ledger_contents_def fun_eq_iff smap_find_put)
  show "\<exists>s'. Ledger_rawReplace e s = Inr s' \<and> ledger_ok s' \<and>
      ledger_contents s' = (ledger_contents s)(sle_key e \<mapsto> e) \<and> - ledger_drops s' = - ledger_drops s"
    if "ledger_contents s (sle_key e) \<noteq> None"
    using that ledger_ok_put [OF ok, of e] ledger_okD [OF ok]
    by (auto simp: Ledger_rawReplace_def ledger_contents_def fun_eq_iff smap_find_put)
  show "ledger_ok (Ledger_rawDestroy fee s) \<and> ledger_contents (Ledger_rawDestroy fee s) = ledger_contents s \<and>
      - ledger_drops (Ledger_rawDestroy fee s) = - ledger_drops s + fee"
    using ok by (simp add: Ledger_rawDestroy_def ledger_ok_def ledger_contents_def)
qed

end
