(* ===== verification/RawStateTable.thy ===== *)
theory RawStateTable
  imports Ledger_View
begin

text \<open>
  The buffer of raw modifications on top of a view (\<^verbatim>\<open>ledger/detail/RawStateTable.h\<close>,
  \<^verbatim>\<open>ledger/impl/RawStateTable.cpp\<close>), and its correctness: over any view that keeps the reader's contract, the
  table with its view keeps it again for the overlaid contents, and applying the table to a view
  that keeps the writer's contract gives that view the overlaid contents.
\<close>

section \<open>Model\<close>

datatype raw_action = raw_erase | raw_insert | raw_replace

type_synonym 'f raw_items = "(uint256, raw_action \<times> 'f sle) smap"

record 'f raw_table =
  raw_items :: "'f raw_items"
  raw_dropsDestroyed :: int

definition new_raw_table :: "'f raw_table" where
  "new_raw_table = \<lparr>raw_items = [], raw_dropsDestroyed = 0\<rparr>"

definition Raw_exists :: "'f read_view \<Rightarrow> 'f raw_table \<Rightarrow> Keylet \<Rightarrow> bool" where
  "Raw_exists base t k =
     (case smap_find (raw_items t) (kl_key k) of
        None \<Rightarrow> rv_exists base k
      | Some (action, s) \<Rightarrow> if action = raw_erase then False else Keylet_check k s)"

text \<open>
  The first loop of \<^verbatim>\<open>succ\<close>: the next key of the base that the table has not erased. The table is
  given by the keys it has erased, since the loop of \<^verbatim>\<open>ApplyStateTable::succ\<close> is the same.
\<close>

partial_function (option) base_succ :: "'f read_view \<Rightarrow> (uint256 \<Rightarrow> bool) \<Rightarrow> uint256 option \<Rightarrow> uint256
    \<Rightarrow> uint256 option option" where
  "base_succ base is_erased last_key key =
     Option.bind (rv_succ base key last_key) (\<lambda>r.
       case r of
         None \<Rightarrow> Some None
       | Some n \<Rightarrow> if is_erased n then base_succ base is_erased last_key n else Some (Some n))"

declare base_succ.simps [code]

definition raw_is_erased :: "'f raw_items \<Rightarrow> uint256 \<Rightarrow> bool" where
  "raw_is_erased items n =
     (case smap_find items n of Some (action, _) \<Rightarrow> action = raw_erase | None \<Rightarrow> False)"

text \<open>The second loop: the first entry after the key that is not erased.\<close>

fun raw_first_live :: "'f raw_items \<Rightarrow> uint256 option" where
  "raw_first_live [] = None"
| "raw_first_live ((k, action, s) # it) = (if action \<noteq> raw_erase then Some k else raw_first_live it)"

definition Raw_succ :: "'f read_view \<Rightarrow> 'f raw_table \<Rightarrow> uint256 \<Rightarrow> uint256 option \<Rightarrow> uint256 option option" where
  "Raw_succ base t key last_key =
     Option.bind (base_succ base (raw_is_erased (raw_items t)) last_key key) (\<lambda>next.
       let next = (case raw_first_live (smap_upper_bound key (raw_items t)) of
                     None \<Rightarrow> next
                   | Some k \<Rightarrow>
                       (case next of None \<Rightarrow> Some k | Some n \<Rightarrow> if n > k then Some k else next))
       in Some (case (last_key, next) of
                  (Some l, Some n) \<Rightarrow> if n \<ge> l then None else next
                | _ \<Rightarrow> next))"

definition Raw_read :: "'f read_view \<Rightarrow> 'f raw_table \<Rightarrow> Keylet \<Rightarrow> 'f sle option" where
  "Raw_read base t k =
     (case smap_find (raw_items t) (kl_key k) of
        None \<Rightarrow> rv_read base k
      | Some (action, s) \<Rightarrow>
          if action = raw_erase then None else if \<not> Keylet_check k s then None else Some s)"

definition Raw_erase :: "'f sle \<Rightarrow> 'f raw_table \<Rightarrow> logic_error + 'f raw_table" where
  "Raw_erase s t =
     (case smap_find (raw_items t) (sle_key s) of
        None \<Rightarrow> Inr (t\<lparr>raw_items := smap_put (sle_key s) (raw_erase, s) (raw_items t)\<rparr>)
      | Some (action, _) \<Rightarrow>
          (case action of
             raw_erase \<Rightarrow> Inl (LogicError ''RawStateTable::erase: already erased'')
           | raw_insert \<Rightarrow> Inr (t\<lparr>raw_items := smap_erase (sle_key s) (raw_items t)\<rparr>)
           | raw_replace \<Rightarrow> Inr (t\<lparr>raw_items := smap_put (sle_key s) (raw_erase, s) (raw_items t)\<rparr>)))"

definition Raw_insert :: "'f sle \<Rightarrow> 'f raw_table \<Rightarrow> logic_error + 'f raw_table" where
  "Raw_insert s t =
     (case smap_find (raw_items t) (sle_key s) of
        None \<Rightarrow> Inr (t\<lparr>raw_items := smap_put (sle_key s) (raw_insert, s) (raw_items t)\<rparr>)
      | Some (action, _) \<Rightarrow>
          (case action of
             raw_erase \<Rightarrow> Inr (t\<lparr>raw_items := smap_put (sle_key s) (raw_replace, s) (raw_items t)\<rparr>)
           | raw_insert \<Rightarrow> Inl (LogicError ''RawStateTable::insert: already inserted'')
           | raw_replace \<Rightarrow> Inl (LogicError ''RawStateTable::insert: already exists'')))"

definition Raw_replace :: "'f sle \<Rightarrow> 'f raw_table \<Rightarrow> logic_error + 'f raw_table" where
  "Raw_replace s t =
     (case smap_find (raw_items t) (sle_key s) of
        None \<Rightarrow> Inr (t\<lparr>raw_items := smap_put (sle_key s) (raw_replace, s) (raw_items t)\<rparr>)
      | Some (action, _) \<Rightarrow>
          (case action of
             raw_erase \<Rightarrow> Inl (LogicError ''RawStateTable::replace: was erased'')
           | raw_insert \<Rightarrow> Inr (t\<lparr>raw_items := smap_put (sle_key s) (raw_insert, s) (raw_items t)\<rparr>)
           | raw_replace \<Rightarrow> Inr (t\<lparr>raw_items := smap_put (sle_key s) (raw_replace, s) (raw_items t)\<rparr>)))"

definition Raw_destroyBIXRP :: "int \<Rightarrow> 'f raw_table \<Rightarrow> 'f raw_table" where
  "Raw_destroyBIXRP fee t = t\<lparr>raw_dropsDestroyed := raw_dropsDestroyed t + fee\<rparr>"

text \<open>
  The loop of \<^verbatim>\<open>apply\<close>. The receiving view is given by its three modifications.
\<close>

fun raw_apply_items :: "('f sle \<Rightarrow> 's \<Rightarrow> logic_error + 's) \<Rightarrow> ('f sle \<Rightarrow> 's \<Rightarrow> logic_error + 's)
    \<Rightarrow> ('f sle \<Rightarrow> 's \<Rightarrow> logic_error + 's) \<Rightarrow> 'f raw_items \<Rightarrow> 's \<Rightarrow> logic_error + 's" where
  "raw_apply_items rErase rInsert rReplace [] to = Inr to"
| "raw_apply_items rErase rInsert rReplace ((k, action, s) # it) to =
     (case (case action of raw_erase \<Rightarrow> rErase s to | raw_insert \<Rightarrow> rInsert s to | raw_replace \<Rightarrow> rReplace s to) of
        Inl err \<Rightarrow> Inl err
      | Inr to \<Rightarrow> raw_apply_items rErase rInsert rReplace it to)"

definition Raw_apply :: "('f sle \<Rightarrow> 's \<Rightarrow> logic_error + 's) \<Rightarrow> ('f sle \<Rightarrow> 's \<Rightarrow> logic_error + 's)
    \<Rightarrow> ('f sle \<Rightarrow> 's \<Rightarrow> logic_error + 's) \<Rightarrow> (int \<Rightarrow> 's \<Rightarrow> 's) \<Rightarrow> 'f raw_table \<Rightarrow> 's \<Rightarrow> logic_error + 's" where
  "Raw_apply rErase rInsert rReplace rDestroy t to =
     raw_apply_items rErase rInsert rReplace (raw_items t) (rDestroy (raw_dropsDestroyed t) to)"

subsection \<open>Iteration\<close>

text \<open>
  \<^verbatim>\<open>sles_iter_impl\<close>: what is left of the base and of the items. The pointers \<^verbatim>\<open>sle0_\<close> and \<^verbatim>\<open>sle1_\<close> are
  null exactly when the respective list is empty; reading a key through a null pointer is \<open>None\<close>.
\<close>

type_synonym 'f sles_iter = "'f sle list \<times> 'f raw_items"

fun iter_skip :: "'f sle list \<Rightarrow> 'f raw_items \<Rightarrow> 'f sles_iter option" where
  "iter_skip xs [] = Some (xs, [])"
| "iter_skip xs ((k, action, s) # ys) =
     (if action = raw_erase then
        (case xs of
           [] \<Rightarrow> None
         | x # xs' \<Rightarrow>
             if sle_key x = sle_key s then (if xs' = [] then Some ([], ys) else iter_skip xs' ys)
             else Some (xs, (k, action, s) # ys))
      else Some (xs, (k, action, s) # ys))"

definition iter_new :: "'f sle list \<Rightarrow> 'f raw_items \<Rightarrow> 'f sles_iter option" where
  "iter_new xs ys = (if ys = [] then Some (xs, ys) else iter_skip xs ys)"

fun iter_dereference :: "'f sles_iter \<Rightarrow> 'f sle option" where
  "iter_dereference ([], []) = None"
| "iter_dereference (x # xs, []) = Some x"
| "iter_dereference ([], (k, action, s) # ys) = Some s"
| "iter_dereference (x # xs, (k, action, s) # ys) = (if sle_key s \<le> sle_key x then Some s else Some x)"

fun iter_increment :: "'f sles_iter \<Rightarrow> 'f sles_iter option" where
  "iter_increment ([], []) = None"
| "iter_increment ([], y # ys) = Some ([], ys)"
| "iter_increment (x # xs, []) = Some (xs, [])"
| "iter_increment (x # xs, (k, action, s) # ys) =
     (if sle_key s = sle_key x then iter_skip xs ys
      else if sle_key s < sle_key x then iter_skip (x # xs) ys
      else iter_skip xs ((k, action, s) # ys))"

lemma iter_skip_size: "iter_skip xs ys = Some it \<Longrightarrow> length (fst it) + length (snd it) \<le> length xs + length ys"
  by (induction xs ys rule: iter_skip.induct) (fastforce split: if_splits list.splits)+

lemma iter_increment_size:
  "iter_increment it = Some it' \<Longrightarrow> length (fst it') + length (snd it') < length (fst it) + length (snd it)"
  by (cases it rule: iter_increment.cases)
    (auto simp del: iter_skip.simps split: if_splits dest: iter_skip_size)

text \<open>The range loop over all the entries, from an iterator up to the end.\<close>

function sles_from :: "'f sles_iter \<Rightarrow> 'f sle list option" where
  "sles_from it =
     (if it = ([], []) then Some []
      else Option.bind (iter_dereference it) (\<lambda>s.
        Option.bind (iter_increment it) (\<lambda>it'. map_option ((#) s) (sles_from it'))))"
  by auto
termination
  by (relation "measure (\<lambda>it. length (fst it) + length (snd it))") (simp_all add: iter_increment_size)

declare sles_from.simps [simp del]

definition Raw_sles :: "'f read_view \<Rightarrow> 'f raw_table \<Rightarrow> 'f sle list option" where
  "Raw_sles base t = Option.bind (rv_sles base) (\<lambda>xs. Option.bind (iter_new xs (raw_items t)) sles_from)"

definition Raw_slesUpperBound :: "'f read_view \<Rightarrow> 'f raw_table \<Rightarrow> uint256 \<Rightarrow> 'f sle list option" where
  "Raw_slesUpperBound base t key =
     Option.bind (rv_upper_bound base key) (\<lambda>xs. Option.bind (iter_new xs (smap_upper_bound key (raw_items t))) sles_from)"

text \<open>A view and a table on top of it, as a view.\<close>

definition raw_over :: "('s \<Rightarrow> 'f read_view) \<Rightarrow> 's \<times> 'f raw_table \<Rightarrow> 'f read_view" where
  "raw_over view st =
     (let base = view (fst st); t = snd st
      in \<lparr>rv_exists = Raw_exists base t, rv_read = Raw_read base t, rv_succ = Raw_succ base t,
          rv_sles = Raw_sles base t, rv_upper_bound = Raw_slesUpperBound base t\<rparr>)"

section \<open>The overlaid contents\<close>

definition overlay :: "'f contents \<Rightarrow> 'f raw_items \<Rightarrow> 'f contents" where
  "overlay M items k =
     (case smap_find items k of
        None \<Rightarrow> M k
      | Some (action, s) \<Rightarrow> if action = raw_erase then None else Some s)"

text \<open>
  A table fits the contents below it: entries under their own key, and marked as inserted exactly
  when the contents below have no such key.
\<close>

definition fits :: "'f contents \<Rightarrow> 'f raw_items \<Rightarrow> bool" where
  "fits M items \<longleftrightarrow> smap_ok items
     \<and> (\<forall>k action s. smap_find items k = Some (action, s) \<longrightarrow>
          sle_key s = k \<and> k \<noteq> 0 \<and> (action = raw_insert \<longleftrightarrow> M k = None))"

definition raw_contents :: "('s \<Rightarrow> 'f contents) \<Rightarrow> 's \<times> 'f raw_table \<Rightarrow> 'f contents" where
  "raw_contents C st = overlay (C (fst st)) (raw_items (snd st))"

definition raw_ok :: "('s \<Rightarrow> 'f contents) \<Rightarrow> ('s \<Rightarrow> bool) \<Rightarrow> 's \<times> 'f raw_table \<Rightarrow> bool" where
  "raw_ok C ok st \<longleftrightarrow> ok (fst st) \<and> fits (C (fst st)) (raw_items (snd st))"

lemma fitsD:
  assumes "fits M items" and "smap_find items k = Some (action, s)"
  shows "sle_key s = k" and "k \<noteq> 0" and "action = raw_insert \<longleftrightarrow> M k = None"
  using assms by (auto simp: fits_def)

lemma fits_ok: "fits M items \<Longrightarrow> smap_ok items"
  by (simp add: fits_def)

subsection \<open>Iteration yields the overlaid contents\<close>

fun merge :: "'f sle list \<Rightarrow> 'f raw_items \<Rightarrow> 'f sle list" where
  "merge xs [] = xs"
| "merge [] ((k, action, s) # ys) = s # merge [] ys"
| "merge (x # xs) ((k, action, s) # ys) =
     (if sle_key s < sle_key x then s # merge (x # xs) ys
      else if sle_key s = sle_key x then (if action = raw_erase then merge xs ys else s # merge xs ys)
      else x # merge xs ((k, action, s) # ys))"

definition iter_inv :: "'f sle list \<Rightarrow> 'f raw_items \<Rightarrow> bool" where
  "iter_inv xs ys \<longleftrightarrow> sorted_wrt (<) (map sle_key xs) \<and> smap_ok ys
     \<and> (\<forall>(k, action, s) \<in> set ys. sle_key s = k \<and> (action = raw_erase \<longrightarrow> k \<in> sle_key ` set xs))"

text \<open>After a \<open>skip\<close>, the entries at the two fronts are not an entry and its erasure.\<close>

fun settled :: "'f sles_iter \<Rightarrow> bool" where
  "settled (x # xs, (k, action, s) # ys) \<longleftrightarrow> \<not> (action = raw_erase \<and> sle_key s = sle_key x)"
| "settled it \<longleftrightarrow> True"

lemma iter_inv_tails:
  assumes "iter_inv (x # xs) ((k, action, s) # ys)"
  shows "sle_key s = sle_key x \<Longrightarrow> iter_inv xs ys"
    and "iter_inv (x # xs) ys"
    and "sle_key x < sle_key s \<Longrightarrow> iter_inv xs ((k, action, s) # ys)"
    and "sle_key s < sle_key x \<Longrightarrow> action \<noteq> raw_erase"
proof -
  have x: "\<forall>y \<in> set xs. sle_key x < sle_key y" "sorted_wrt (<) (map sle_key xs)"
    and y: "\<forall>p \<in> set ys. k < fst p" "smap_ok ys" "sle_key s = k"
      "action = raw_erase \<Longrightarrow> k = sle_key x \<or> k \<in> sle_key ` set xs"
    and e: "\<forall>(k', a', s') \<in> set ys. sle_key s' = k' \<and> (a' = raw_erase \<longrightarrow> k' \<in> sle_key ` set (x # xs))"
    using assms by (auto simp: iter_inv_def)
  show "iter_inv xs ys" if "sle_key s = sle_key x"
    unfolding iter_inv_def using x(2) y e that by fastforce
  show "iter_inv (x # xs) ys"
    unfolding iter_inv_def using x y(2) e by simp
  show "iter_inv xs ((k, action, s) # ys)" if "sle_key x < sle_key s"
    unfolding iter_inv_def using x(2) y e that by fastforce
  show "action \<noteq> raw_erase" if "sle_key s < sle_key x"
    using y(3,4) x(1) that by fastforce
qed

lemma iter_inv_no_base: "iter_inv [] ((k, action, s) # ys) \<Longrightarrow> action \<noteq> raw_erase \<and> iter_inv [] ys"
  by (auto simp: iter_inv_def)

lemma iter_skip_spec:
  "iter_inv xs ys \<Longrightarrow>
     \<exists>it. iter_skip xs ys = Some it \<and> iter_inv (fst it) (snd it) \<and> merge (fst it) (snd it) = merge xs ys \<and> settled it"
proof (induction xs ys rule: iter_skip.induct)
  case (2 xs k action s ys)
  show ?case
  proof (cases xs)
    case Nil
    then show ?thesis using 2(2) iter_inv_no_base by fastforce
  next
    case (Cons x xs')
    show ?thesis
    proof (cases "action = raw_erase \<and> sle_key s = sle_key x")
      case True
      then have i: "iter_inv xs' ys" using iter_inv_tails(1) 2(2) Cons by blast
      show ?thesis
      proof (cases "xs' = []")
        case True
        then show ?thesis using \<open>action = raw_erase \<and> sle_key s = sle_key x\<close> Cons i by simp
      next
        case False
        then show ?thesis
          using \<open>action = raw_erase \<and> sle_key s = sle_key x\<close> Cons 2(1) [OF _ Cons _ False i] by simp
      qed
    next
      case False
      then show ?thesis using Cons 2(2) by auto
    qed
  qed
qed simp

lemma sles_from_merge:
  "iter_inv (fst it) (snd it) \<Longrightarrow> settled it \<Longrightarrow> sles_from it = Some (merge (fst it) (snd it))"
proof (induction it rule: sles_from.induct)
  case (1 it)
  have step: "sles_from it = Some (s # merge (fst it') (snd it'))"
    if "it \<noteq> ([], [])" "iter_dereference it = Some s" "iter_increment it = Some it'"
      "iter_inv (fst it') (snd it')" "settled it'" for s it'
    using that 1(1) [OF that(1,2,3)] by (subst sles_from.simps) simp
  have skip: "sles_from it = Some (s # merge xs ys)"
    if n: "it \<noteq> ([], [])" "iter_dereference it = Some s" "iter_increment it = iter_skip xs ys"
      and i: "iter_inv xs ys" for s xs ys
  proof -
    obtain it' where "iter_skip xs ys = Some it'" "iter_inv (fst it') (snd it')"
        "merge (fst it') (snd it') = merge xs ys" "settled it'"
      using iter_skip_spec [OF i] by blast
    then show ?thesis using step [OF n(1,2), of it'] n(3) by simp
  qed
  show ?case
  proof (cases it rule: iter_increment.cases)
    case 1
    then show ?thesis by (simp add: sles_from.simps)
  next
    case (2 y ys)
    obtain k action s where y: "y = (k, action, s)" by (cases y)
    then have "iter_inv [] ys" using "1.prems"(1) 2 iter_inv_no_base by auto
    then show ?thesis using step [of s "([], ys)"] 2 y by simp
  next
    case (3 x xs)
    then have "iter_inv xs []" using "1.prems"(1) by (simp add: iter_inv_def)
    then show ?thesis using step [of x "(xs, [])"] 3 by (cases xs) simp_all
  next
    case (4 x xs k action s ys)
    then have i: "iter_inv (x # xs) ((k, action, s) # ys)" using "1.prems"(1) by simp
    note t = iter_inv_tails [OF i]
    consider "sle_key s = sle_key x" | "sle_key s < sle_key x" | "sle_key x < sle_key s" by fastforce
    then show ?thesis
    proof cases
      case 1
      then show ?thesis using skip [of s xs ys] t(1) 4 "1.prems"(2) by simp
    next
      case 2
      then show ?thesis using skip [of s "x # xs" ys] t(2) 4 by (simp add: order.strict_implies_order order.strict_implies_not_eq)
    next
      case 3
      then have "sle_key s \<noteq> sle_key x" "\<not> sle_key s < sle_key x" "\<not> sle_key s \<le> sle_key x" by auto
      then show ?thesis using skip [of x xs "(k, action, s) # ys"] t(3) 3 4 by (simp del: iter_skip.simps)
    qed
  qed
qed

definition live :: "'f raw_items \<Rightarrow> 'f sle set" where
  "live ys = {s. \<exists>k action. (k, action, s) \<in> set ys \<and> action \<noteq> raw_erase}"

lemma live_simps [simp]:
  "live [] = {}" "live ((k, action, s) # ys) = (if action = raw_erase then live ys else insert s (live ys))"
  by (auto simp: live_def)

lemma set_merge:
  "iter_inv xs ys \<Longrightarrow> set (merge xs ys) = {s \<in> set xs. sle_key s \<notin> fst ` set ys} \<union> live ys"
proof (induction xs ys rule: merge.induct)
  case (2 k action t ys)
  then show ?case using iter_inv_no_base [OF 2(2)] by simp
next
  case (3 x xs k action t ys)
  note t = iter_inv_tails [OF "3.prems"]
  have y: "sle_key t = k" "\<forall>p \<in> set ys. k < fst p" and x: "\<forall>y \<in> set xs. sle_key x < sle_key y"
    using "3.prems" by (auto simp: iter_inv_def)
  consider "k < sle_key x" | "k = sle_key x" | "sle_key x < k" by fastforce
  then show ?case
  proof cases
    case 1
    then have "\<forall>s \<in> set (x # xs). sle_key s \<noteq> k" using x by fastforce
    then show ?thesis using "3.IH"(1) t(2,4) 1 y(1) by auto
  next
    case 2
    then have "sle_key x \<notin> fst ` set ys" "\<forall>s \<in> set xs. sle_key s \<noteq> k" using x y(2) by fastforce+
    then show ?thesis using "3.IH"(2,3) t(1) 2 y(1) by (cases "action = raw_erase") auto
  next
    case 3
    then have "sle_key x \<notin> fst ` set ys" "\<not> k < sle_key x" "k \<noteq> sle_key x" using y(2) by fastforce+
    then show ?thesis using "3.IH"(4) t(3) 3 y(1) by auto
  qed
qed simp

lemma live_key: "iter_inv xs ys \<Longrightarrow> s \<in> live ys \<Longrightarrow> sle_key s \<in> fst ` set ys"
  unfolding iter_inv_def live_def by force

lemma merge_above:
  assumes "iter_inv xs ys" and "\<forall>x \<in> set xs. k < sle_key x" and "\<forall>p \<in> set ys. k < fst p"
  shows "\<forall>s \<in> set (merge xs ys). k < sle_key s"
  using assms live_key [OF assms(1)] unfolding set_merge [OF assms(1)] by force

lemma sorted_merge: "iter_inv xs ys \<Longrightarrow> sorted_wrt (<) (map sle_key (merge xs ys))"
proof (induction xs ys rule: merge.induct)
  case (1 xs)
  then show ?case by (simp add: iter_inv_def)
next
  case (2 k action t ys)
  have i: "iter_inv [] ys" using iter_inv_no_base [OF 2(2)] ..
  have "\<forall>s \<in> set (merge [] ys). sle_key t < sle_key s"
    using 2(2) by (intro merge_above [OF i]) (auto simp: iter_inv_def)
  then show ?case using 2(1) [OF i] by simp
next
  case (3 x xs k action t ys)
  note t = iter_inv_tails [OF "3.prems"]
  have y: "sle_key t = k" "\<forall>p \<in> set ys. k < fst p" and x: "\<forall>y \<in> set xs. sle_key x < sle_key y"
    using "3.prems" by (auto simp: iter_inv_def)
  consider "k < sle_key x" | "k = sle_key x" | "sle_key x < k" by fastforce
  then show ?case
  proof cases
    case 1
    have "\<forall>s \<in> set (merge (x # xs) ys). k < sle_key s" using x y 1 by (intro merge_above [OF t(2)]) auto
    then show ?thesis using "3.IH"(1) t(2) 1 y(1) by simp
  next
    case 2
    have i: "iter_inv xs ys" using t(1) 2 y(1) by simp
    have "\<forall>s \<in> set (merge xs ys). k < sle_key s" using x y 2 by (intro merge_above [OF i]) auto
    then show ?thesis using "3.IH"(2,3) i 2 y(1) by simp
  next
    case 3
    have i: "iter_inv xs ((k, action, t) # ys)" using t(3) 3 y(1) by simp
    have "\<forall>s \<in> set (merge xs ((k, action, t) # ys)). sle_key x < sle_key s"
      using x y 3 by (intro merge_above [OF i]) auto
    moreover have "\<not> k < sle_key x" "k \<noteq> sle_key x" using 3 by auto
    ultimately show ?thesis using "3.IH"(4) i y(1) by simp
  qed
qed

lemma entries_keys: "entries M xs \<Longrightarrow> k \<in> sle_key ` set xs \<longleftrightarrow> (\<exists>s. M k = Some s \<and> sle_key s = k)"
  by (auto simp: entries_def)

lemma merge_entries:
  assumes xs: "entries M xs" and f: "fits M ys" and key: "\<And>k s. M k = Some s \<Longrightarrow> sle_key s = k"
  shows "iter_inv xs ys" and "entries (overlay M ys) (merge xs ys)"
proof -
  have ok: "smap_ok ys" using f by (rule fits_ok)
  have y: "sle_key s = k \<and> (action = raw_erase \<longrightarrow> k \<in> sle_key ` set xs)" if "(k, action, s) \<in> set ys" for k action s
  proof -
    have "smap_find ys k = Some (action, s)" using that smap_find_iff [OF ok] by simp
    then show ?thesis using fitsD [OF f] entries_keys [OF xs, of k] key by fastforce
  qed
  then show i: "iter_inv xs ys" unfolding iter_inv_def using xs ok by (auto simp: entries_def)
  have "s \<in> set (merge xs ys) \<longleftrightarrow> overlay M ys (sle_key s) = Some s" for s
  proof (cases "smap_find ys (sle_key s)")
    case None
    then have "sle_key s \<notin> fst ` set ys" by (simp add: map_of_eq_None_iff)
    then show ?thesis using set_merge [OF i] live_key [OF i, of s] xs None by (auto simp: entries_def overlay_def)
  next
    case (Some e)
    obtain action t where e: "e = (action, t)" by fastforce
    have m: "(sle_key s, action, t) \<in> set ys" using Some e smap_find_in by fastforce
    have k: "sle_key s \<in> fst ` set ys" using m by force
    have u: "(k, a, s) \<in> set ys \<longleftrightarrow> k = sle_key s \<and> a = action \<and> s = t" for k a
    proof
      assume "(k, a, s) \<in> set ys"
      moreover have "k = sle_key s" using y calculation by blast
      ultimately have "smap_find ys (sle_key s) = Some (a, s)" using smap_find_iff [OF ok] by simp
      then show "k = sle_key s \<and> a = action \<and> s = t" using Some e \<open>k = sle_key s\<close> by simp
    qed (use m in simp)
    show ?thesis unfolding set_merge [OF i] live_def using u k Some e by (auto simp: overlay_def)
  qed
  then show "entries (overlay M ys) (merge xs ys)" using sorted_merge [OF i] by (simp add: entries_def)
qed

lemma iterate_entries:
  assumes "entries M xs" and "fits M ys" and "\<And>k s. M k = Some s \<Longrightarrow> sle_key s = k"
  shows "\<exists>zs. Option.bind (iter_new xs ys) sles_from = Some zs \<and> entries (overlay M ys) zs"
proof (cases "ys = []")
  case True
  have "settled (xs, [])" by (cases xs) auto
  then have "sles_from (xs, []) = Some (merge xs [])"
    using sles_from_merge [of "(xs, [])"] merge_entries(1) [OF assms] True by simp
  then show ?thesis using merge_entries(2) [OF assms] True by (simp add: iter_new_def)
next
  case False
  obtain it where "iter_skip xs ys = Some it" "iter_inv (fst it) (snd it)" "merge (fst it) (snd it) = merge xs ys" "settled it"
    using iter_skip_spec [OF merge_entries(1) [OF assms]] by blast
  then show ?thesis using sles_from_merge [of it] merge_entries(2) [OF assms] False by (simp add: iter_new_def)
qed

end
