(* ===== verification/RawStateTable_Correct.thy ===== *)
theory RawStateTable_Correct
  imports RawStateTable
begin

text \<open>
  Correctness of the buffer of raw modifications: the search for the next key, the modifications and
  their application to a view, each against the overlaid contents.
\<close>

section \<open>The next key\<close>

definition not_erased :: "'f contents \<Rightarrow> (uint256 \<Rightarrow> bool) \<Rightarrow> 'f contents" where
  "not_erased M is_erased = (\<lambda>k. if is_erased k then None else M k)"

definition live_at :: "'f raw_items \<Rightarrow> 'f contents" where
  "live_at items k = (case smap_find items k of Some (action, s) \<Rightarrow> if action = raw_erase then None else Some s | None \<Rightarrow> None)"

lemma next_key_cong: "(\<And>j. key < j \<Longrightarrow> j \<in> dom M \<longleftrightarrow> j \<in> dom N) \<Longrightarrow> next_key M key last_key = next_key N key last_key"
proof -
  assume e: "\<And>j. key < j \<Longrightarrow> j \<in> dom M \<longleftrightarrow> j \<in> dom N"
  have "{k \<in> dom M. key < k \<and> (\<forall>l. last_key = Some l \<longrightarrow> k < l)} = {k \<in> dom N. key < k \<and> (\<forall>l. last_key = Some l \<longrightarrow> k < l)}"
    using e by blast
  then show ?thesis by (simp add: next_key_def)
qed

context entry_view
begin

lemma base_succ_spec:
  assumes "ok s"
  shows "base_succ (view s) E last_key key = Some (next_key (not_erased (C s) E) key last_key)"
proof (induction "card {j. key < j}" arbitrary: key rule: less_induct)
  case less
  let ?N = "not_erased (C s) E"
  have sub: "dom ?N \<subseteq> dom (C s)" by (auto simp: not_erased_def split: if_splits)
  show ?case
  proof (cases "next_key (C s) key last_key")
    case None
    then have "next_key ?N key last_key = None" using sub unfolding next_key_eq_None by blast
    then show ?thesis using None by (subst base_succ.simps) (simp add: succ [OF assms])
  next
    case (Some n)
    note n = next_key_SomeD [OF Some]
    show ?thesis
    proof (cases "E n")
      case True
      have "{j. n < j} \<subseteq> {j. key < j}" using n(2) by (intro Collect_mono impI) (rule order.strict_trans)
      moreover have "n \<in> {j. key < j} - {j. n < j}" using n(2) by simp
      ultimately have "{j. n < j} \<subset> {j. key < j}" by blast
      from psubset_card_mono [OF finite this] have IH: "base_succ (view s) E last_key n = Some (next_key ?N n last_key)"
        by (rule less(1))
      have "{k \<in> dom ?N. key < k \<and> (\<forall>l. last_key = Some l \<longrightarrow> k < l)} = {k \<in> dom ?N. n < k \<and> (\<forall>l. last_key = Some l \<longrightarrow> k < l)}"
      proof -
        have "n \<notin> dom ?N" using True by (auto simp: not_erased_def)
        have "key < k \<longleftrightarrow> n < k" if k: "k \<in> dom ?N" for k
        proof
          assume "key < k"
          then have "n \<le> k" using n(4) sub k by blast
          moreover have "n \<noteq> k" using k \<open>n \<notin> dom ?N\<close> by blast
          ultimately show "n < k" by simp
        qed (use n(2) in \<open>rule order.strict_trans\<close>)
        then show ?thesis by blast
      qed
      then have "next_key ?N key last_key = next_key ?N n last_key" by (simp add: next_key_def)
      then show ?thesis
        using IH Some True by (subst base_succ.simps) (simp add: succ [OF assms])
    next
      case False
      then have "next_key ?N key last_key = Some n"
        unfolding next_key_eq_Some using n by (auto simp: not_erased_def split: if_splits)
      then show ?thesis
        using Some False by (subst base_succ.simps) (simp add: succ [OF assms])
    qed
  qed
qed

end

lemma raw_first_live_next:
  "smap_ok m \<Longrightarrow> \<forall>p \<in> set m. key < fst p \<Longrightarrow> raw_first_live m = next_key (live_at m) key None"
proof (induction m rule: raw_first_live.induct)
  case 1
  then show ?case by (simp add: next_key_def live_at_def)
next
  case (2 k action s it)
  have n: "smap_find it k = None" using 2(2) by (auto simp: map_of_eq_None_iff)
  show ?case
  proof (cases "action = raw_erase")
    case True
    then have "live_at ((k, action, s) # it) = live_at it" using n by (auto simp: live_at_def fun_eq_iff)
    then show ?thesis using 2 True by simp
  next
    case False
    have "k \<le> j" if jd: "j \<in> dom (live_at ((k, action, s) # it))" for j
    proof (cases "j = k")
      case ne: False
      then obtain e where "smap_find it j = Some e" using jd by (auto simp: live_at_def split: if_splits option.splits)
      then show ?thesis using 2(2) smap_find_in by fastforce
    qed simp
    then have "next_key (live_at ((k, action, s) # it)) key None = Some k"
      unfolding next_key_eq_Some using False 2(3) by (auto simp: live_at_def)
    then show ?thesis using False by simp
  qed
qed

lemma live_at_upper_bound: "smap_ok m \<Longrightarrow> live_at (smap_upper_bound key m) = above key (live_at m)"
  by (auto simp: live_at_def above_def fun_eq_iff smap_find_upper_bound)

lemma next_key_above: "next_key (above key M) key last_key = next_key M key last_key"
  by (rule next_key_cong) (auto simp: above_def)

text \<open>The smaller of the next keys of two contents is the next key of their union.\<close>

lemma next_key_left:
  assumes "dom M = dom N \<union> dom L" and "next_key L key None = None"
  shows "next_key M key last_key = next_key N key last_key"
proof (rule next_key_cong)
  fix j assume "key < j"
  then have "j \<notin> dom L" using assms(2) unfolding next_key_eq_None by blast
  then show "j \<in> dom M \<longleftrightarrow> j \<in> dom N" using assms(1) by blast
qed

lemma next_key_right:
  assumes d: "dom M = dom N \<union> dom L" and k: "next_key L key None = Some k" and n: "next_key N key last_key = None"
  shows "next_key M key last_key = (case last_key of Some l \<Rightarrow> if k \<ge> l then None else Some k | None \<Rightarrow> Some k)"
proof -
  note k = next_key_SomeD [OF k]
  have "dom N \<inter> {j. key < j} = {} \<or> (\<exists>l. last_key = Some l)" and
    N: "\<And>l j. last_key = Some l \<Longrightarrow> j \<in> dom N \<Longrightarrow> key < j \<Longrightarrow> l \<le> j"
    using n unfolding next_key_eq_None by auto
  show ?thesis
  proof (cases last_key)
    case None
    then have "j \<notin> dom N" if "key < j" for j using n that unfolding next_key_eq_None by blast
    then have "next_key M key last_key = Some k" unfolding next_key_eq_Some d using k None by auto
    then show ?thesis using None by simp
  next
    case (Some l)
    show ?thesis
    proof (cases "l \<le> k")
      case True
      have "l \<le> j" if "j \<in> dom N \<union> dom L" "key < j" for j
        using that(1)
      proof
        assume "j \<in> dom L"
        then have "k \<le> j" using k(4) that(2) by blast
        then show ?thesis using True by simp
      qed (rule N [OF Some _ that(2)])
      then have "next_key M key last_key = None" unfolding next_key_eq_None d using Some by blast
      then show ?thesis using Some True by simp
    next
      case False
      have "k \<le> j" if "j \<in> dom N \<union> dom L" "key < j" for j
        using that(1)
      proof
        assume "j \<in> dom N"
        then have "l \<le> j" using N Some that(2) by blast
        then show ?thesis using False by simp
      qed (use k(4) that(2) in blast)
      then have "next_key M key last_key = Some k" unfolding next_key_eq_Some d using k(1,2) Some False by auto
      then show ?thesis using Some False by simp
    qed
  qed
qed

lemma next_key_both:
  assumes d: "dom M = dom N \<union> dom L" and k: "next_key L key None = Some k" and n: "next_key N key last_key = Some n"
  shows "next_key M key last_key = Some (if n > k then k else n)"
proof -
  note k = next_key_SomeD [OF k] and n = next_key_SomeD [OF n]
  let ?m = "if n > k then k else n"
  have m: "?m \<le> n" "?m \<le> k" "?m \<in> dom N \<union> dom L" "key < ?m" using n(1,2) k(1,2) by auto
  have "?m \<le> j" if "j \<in> dom N \<union> dom L" "key < j" for j
    using that(1)
  proof
    assume "j \<in> dom N"
    then have "n \<le> j" using n(4) that(2) by blast
    with m(1) show ?thesis by (rule order.trans)
  next
    assume "j \<in> dom L"
    then have "k \<le> j" using k(4) that(2) by blast
    with m(2) show ?thesis by (rule order.trans)
  qed
  moreover have "?m < l" if "last_key = Some l" for l
    using order.strict_trans1 [OF m(1)] n(3) that by blast
  ultimately show ?thesis unfolding next_key_eq_Some d using m(3,4) by blast
qed

lemma next_key_union:
  fixes M N L :: "'f contents"
  assumes "dom M = dom N \<union> dom L"
  shows "next_key M key last_key =
    (let nxt = (case next_key L key None of
                  None \<Rightarrow> next_key N key last_key
                | Some k \<Rightarrow> (case next_key N key last_key of None \<Rightarrow> Some k
                    | Some n \<Rightarrow> if n > k then Some k else next_key N key last_key))
     in case (last_key, nxt) of (Some l, Some n) \<Rightarrow> if n \<ge> l then None else nxt | _ \<Rightarrow> nxt)"
proof -
  have b: "\<not> l \<le> n" if "next_key M' key last_key = Some n" "last_key = Some l" for M' :: "'f contents" and n l
    using next_key_SomeD(3) [OF that(1)] that(2) by (simp add: not_le)
  show ?thesis
  proof (cases "next_key L key None")
    case None
    then show ?thesis using next_key_left [OF assms None, of last_key] b [of N]
      by (cases last_key; cases "next_key N key last_key") simp_all
  next
    case (Some k)
    show ?thesis
    proof (cases "next_key N key last_key")
      case None
      then show ?thesis using next_key_right [OF assms Some None] Some by (cases last_key) simp_all
    next
      case n: (Some n)
      then show ?thesis using next_key_both [OF assms Some n] Some b [of M "if n > k then k else n"]
        by (cases last_key; cases "n > k") simp_all
    qed
  qed
qed

section \<open>Modifications\<close>

lemma dom_overlay: "dom (overlay M items) = dom (not_erased M (raw_is_erased items)) \<union> dom (live_at items)"
  by (auto simp: overlay_def not_erased_def live_at_def raw_is_erased_def split: option.splits if_splits)

lemma overlay_put:
  "overlay M (smap_put k (action, e) items) = (overlay M items)(k := if action = raw_erase then None else Some e)"
  by (auto simp: overlay_def smap_find_put fun_eq_iff)

lemma overlay_erase: "smap_ok items \<Longrightarrow> overlay M (smap_erase k items) = (overlay M items)(k := M k)"
  by (auto simp: overlay_def smap_find_erase fun_eq_iff)

lemma fits_put:
  assumes "fits M items" and "sle_key e \<noteq> 0" and "action = raw_insert \<longleftrightarrow> M (sle_key e) = None"
  shows "fits M (smap_put (sle_key e) (action, e) items)"
  using assms by (auto simp: fits_def smap_ok_put smap_find_put split: if_splits)

lemma fits_erase: "fits M items \<Longrightarrow> fits M (smap_erase k items)"
  by (auto simp: fits_def smap_ok_erase smap_find_erase split: if_splits)

text \<open>Each modification of the table does to the overlaid contents what its name says.\<close>

lemma Raw_erase_spec:
  assumes f: "fits M (raw_items t)" and key: "M 0 = None"
    and e: "overlay M (raw_items t) (sle_key e) \<noteq> None"
  shows "\<exists>t'. Raw_erase e t = Inr t' \<and> fits M (raw_items t') \<and> raw_dropsDestroyed t' = raw_dropsDestroyed t
     \<and> overlay M (raw_items t') = (overlay M (raw_items t))(sle_key e := None)"
proof (cases "smap_find (raw_items t) (sle_key e)")
  case None
  then have "M (sle_key e) \<noteq> None" "sle_key e \<noteq> 0" using e key by (auto simp: overlay_def)
  then show ?thesis using None fits_put [OF f, of e raw_erase] by (auto simp: Raw_erase_def overlay_put)
next
  case (Some p)
  obtain action s where p: "p = (action, s)" by fastforce
  note d = fitsD [OF f Some [unfolded p]]
  show ?thesis
    using Some p e d fits_put [OF f, of e raw_erase] fits_erase [OF f]
    by (cases action) (auto simp: Raw_erase_def overlay_put overlay_erase [OF fits_ok [OF f]] overlay_def [of _ _ "sle_key e"])
qed

lemma Raw_insert_spec:
  assumes f: "fits M (raw_items t)" and "overlay M (raw_items t) (sle_key e) = None" and "sle_key e \<noteq> 0"
  shows "\<exists>t'. Raw_insert e t = Inr t' \<and> fits M (raw_items t') \<and> raw_dropsDestroyed t' = raw_dropsDestroyed t
     \<and> overlay M (raw_items t') = (overlay M (raw_items t))(sle_key e \<mapsto> e)"
proof (cases "smap_find (raw_items t) (sle_key e)")
  case None
  then show ?thesis using assms fits_put [OF f assms(3), of raw_insert]
    by (auto simp: Raw_insert_def overlay_put overlay_def [of _ _ "sle_key e"])
next
  case (Some p)
  obtain action s where p: "p = (action, s)" by fastforce
  have "action = raw_erase" using assms(2) Some p by (auto simp: overlay_def split: if_splits)
  then show ?thesis
    using Some p fitsD(3) [OF f Some [unfolded p]] fits_put [OF f assms(3), of raw_replace]
    by (auto simp: Raw_insert_def overlay_put)
qed

lemma Raw_replace_spec:
  assumes f: "fits M (raw_items t)" and key: "M 0 = None"
    and e: "overlay M (raw_items t) (sle_key e) \<noteq> None"
  shows "\<exists>t'. Raw_replace e t = Inr t' \<and> fits M (raw_items t') \<and> raw_dropsDestroyed t' = raw_dropsDestroyed t
     \<and> overlay M (raw_items t') = (overlay M (raw_items t))(sle_key e \<mapsto> e)"
proof (cases "smap_find (raw_items t) (sle_key e)")
  case None
  then have "M (sle_key e) \<noteq> None" "sle_key e \<noteq> 0" using e key by (auto simp: overlay_def)
  then show ?thesis using None fits_put [OF f, of e raw_replace] by (auto simp: Raw_replace_def overlay_put)
next
  case (Some p)
  obtain action s where p: "p = (action, s)" by fastforce
  note d = fitsD [OF f Some [unfolded p]]
  show ?thesis
    using Some p e d fits_put [OF f, of e action]
    by (cases action) (auto simp: Raw_replace_def overlay_put overlay_def [of _ _ "sle_key e"])
qed

section \<open>Applying the table\<close>

lemma overlay_Cons:
  assumes "fits M ((k, action, s) # it)"
  shows "overlay M ((k, action, s) # it) = overlay (M(k := if action = raw_erase then None else Some s)) it"
    and "fits (M(k := if action = raw_erase then None else Some s)) it"
proof -
  have n: "smap_find it k = None" using fits_ok [OF assms] by (auto simp: map_of_eq_None_iff)
  then show "overlay M ((k, action, s) # it) = overlay (M(k := if action = raw_erase then None else Some s)) it"
    by (auto simp: overlay_def fun_eq_iff split: option.split)
  have "sle_key u = j \<and> j \<noteq> 0 \<and> (a = raw_insert \<longleftrightarrow> (M(k := if action = raw_erase then None else Some s)) j = None)"
    if j: "smap_find it j = Some (a, u)" for j a u
  proof -
    have "j \<noteq> k" using n j by auto
    then show ?thesis using fitsD [OF assms, of j a u] j by simp
  qed
  moreover have "smap_ok it" using fits_ok [OF assms] by simp
  ultimately show "fits (M(k := if action = raw_erase then None else Some s)) it" unfolding fits_def by blast
qed

context raw_view
begin

lemma raw_apply_items_spec:
  "ok to \<Longrightarrow> fits (C to) items \<Longrightarrow>
     \<exists>to'. raw_apply_items rawErase rawInsert rawReplace items to = Inr to' \<and> ok to'
       \<and> C to' = overlay (C to) items \<and> D to' = D to"
proof (induction items arbitrary: to)
  case Nil
  then show ?case by (simp add: overlay_def fun_eq_iff)
next
  case (Cons p it)
  obtain k action s where p: "p = (k, action, s)" by (cases p)
  have d: "sle_key s = k" "k \<noteq> 0" "action = raw_insert \<longleftrightarrow> C to k = None"
    using fitsD [OF Cons.prems(2) [unfolded p], of k action s] by simp_all
  have "\<exists>to1. (case action of raw_erase \<Rightarrow> rawErase s to | raw_insert \<Rightarrow> rawInsert s to | raw_replace \<Rightarrow> rawReplace s to) = Inr to1
      \<and> ok to1 \<and> C to1 = (C to)(k := if action = raw_erase then None else Some s) \<and> D to1 = D to"
    using d erase [OF Cons.prems(1), of s] insert [OF Cons.prems(1), of s] replace [OF Cons.prems(1), of s]
    by (cases action) auto
  then obtain to1 where
    r: "(case action of raw_erase \<Rightarrow> rawErase s to | raw_insert \<Rightarrow> rawInsert s to | raw_replace \<Rightarrow> rawReplace s to) = Inr to1"
    and to1: "ok to1" "C to1 = (C to)(k := if action = raw_erase then None else Some s)" "D to1 = D to" by blast
  note o = overlay_Cons [OF Cons.prems(2) [unfolded p], folded to1(2)]
  show ?case
    using Cons.IH [OF to1(1) o(2)] unfolding p o(1) raw_apply_items.simps r to1(3) by simp
qed

lemma Raw_apply_spec:
  assumes "ok to" and "fits (C to) (raw_items t)"
  shows "\<exists>to'. Raw_apply rawErase rawInsert rawReplace rawDestroy t to = Inr to' \<and> ok to'
    \<and> C to' = overlay (C to) (raw_items t) \<and> D to' = D to + raw_dropsDestroyed t"
  using raw_apply_items_spec [of "rawDestroy (raw_dropsDestroyed t) to" "raw_items t"]
    destroy [OF assms(1), of "raw_dropsDestroyed t"] assms(2) by (simp add: Raw_apply_def)

end

section \<open>The contract of a view, carried over\<close>

context entry_view
begin

lemma Raw_succ_spec:
  assumes "ok s" and "smap_ok (raw_items t)"
  shows "Raw_succ (view s) t key last_key = Some (next_key (overlay (C s) (raw_items t)) key last_key)"
proof -
  have "raw_first_live (smap_upper_bound key (raw_items t)) = next_key (live_at (raw_items t)) key None"
    using raw_first_live_next [OF smap_ok_upper_bound [OF assms(2)], of key key] set_smap_upper_bound [OF assms(2), of key]
    by (auto simp: live_at_upper_bound [OF assms(2)] next_key_above)
  then show ?thesis
    unfolding Raw_succ_def base_succ_spec [OF assms(1)] next_key_union [OF dom_overlay] by (simp add: Let_def)
qed

lemma raw_over_entry: "entry_view (raw_over view) (raw_contents C) (raw_ok C ok)"
proof
  fix st :: "'s \<times> 'f raw_table" and kl key last_key k e
  obtain s t where st: "st = (s, t)" by fastforce
  assume "raw_ok C ok st"
  then have s: "ok s" and f: "fits (C s) (raw_items t)" by (simp_all add: st raw_ok_def)
  note simps = st raw_over_def raw_contents_def Let_def
  show "raw_contents C st k = Some e \<Longrightarrow> sle_key e = k \<and> k \<noteq> 0"
    using keyed [OF s] fitsD [OF f, of k] by (auto simp: simps overlay_def split: option.splits if_splits)
  show "rv_read (raw_over view st) kl = lookup (raw_contents C st) kl"
    by (auto simp: simps Raw_read_def lookup_def overlay_def read [OF s] split: option.split)
  show "lookup (raw_contents C st) kl \<noteq> None \<Longrightarrow> rv_exists (raw_over view st) kl"
    using exists_typed [OF s, of kl]
    by (auto simp: simps Raw_exists_def lookup_def overlay_def split: option.splits if_splits)
  show "rv_exists (raw_over view st) kl \<Longrightarrow> raw_contents C st (kl_key kl) \<noteq> None"
    using exists_key [OF s, of kl] by (auto simp: simps Raw_exists_def overlay_def split: option.splits if_splits)
  show "rv_succ (raw_over view st) key last_key = Some (next_key (raw_contents C st) key last_key)"
    using Raw_succ_spec [OF s fits_ok [OF f]] by (simp add: simps)
qed

end

context ledger_view
begin

lemma fits_above: "fits M items \<Longrightarrow> fits (above key M) (smap_upper_bound key items)"
  using smap_ok_upper_bound by (auto simp: fits_def above_def smap_find_upper_bound split: if_splits)

lemma overlay_above: "smap_ok items \<Longrightarrow> overlay (above key M) (smap_upper_bound key items) = above key (overlay M items)"
  by (auto simp: overlay_def above_def fun_eq_iff smap_find_upper_bound)

lemma raw_over_view: "ledger_view (raw_over view) (raw_contents C) (raw_ok C ok)"
proof (rule ledger_view.intro [OF raw_over_entry], unfold_locales)
  fix st :: "'s \<times> 'f raw_table" and key
  obtain s t where st: "st = (s, t)" by fastforce
  assume "raw_ok C ok st"
  then have s: "ok s" and f: "fits (C s) (raw_items t)" by (simp_all add: st raw_ok_def)
  note simps = st raw_over_def raw_contents_def Let_def
  obtain xs where "rv_sles (view s) = Some xs" "entries (C s) xs" using sles [OF s] by blast
  then show "\<exists>xs. rv_sles (raw_over view st) = Some xs \<and> entries (raw_contents C st) xs"
    using iterate_entries [OF _ f, of xs] keyed [OF s] by (simp add: simps Raw_sles_def)
  have aboveD: "above key (C s) k = Some e \<Longrightarrow> sle_key e = k" for k e
    using keyed [OF s] by (simp add: above_def split: if_splits)
  obtain ys where "rv_upper_bound (view s) key = Some ys" "entries (above key (C s)) ys" using upper_bound [OF s] by blast
  then show "\<exists>xs. rv_upper_bound (raw_over view st) key = Some xs \<and> entries (above key (raw_contents C st)) xs"
    using iterate_entries [OF _ fits_above [OF f, of key], of ys] aboveD
    by (simp add: simps Raw_slesUpperBound_def overlay_above [OF fits_ok [OF f]])
qed

end

end
