(* ===== verification/ApplyStateTable.thy ===== *)
theory ApplyStateTable
  imports RawStateTable_Correct
begin

text \<open>
  The journal of a transaction (\<^verbatim>\<open>ledger/detail/ApplyStateTable.h\<close>, \<^verbatim>\<open>ledger/impl/ApplyStateTable.cpp\<close>):
  entries are checked out of the view below, changed in place through the pointer, and marked as
  updated or erased. The table compares pointers, so the entries live in a store and the table holds
  their addresses; a \<^verbatim>\<open>shared_ptr\<close> that is not null always leads to an entry of the store.
\<close>

section \<open>Model\<close>

type_synonym addr = nat

type_synonym 'f store = "'f sle list"

definition make_shared :: "'f sle \<Rightarrow> 'f store \<Rightarrow> addr \<times> 'f store" where
  "make_shared s h = (length h, h @ [s])"

datatype apply_action = act_cache | act_erase | act_insert | act_modify

type_synonym apply_items = "(uint256, apply_action \<times> addr) smap"

record apply_table =
  app_items :: apply_items
  app_dropsDestroyed :: int

definition new_apply_table :: apply_table where
  "new_apply_table = \<lparr>app_items = [], app_dropsDestroyed = 0\<rparr>"

fun apply_items_to :: "('f sle \<Rightarrow> 's \<Rightarrow> logic_error + 's) \<Rightarrow> ('f sle \<Rightarrow> 's \<Rightarrow> logic_error + 's)
    \<Rightarrow> ('f sle \<Rightarrow> 's \<Rightarrow> logic_error + 's) \<Rightarrow> 'f store \<Rightarrow> apply_items \<Rightarrow> 's \<Rightarrow> logic_error + 's" where
  "apply_items_to rErase rInsert rReplace h [] to = Inr to"
| "apply_items_to rErase rInsert rReplace h ((k, action, p) # it) to =
     (case (case action of
              act_cache \<Rightarrow> Inr to
            | act_erase \<Rightarrow> rErase (h ! p) to
            | act_insert \<Rightarrow> rInsert (h ! p) to
            | act_modify \<Rightarrow> rReplace (h ! p) to) of
        Inl err \<Rightarrow> Inl err
      | Inr to \<Rightarrow> apply_items_to rErase rInsert rReplace h it to)"

definition Apply_apply :: "('f sle \<Rightarrow> 's \<Rightarrow> logic_error + 's) \<Rightarrow> ('f sle \<Rightarrow> 's \<Rightarrow> logic_error + 's)
    \<Rightarrow> ('f sle \<Rightarrow> 's \<Rightarrow> logic_error + 's) \<Rightarrow> (int \<Rightarrow> 's \<Rightarrow> 's) \<Rightarrow> 'f store \<Rightarrow> apply_table \<Rightarrow> 's
    \<Rightarrow> logic_error + 's" where
  "Apply_apply rErase rInsert rReplace rDestroy h t to =
     apply_items_to rErase rInsert rReplace h (app_items t) (rDestroy (app_dropsDestroyed t) to)"

definition Apply_size :: "apply_table \<Rightarrow> nat" where
  "Apply_size t = length (filter (\<lambda>(k, action, p). action \<noteq> act_cache) (app_items t))"

text \<open>The calls \<^verbatim>\<open>visit\<close> makes, in order: the key, whether it is a deletion, the entry before and after.\<close>

fun visit_items :: "'f read_view \<Rightarrow> 'f store \<Rightarrow> apply_items \<Rightarrow> (uint256 \<times> bool \<times> 'f sle option \<times> 'f sle) list" where
  "visit_items to h [] = []"
| "visit_items to h ((k, action, p) # it) =
     (case action of
        act_erase \<Rightarrow> [(k, True, rv_read to (keylet_unchecked k), h ! p)]
      | act_insert \<Rightarrow> [(k, False, None, h ! p)]
      | act_modify \<Rightarrow> [(k, False, rv_read to (keylet_unchecked k), h ! p)]
      | act_cache \<Rightarrow> []) @ visit_items to h it"

definition Apply_visit :: "'f read_view \<Rightarrow> 'f store \<Rightarrow> apply_table \<Rightarrow> (uint256 \<times> bool \<times> 'f sle option \<times> 'f sle) list" where
  "Apply_visit to h t = visit_items to h (app_items t)"

definition Apply_exists :: "'f read_view \<Rightarrow> 'f store \<Rightarrow> apply_table \<Rightarrow> Keylet \<Rightarrow> bool" where
  "Apply_exists base h t k =
     (case smap_find (app_items t) (kl_key k) of
        None \<Rightarrow> rv_exists base k
      | Some (action, p) \<Rightarrow> if action = act_erase then False else Keylet_check k (h ! p))"

definition apply_is_erased :: "apply_items \<Rightarrow> uint256 \<Rightarrow> bool" where
  "apply_is_erased items n =
     (case smap_find items n of Some (action, _) \<Rightarrow> action = act_erase | None \<Rightarrow> False)"

fun apply_first_live :: "apply_items \<Rightarrow> uint256 option" where
  "apply_first_live [] = None"
| "apply_first_live ((k, action, p) # it) = (if action \<noteq> act_erase then Some k else apply_first_live it)"

definition Apply_succ :: "'f read_view \<Rightarrow> apply_table \<Rightarrow> uint256 \<Rightarrow> uint256 option \<Rightarrow> uint256 option option" where
  "Apply_succ base t key last_key =
     Option.bind (base_succ base (apply_is_erased (app_items t)) last_key key) (\<lambda>next.
       let next = (case apply_first_live (smap_upper_bound key (app_items t)) of
                     None \<Rightarrow> next
                   | Some k \<Rightarrow>
                       (case next of None \<Rightarrow> Some k | Some n \<Rightarrow> if n > k then Some k else next))
       in Some (case (last_key, next) of
                  (Some l, Some n) \<Rightarrow> if n \<ge> l then None else next
                | _ \<Rightarrow> next))"

definition Apply_read :: "'f read_view \<Rightarrow> 'f store \<Rightarrow> apply_table \<Rightarrow> Keylet \<Rightarrow> 'f sle option" where
  "Apply_read base h t k =
     (case smap_find (app_items t) (kl_key k) of
        None \<Rightarrow> rv_read base k
      | Some (action, p) \<Rightarrow>
          if action = act_erase then None else if \<not> Keylet_check k (h ! p) then None else Some (h ! p))"

text \<open>\<^verbatim>\<open>emplace_hint\<close> keeps what the map has under the key of the entry and returns that.\<close>

definition Apply_peek :: "'f read_view \<Rightarrow> Keylet \<Rightarrow> 'f store \<times> apply_table \<Rightarrow> addr option \<times> 'f store \<times> apply_table" where
  "Apply_peek base k st =
     (case st of (h, t) \<Rightarrow>
        (case smap_find (app_items t) (kl_key k) of
           None \<Rightarrow>
             (case rv_read base k of
                None \<Rightarrow> (None, h, t)
              | Some s \<Rightarrow>
                  (let (p, h') = make_shared s h
                   in case smap_find (app_items t) (sle_key s) of
                        None \<Rightarrow> (Some p, h', t\<lparr>app_items := smap_put (sle_key s) (act_cache, p) (app_items t)\<rparr>)
                      | Some (_, q) \<Rightarrow> (Some q, h', t)))
         | Some (action, p) \<Rightarrow>
             if action = act_erase then (None, h, t)
             else if \<not> Keylet_check k (h ! p) then (None, h, t)
             else (Some p, h, t)))"

definition Apply_erase :: "'f store \<Rightarrow> addr \<Rightarrow> apply_table \<Rightarrow> logic_error + apply_table" where
  "Apply_erase h s t =
     (let key = sle_key (h ! s)
      in case smap_find (app_items t) key of
           None \<Rightarrow> Inl (LogicError ''ApplyStateTable::erase: missing key'')
         | Some (action, p) \<Rightarrow>
             if p \<noteq> s then Inl (LogicError ''ApplyStateTable::erase: unknown SLE'')
             else (case action of
                act_erase \<Rightarrow> Inl (LogicError ''ApplyStateTable::erase: double erase'')
              | act_insert \<Rightarrow> Inr (t\<lparr>app_items := smap_erase key (app_items t)\<rparr>)
              | _ \<Rightarrow> Inr (t\<lparr>app_items := smap_put key (act_erase, p) (app_items t)\<rparr>)))"

definition Apply_rawErase :: "'f store \<Rightarrow> addr \<Rightarrow> apply_table \<Rightarrow> logic_error + apply_table" where
  "Apply_rawErase h s t =
     (let key = sle_key (h ! s)
      in case smap_find (app_items t) key of
           None \<Rightarrow> Inr (t\<lparr>app_items := smap_put key (act_erase, s) (app_items t)\<rparr>)
         | Some (action, p) \<Rightarrow>
             (case action of
                act_erase \<Rightarrow> Inl (LogicError ''ApplyStateTable::rawErase: double erase'')
              | act_insert \<Rightarrow> Inr (t\<lparr>app_items := smap_erase key (app_items t)\<rparr>)
              | _ \<Rightarrow> Inr (t\<lparr>app_items := smap_put key (act_erase, s) (app_items t)\<rparr>)))"

definition Apply_insert :: "'f store \<Rightarrow> addr \<Rightarrow> apply_table \<Rightarrow> logic_error + apply_table" where
  "Apply_insert h s t =
     (let key = sle_key (h ! s)
      in case smap_find (app_items t) key of
           None \<Rightarrow> Inr (t\<lparr>app_items := smap_put key (act_insert, s) (app_items t)\<rparr>)
         | Some (action, p) \<Rightarrow>
             (case action of
                act_cache \<Rightarrow> Inl (LogicError ''ApplyStateTable::insert: already cached'')
              | act_insert \<Rightarrow> Inl (LogicError ''ApplyStateTable::insert: already inserted'')
              | act_modify \<Rightarrow> Inl (LogicError ''ApplyStateTable::insert: already modified'')
              | act_erase \<Rightarrow> Inr (t\<lparr>app_items := smap_put key (act_modify, s) (app_items t)\<rparr>)))"

definition Apply_replace :: "'f store \<Rightarrow> addr \<Rightarrow> apply_table \<Rightarrow> logic_error + apply_table" where
  "Apply_replace h s t =
     (let key = sle_key (h ! s)
      in case smap_find (app_items t) key of
           None \<Rightarrow> Inr (t\<lparr>app_items := smap_put key (act_modify, s) (app_items t)\<rparr>)
         | Some (action, p) \<Rightarrow>
             (case action of
                act_erase \<Rightarrow> Inl (LogicError ''ApplyStateTable::replace: already erased'')
              | act_cache \<Rightarrow> Inr (t\<lparr>app_items := smap_put key (act_modify, s) (app_items t)\<rparr>)
              | _ \<Rightarrow> Inr (t\<lparr>app_items := smap_put key (action, s) (app_items t)\<rparr>)))"

definition Apply_update :: "'f store \<Rightarrow> addr \<Rightarrow> apply_table \<Rightarrow> logic_error + apply_table" where
  "Apply_update h s t =
     (let key = sle_key (h ! s)
      in case smap_find (app_items t) key of
           None \<Rightarrow> Inl (LogicError ''ApplyStateTable::update: missing key'')
         | Some (action, p) \<Rightarrow>
             if p \<noteq> s then Inl (LogicError ''ApplyStateTable::update: unknown SLE'')
             else (case action of
                act_erase \<Rightarrow> Inl (LogicError ''ApplyStateTable::update: erased'')
              | act_cache \<Rightarrow> Inr (t\<lparr>app_items := smap_put key (act_modify, p) (app_items t)\<rparr>)
              | _ \<Rightarrow> Inr t))"

definition Apply_destroyBIXRP :: "int \<Rightarrow> apply_table \<Rightarrow> apply_table" where
  "Apply_destroyBIXRP fee t = t\<lparr>app_dropsDestroyed := app_dropsDestroyed t + fee\<rparr>"

section \<open>What a journal stands for\<close>

text \<open>
  The journal as a table of raw modifications: all of it, as the readers see it, where an entry that
  was only checked out counts with what its pointer leads to; and the part that is to be applied.
\<close>

fun as_raw :: "apply_action \<Rightarrow> raw_action" where
  "as_raw act_erase = raw_erase"
| "as_raw act_insert = raw_insert"
| "as_raw _ = raw_replace"

definition seen :: "'f store \<Rightarrow> apply_items \<Rightarrow> 'f raw_items" where
  "seen h = map (\<lambda>(k, action, p). (k, as_raw action, h ! p))"

definition marked :: "'f store \<Rightarrow> apply_items \<Rightarrow> 'f raw_items" where
  "marked h items = seen h (filter (\<lambda>(k, action, p). action \<noteq> act_cache) items)"

text \<open>
  A journal fits the contents below it: pointers into the store, entries under their own key, and
  inserted exactly where there is nothing below. A key is unmarked when its entry was changed through
  the pointer and not marked as updated.
\<close>

definition apply_fits :: "'f contents \<Rightarrow> 'f store \<Rightarrow> apply_items \<Rightarrow> bool" where
  "apply_fits M h items \<longleftrightarrow> smap_ok items
     \<and> (\<forall>k action p. smap_find items k = Some (action, p) \<longrightarrow>
          p < length h \<and> sle_key (h ! p) = k \<and> k \<noteq> 0 \<and> (action = act_insert \<longleftrightarrow> M k = None))"

definition unmarked :: "'f contents \<Rightarrow> 'f store \<Rightarrow> apply_items \<Rightarrow> uint256 set" where
  "unmarked M h items = {k. \<exists>p. smap_find items k = Some (act_cache, p) \<and> M k \<noteq> Some (h ! p)}"

text \<open>A change of the journal at one key, which leaves that key marked or takes it out.\<close>

definition changed_at :: "uint256 \<Rightarrow> apply_items \<Rightarrow> apply_items \<Rightarrow> bool" where
  "changed_at k items items' \<longleftrightarrow> (\<forall>j. j \<noteq> k \<longrightarrow> smap_find items' j = smap_find items j)
     \<and> (\<forall>p. smap_find items' k \<noteq> Some (act_cache, p))"

lemma apply_fitsD:
  assumes "apply_fits M h items" and "smap_find items k = Some (action, p)"
  shows "p < length h" and "sle_key (h ! p) = k" and "k \<noteq> 0" and "action = act_insert \<longleftrightarrow> M k = None"
  using assms by (auto simp: apply_fits_def)

lemma apply_fits_ok: "apply_fits M h items \<Longrightarrow> smap_ok items"
  by (simp add: apply_fits_def)

lemma as_raw_iff [simp]:
  "as_raw a = raw_erase \<longleftrightarrow> a = act_erase" "as_raw a = raw_insert \<longleftrightarrow> a = act_insert"
  by (cases a; simp)+

lemma seen_eq_map_snd: "seen h items = map (\<lambda>(k, v). (k, (\<lambda>(action, p). (as_raw action, h ! p)) v)) items"
  by (simp add: seen_def case_prod_unfold)

lemma smap_find_seen:
  "smap_find (seen h items) k = map_option (\<lambda>(action, p). (as_raw action, h ! p)) (smap_find items k)"
  unfolding seen_eq_map_snd by (induction items) auto

lemma smap_ok_seen [simp]: "smap_ok (seen h items) = smap_ok items"
  by (simp add: seen_def smap_ok_def case_prod_unfold comp_def)

lemma smap_find_marked:
  assumes "smap_ok items"
  shows "smap_find (marked h items) k =
    (case smap_find items k of
       Some (action, p) \<Rightarrow> if action = act_cache then None else Some (as_raw action, h ! p)
     | None \<Rightarrow> None)"
  using smap_find_filter [OF assms, of "\<lambda>(k, action, p). action \<noteq> act_cache" k]
  by (auto simp: marked_def smap_find_seen split: option.split)

lemma fits_seen: "apply_fits M h items \<Longrightarrow> fits M (seen h items)"
  by (auto simp: fits_def apply_fits_def smap_find_seen)

lemma fits_marked:
  assumes "apply_fits M h items"
  shows "fits M (marked h items)"
  using assms smap_find_marked [OF apply_fits_ok [OF assms], of h]
  by (auto simp: fits_def apply_fits_def marked_def smap_ok_filter split: option.splits if_splits)

text \<open>What is marked reaches the view below, and that is all the readers see but for the unmarked keys.\<close>

lemma overlay_marked:
  assumes "smap_ok items"
  shows "overlay M (marked h items) = (\<lambda>k. if k \<in> unmarked M h items then M k else overlay M (seen h items) k)"
  by (auto simp: overlay_def unmarked_def smap_find_marked [OF assms] smap_find_seen fun_eq_iff split: option.split)

lemma unmarked_changed: "changed_at k items items' \<Longrightarrow> unmarked M h items' = unmarked M h items - {k}"
proof -
  assume c: "changed_at k items items'"
  have "j \<in> unmarked M h items' \<longleftrightarrow> j \<in> unmarked M h items - {k}" for j
    using c by (cases "j = k") (auto simp: unmarked_def changed_at_def)
  then show ?thesis by blast
qed

lemma changed_at_put: "action \<noteq> act_cache \<Longrightarrow> changed_at k items (smap_put k (action, p) items)"
  by (simp add: changed_at_def smap_find_put)

lemma changed_at_erase: "smap_ok items \<Longrightarrow> changed_at k items (smap_erase k items)"
  by (simp add: changed_at_def smap_find_erase)

section \<open>Reading\<close>

abbreviation seen_table :: "'f store \<Rightarrow> apply_table \<Rightarrow> 'f raw_table" where
  "seen_table h t \<equiv> \<lparr>raw_items = seen h (app_items t), raw_dropsDestroyed = app_dropsDestroyed t\<rparr>"

lemma apply_first_live_seen: "apply_first_live items = raw_first_live (seen h items)"
  by (induction items rule: apply_first_live.induct) (auto simp: seen_def)

lemma smap_upper_bound_seen: "smap_upper_bound key (seen h items) = seen h (smap_upper_bound key items)"
  by (induction key items rule: smap_upper_bound.induct) (auto simp: seen_def)

lemma Apply_as_Raw:
  "Apply_exists base h t = Raw_exists base (seen_table h t)"
  "Apply_read base h t = Raw_read base (seen_table h t)"
  "Apply_succ base t = Raw_succ base (seen_table h t)"
proof -
  have "apply_is_erased (app_items t) = raw_is_erased (seen h (app_items t))"
    by (auto simp: apply_is_erased_def raw_is_erased_def smap_find_seen fun_eq_iff split: option.split)
  then show "Apply_succ base t = Raw_succ base (seen_table h t)"
    by (intro ext) (simp add: Apply_succ_def Raw_succ_def smap_upper_bound_seen apply_first_live_seen [of _ h])
qed (auto simp: Apply_exists_def Raw_exists_def Apply_read_def Raw_read_def smap_find_seen fun_eq_iff
    split: option.split)

section \<open>Applying\<close>

lemma apply_items_to_marked:
  "apply_items_to rE rI rR h items to = raw_apply_items rE rI rR (marked h items) to"
proof (induction items arbitrary: to)
  case (Cons x items)
  obtain k action p where x: "x = (k, action, p)" by (cases x) auto
  show ?case by (cases action) (simp_all add: x Cons marked_def seen_def split: sum.split)
qed (simp add: marked_def seen_def)

context raw_view
begin

lemma Apply_apply_spec:
  assumes "ok to" and "apply_fits (C to) h (app_items t)"
  shows "\<exists>to'. Apply_apply rawErase rawInsert rawReplace rawDestroy h t to = Inr to' \<and> ok to'
    \<and> C to' = overlay (C to) (marked h (app_items t)) \<and> D to' = D to + app_dropsDestroyed t"
  using raw_apply_items_spec [of "rawDestroy (app_dropsDestroyed t) to" "marked h (app_items t)"]
    destroy [OF assms(1), of "app_dropsDestroyed t"] fits_marked [OF assms(2)]
  by (simp add: Apply_apply_def apply_items_to_marked)

end

section \<open>Changing the journal\<close>

lemma overlay_seen_put:
  "overlay M (seen h (smap_put k (action, p) items)) =
     (overlay M (seen h items))(k := if action = act_erase then None else Some (h ! p))"
  by (auto simp: overlay_def smap_find_seen smap_find_put fun_eq_iff)

lemma overlay_seen_erase:
  "smap_ok items \<Longrightarrow> overlay M (seen h (smap_erase k items)) = (overlay M (seen h items))(k := M k)"
  by (auto simp: overlay_def smap_find_seen smap_find_erase fun_eq_iff)

lemma overlay_seen_None:
  "overlay M (seen h items) k = None \<longleftrightarrow>
    (case smap_find items k of None \<Rightarrow> M k = None | Some (action, p) \<Rightarrow> action = act_erase)"
  by (auto simp: overlay_def smap_find_seen split: option.split)

lemma apply_fits_put:
  assumes "apply_fits M h items" and "p < length h" and "sle_key (h ! p) \<noteq> 0"
    and "action = act_insert \<longleftrightarrow> M (sle_key (h ! p)) = None"
  shows "apply_fits M h (smap_put (sle_key (h ! p)) (action, p) items)"
  using assms by (auto simp: apply_fits_def smap_ok_put smap_find_put split: if_splits)

lemma apply_fits_erase: "apply_fits M h items \<Longrightarrow> apply_fits M h (smap_erase k items)"
  by (auto simp: apply_fits_def smap_ok_erase smap_find_erase split: if_splits)

text \<open>A new entry in the store is no concern of the journal.\<close>

lemma store_append:
  assumes "apply_fits M h items"
  shows "apply_fits M (h @ [s]) items" and "seen (h @ [s]) items = seen h items"
    and "unmarked M (h @ [s]) items = unmarked M h items"
proof -
  have p: "p < length h" if "smap_find items k = Some (action, p)" for k action p
    using apply_fitsD(1) [OF assms that] .
  show "apply_fits M (h @ [s]) items" using assms by (fastforce simp: apply_fits_def nth_append)
  show "unmarked M (h @ [s]) items = unmarked M h items" using p by (fastforce simp: unmarked_def nth_append)
  have "p < length h" if "(k, action, p) \<in> set items" for k action p
    using p smap_find_iff [OF apply_fits_ok [OF assms], of k "(action, p)"] that by blast
  then show "seen (h @ [s]) items = seen h items" by (auto simp: seen_def nth_append)
qed

text \<open>Writing through the pointer of an entry of the journal changes that entry only.\<close>

lemma apply_fits_inj:
  "apply_fits M h items \<Longrightarrow> smap_find items k = Some (a, p) \<Longrightarrow> smap_find items j = Some (b, p) \<Longrightarrow> j = k"
  using apply_fitsD(2) by metis

lemma store_write:
  assumes f: "apply_fits M h items" and k: "smap_find items k = Some (action, p)" and e: "sle_key e = k"
  shows "apply_fits M (h[p := e]) items"
    and "overlay M (seen (h[p := e]) items) = (if action = act_erase then overlay M (seen h items) else (overlay M (seen h items))(k \<mapsto> e))"
    and "unmarked M (h[p := e]) items \<subseteq> insert k (unmarked M h items)"
proof -
  have ne: "q \<noteq> p" if "smap_find items j = Some (b, q)" "j \<noteq> k" for j b q
    using apply_fits_inj [OF f k] that by blast
  note p = apply_fitsD [OF f k]
  have nth: "h[p := e] ! q = (if j = k then e else h ! q)" if "smap_find items j = Some (b, q)" for j b q
    using ne [OF that] p(1) k that by (cases "j = k") auto
  have "sle_key (h[p := e] ! q) = j" if "smap_find items j = Some (b, q)" for j b q
    using nth [OF that] apply_fitsD(2) [OF f that] e by simp
  then show "apply_fits M (h[p := e]) items" using f by (auto simp: apply_fits_def)
  show "overlay M (seen (h[p := e]) items) = (if action = act_erase then overlay M (seen h items) else (overlay M (seen h items))(k \<mapsto> e))"
    using k nth by (auto simp: overlay_def smap_find_seen fun_eq_iff split: option.split)
  show "unmarked M (h[p := e]) items \<subseteq> insert k (unmarked M h items)"
  proof
    fix j assume "j \<in> unmarked M (h[p := e]) items"
    then obtain q where "smap_find items j = Some (act_cache, q)" "M j \<noteq> Some (h[p := e] ! q)"
      by (auto simp: unmarked_def)
    then show "j \<in> insert k (unmarked M h items)" using nth [of j act_cache q] by (cases "j = k") (simp_all add: unmarked_def)
  qed
qed

text \<open>Checking out an entry does not change what the readers see.\<close>

lemma Apply_peek_none:
  assumes "rv_read base k = lookup M k" and "lookup (overlay M (seen h (app_items t))) k = None"
  shows "Apply_peek base k (h, t) = (None, h, t)"
  using assms
  by (auto simp: Apply_peek_def lookup_def overlay_def smap_find_seen split: option.splits if_splits)

lemma Apply_peek_some:
  assumes f: "apply_fits M h (app_items t)" and r: "rv_read base k = lookup M k"
    and key: "\<forall>k e. M k = Some e \<longrightarrow> sle_key e = k \<and> k \<noteq> 0"
    and some: "lookup (overlay M (seen h (app_items t))) k \<noteq> None"
  shows "\<exists>p h' t' action. Apply_peek base k (h, t) = (Some p, h', t') \<and> apply_fits M h' (app_items t')
    \<and> overlay M (seen h' (app_items t')) = overlay M (seen h (app_items t))
    \<and> unmarked M h' (app_items t') = unmarked M h (app_items t)
    \<and> smap_find (app_items t') (kl_key k) = Some (action, p) \<and> action \<noteq> act_erase
    \<and> (\<forall>j v. smap_find (app_items t) j = Some v \<longrightarrow> smap_find (app_items t') j = Some v)"
proof (cases "smap_find (app_items t) (kl_key k)")
  case None
  then obtain s where s: "M (kl_key k) = Some s" "lookup M k = Some s"
    using some by (auto simp: lookup_def overlay_def smap_find_seen split: option.splits if_splits)
  then have k: "sle_key s = kl_key k" "kl_key k \<noteq> 0" using key by auto
  let ?items = "smap_put (kl_key k) (act_cache, length h) (app_items t)"
  have "Apply_peek base k (h, t) = (Some (length h), h @ [s], t\<lparr>app_items := ?items\<rparr>)"
    using None k(1) by (simp add: Apply_peek_def make_shared_def r s(2))
  moreover have "apply_fits M (h @ [s]) ?items"
    using apply_fits_put [OF store_append(1) [OF f], of "length h" s act_cache] k s(1) by simp
  moreover have "overlay M (seen (h @ [s]) ?items) = overlay M (seen h (app_items t))"
    using None s(1) by (auto simp: overlay_seen_put store_append(2) [OF f] fun_eq_iff) (simp add: overlay_def smap_find_seen)
  moreover have "unmarked M (h @ [s]) ?items = unmarked M (h @ [s]) (app_items t)"
    using None s(1) by (auto simp: unmarked_def smap_find_put)
  ultimately show ?thesis using None store_append(3) [OF f, of s] by (auto simp: smap_find_put)
next
  case (Some v)
  obtain action p where v: "v = (action, p)" by fastforce
  then have "action \<noteq> act_erase" "Keylet_check k (h ! p)"
    using some Some by (auto simp: lookup_def overlay_def smap_find_seen split: option.splits if_splits)
  then have "Apply_peek base k (h, t) = (Some p, h, t)" using Some v by (simp add: Apply_peek_def)
  then show ?thesis using f Some v \<open>action \<noteq> act_erase\<close> by blast
qed

text \<open>Marking, erasing and inserting.\<close>

lemma Apply_update_spec:
  assumes f: "apply_fits M h (app_items t)" and k: "smap_find (app_items t) k = Some (action, p)" "action \<noteq> act_erase"
  shows "\<exists>t'. Apply_update h p t = Inr t' \<and> apply_fits M h (app_items t')
    \<and> overlay M (seen h (app_items t')) = overlay M (seen h (app_items t))
    \<and> app_dropsDestroyed t' = app_dropsDestroyed t \<and> changed_at k (app_items t) (app_items t')
    \<and> (\<exists>action. smap_find (app_items t') k = Some (action, p) \<and> action \<noteq> act_erase)"
proof -
  note p = apply_fitsD [OF f k(1)]
  have "overlay M (seen h (smap_put k (act_modify, p) (app_items t))) = overlay M (seen h (app_items t))"
    using k by (auto simp: overlay_seen_put fun_eq_iff) (simp add: overlay_def smap_find_seen)
  moreover have "apply_fits M h (smap_put k (act_modify, p) (app_items t))" if "action = act_cache"
    using apply_fits_put [OF f p(1), of act_modify] p that by simp
  ultimately show ?thesis
    using f k p by (cases action) (simp_all add: Apply_update_def smap_find_put changed_at_put, simp_all add: changed_at_def)
qed

lemma Apply_erase_spec:
  assumes f: "apply_fits M h (app_items t)" and k: "smap_find (app_items t) k = Some (action, p)" "action \<noteq> act_erase"
  shows "\<exists>t'. Apply_erase h p t = Inr t' \<and> apply_fits M h (app_items t')
    \<and> overlay M (seen h (app_items t')) = (overlay M (seen h (app_items t)))(k := None)
    \<and> app_dropsDestroyed t' = app_dropsDestroyed t \<and> changed_at k (app_items t) (app_items t')"
proof -
  note p = apply_fitsD [OF f k(1)] and ok = apply_fits_ok [OF f]
  show ?thesis
  proof (cases "action = act_insert")
    case True
    then show ?thesis
      using k p apply_fits_erase [OF f, of k] changed_at_erase [OF ok, of k]
      by (simp add: Apply_erase_def overlay_seen_erase [OF ok] changed_at_erase)
  next
    case False
    then have "apply_fits M h (smap_put k (act_erase, p) (app_items t))"
      using apply_fits_put [OF f p(1), of act_erase] p by simp
    then show ?thesis
      using False k p
      by (cases action) (simp_all add: Apply_erase_def overlay_seen_put smap_find_put changed_at_put)
  qed
qed

lemma Apply_insert_spec:
  assumes f: "apply_fits M h (app_items t)" and p: "p < length h" "sle_key (h ! p) = k" "k \<noteq> 0"
    and n: "overlay M (seen h (app_items t)) k = None"
  shows "\<exists>t'. Apply_insert h p t = Inr t' \<and> apply_fits M h (app_items t')
    \<and> overlay M (seen h (app_items t')) = (overlay M (seen h (app_items t)))(k \<mapsto> h ! p)
    \<and> app_dropsDestroyed t' = app_dropsDestroyed t
    \<and> changed_at k (app_items t) (app_items t')
    \<and> (\<exists>action. smap_find (app_items t') k = Some (action, p) \<and> action \<noteq> act_erase)"
proof (cases "smap_find (app_items t) k")
  case None
  then have "M k = None" using n by (simp add: overlay_def smap_find_seen)
  then have "apply_fits M h (smap_put k (act_insert, p) (app_items t))"
    using apply_fits_put [OF f p(1), of act_insert] p by simp
  then show ?thesis using None p by (simp add: Apply_insert_def overlay_seen_put smap_find_put changed_at_put)
next
  case (Some v)
  then obtain q where v: "v = (act_erase, q)"
    using n by (cases v) (auto simp: overlay_def smap_find_seen split: if_splits)
  then have "M k \<noteq> None" using apply_fitsD(4) [OF f] Some by blast
  then have "apply_fits M h (smap_put k (act_modify, p) (app_items t))"
    using apply_fits_put [OF f p(1), of act_modify] p by simp
  then show ?thesis using Some v p by (simp add: Apply_insert_def overlay_seen_put smap_find_put changed_at_put)
qed

lemma Apply_rawErase_spec:
  assumes f: "apply_fits M h (app_items t)" and p: "p < length h" "sle_key (h ! p) = k" "k \<noteq> 0"
    and n: "overlay M (seen h (app_items t)) k \<noteq> None"
  shows "\<exists>t'. Apply_rawErase h p t = Inr t' \<and> apply_fits M h (app_items t')
    \<and> overlay M (seen h (app_items t')) = (overlay M (seen h (app_items t)))(k := None)
    \<and> app_dropsDestroyed t' = app_dropsDestroyed t \<and> changed_at k (app_items t) (app_items t')"
proof -
  note ok = apply_fits_ok [OF f]
  have put: "M k \<noteq> None \<Longrightarrow> apply_fits M h (smap_put k (act_erase, p) (app_items t))"
    using apply_fits_put [OF f p(1), of act_erase] p by simp
  show ?thesis
  proof (cases "smap_find (app_items t) k")
    case None
    then have "M k \<noteq> None" using n by (simp add: overlay_def smap_find_seen)
    then show ?thesis
      using None p put by (simp add: Apply_rawErase_def overlay_seen_put changed_at_put)
  next
    case (Some v)
    obtain action q where v: "v = (action, q)" by fastforce
    then have a: "action \<noteq> act_erase" using n Some by (auto simp: overlay_def smap_find_seen)
    show ?thesis
    proof (cases "action = act_insert")
      case True
      then show ?thesis
        using Some v p apply_fits_erase [OF f, of k] changed_at_erase [OF ok, of k] apply_fitsD(4) [OF f, of k action q]
        by (simp add: Apply_rawErase_def overlay_seen_erase [OF ok])
    next
      case False
      then have "M k \<noteq> None" using apply_fitsD(4) [OF f] Some v by blast
      then show ?thesis
        using False a Some v p put
        by (cases action) (simp_all add: Apply_rawErase_def overlay_seen_put changed_at_put)
    qed
  qed
qed

lemma Apply_replace_spec:
  assumes f: "apply_fits M h (app_items t)" and p: "p < length h" "sle_key (h ! p) = k" "k \<noteq> 0"
    and n: "overlay M (seen h (app_items t)) k \<noteq> None"
  shows "\<exists>t'. Apply_replace h p t = Inr t' \<and> apply_fits M h (app_items t')
    \<and> overlay M (seen h (app_items t')) = (overlay M (seen h (app_items t)))(k \<mapsto> h ! p)
    \<and> app_dropsDestroyed t' = app_dropsDestroyed t
    \<and> changed_at k (app_items t) (app_items t')
    \<and> (\<exists>action. smap_find (app_items t') k = Some (action, p) \<and> action \<noteq> act_erase)"
proof -
  have put: "apply_fits M h (smap_put k (action, p) (app_items t))" if "action = act_insert \<longleftrightarrow> M k = None" for action
    using apply_fits_put [OF f p(1), of action] p that by simp
  show ?thesis
  proof (cases "smap_find (app_items t) k")
    case None
    then have "M k \<noteq> None" using n by (simp add: overlay_def smap_find_seen)
    then show ?thesis using None p put [of act_modify] by (simp add: Apply_replace_def overlay_seen_put smap_find_put changed_at_put)
  next
    case (Some v)
    obtain action q where v: "v = (action, q)" by fastforce
    then have a: "action \<noteq> act_erase" using n Some by (auto simp: overlay_def smap_find_seen)
    have "action = act_insert \<longleftrightarrow> M k = None" using apply_fitsD(4) [OF f] Some v by blast
    then show ?thesis
      using a Some v p put [of action] put [of act_modify]
      by (cases action) (simp_all add: Apply_replace_def overlay_seen_put smap_find_put changed_at_put)
  qed
qed

end
