(* ===== verification/OpenView.thy ===== *)
theory OpenView
  imports RawStateTable_Correct
begin

text \<open>
  The view that accumulates the state changes and the transactions of a ledger being built
  (\<^verbatim>\<open>ledger/OpenView.h\<close>, \<^verbatim>\<open>ledger/impl/OpenView.cpp\<close>), over any view below it. The properties of the stack of
  views are stated for a view on a closed ledger, and for a view on such a view.
\<close>

section \<open>Model\<close>

record ('s, 'f, 'tx, 'r) OpenView =
  ov_txs :: "(uint256, 'tx \<times> 'tx option) smap"
  ov_rules :: 'r
  ov_info :: LedgerInfo
  ov_base :: 's
  ov_items :: "'f raw_table"
  ov_open :: bool

text \<open>The two constructors. What they ask of the base are arguments: its header, its rules, whether it is open.\<close>

definition OpenView_on_closed :: "'s \<Rightarrow> LedgerInfo \<Rightarrow> 'r \<Rightarrow> ('s, 'f, 'tx, 'r) OpenView" where
  "OpenView_on_closed base info rules =
     \<lparr>ov_txs = [], ov_rules = rules,
      ov_info = info\<lparr>li_validated := False, li_accepted := False, li_seq := li_seq info + 1,
                     li_parentCloseTime := li_closeTime info, li_parentHash := li_hash info\<rparr>,
      ov_base = base, ov_items = new_raw_table, ov_open = True\<rparr>"

definition OpenView_like :: "'s \<Rightarrow> LedgerInfo \<Rightarrow> 'r \<Rightarrow> bool \<Rightarrow> ('s, 'f, 'tx, 'r) OpenView" where
  "OpenView_like base info rules is_open =
     \<lparr>ov_txs = [], ov_rules = rules, ov_info = info, ov_base = base, ov_items = new_raw_table, ov_open = is_open\<rparr>"

definition OpenView_txCount :: "('s, 'f, 'tx, 'r) OpenView \<Rightarrow> nat" where
  "OpenView_txCount ov = length (ov_txs ov)"

fun txs_apply :: "(uint256 \<Rightarrow> 'tx \<Rightarrow> 'tx option \<Rightarrow> 't \<Rightarrow> logic_error + 't)
    \<Rightarrow> (uint256, 'tx \<times> 'tx option) smap \<Rightarrow> 't \<Rightarrow> logic_error + 't" where
  "txs_apply rTxInsert [] to = Inr to"
| "txs_apply rTxInsert ((key, txn, meta) # it) to =
     (case rTxInsert key txn meta to of Inl err \<Rightarrow> Inl err | Inr to \<Rightarrow> txs_apply rTxInsert it to)"

definition OpenView_apply :: "('f sle \<Rightarrow> 't \<Rightarrow> logic_error + 't) \<Rightarrow> ('f sle \<Rightarrow> 't \<Rightarrow> logic_error + 't)
    \<Rightarrow> ('f sle \<Rightarrow> 't \<Rightarrow> logic_error + 't) \<Rightarrow> (int \<Rightarrow> 't \<Rightarrow> 't)
    \<Rightarrow> (uint256 \<Rightarrow> 'tx \<Rightarrow> 'tx option \<Rightarrow> 't \<Rightarrow> logic_error + 't)
    \<Rightarrow> ('s, 'f, 'tx, 'r) OpenView \<Rightarrow> 't \<Rightarrow> logic_error + 't" where
  "OpenView_apply rErase rInsert rReplace rDestroy rTxInsert ov to =
     (case Raw_apply rErase rInsert rReplace rDestroy (ov_items ov) to of
        Inl err \<Rightarrow> Inl err
      | Inr to \<Rightarrow> txs_apply rTxInsert (ov_txs ov) to)"

definition OpenView_exists :: "('s \<Rightarrow> 'f read_view) \<Rightarrow> ('s, 'f, 'tx, 'r) OpenView \<Rightarrow> Keylet \<Rightarrow> bool" where
  "OpenView_exists view ov k = Raw_exists (view (ov_base ov)) (ov_items ov) k"

definition OpenView_succ :: "('s \<Rightarrow> 'f read_view) \<Rightarrow> ('s, 'f, 'tx, 'r) OpenView \<Rightarrow> uint256 \<Rightarrow> uint256 option
    \<Rightarrow> uint256 option option" where
  "OpenView_succ view ov key last_key = Raw_succ (view (ov_base ov)) (ov_items ov) key last_key"

definition OpenView_read :: "('s \<Rightarrow> 'f read_view) \<Rightarrow> ('s, 'f, 'tx, 'r) OpenView \<Rightarrow> Keylet \<Rightarrow> 'f sle option" where
  "OpenView_read view ov k = Raw_read (view (ov_base ov)) (ov_items ov) k"

definition OpenView_sles :: "('s \<Rightarrow> 'f read_view) \<Rightarrow> ('s, 'f, 'tx, 'r) OpenView \<Rightarrow> 'f sle list option" where
  "OpenView_sles view ov = Raw_sles (view (ov_base ov)) (ov_items ov)"

definition OpenView_slesUpperBound :: "('s \<Rightarrow> 'f read_view) \<Rightarrow> ('s, 'f, 'tx, 'r) OpenView \<Rightarrow> uint256
    \<Rightarrow> 'f sle list option" where
  "OpenView_slesUpperBound view ov key = Raw_slesUpperBound (view (ov_base ov)) (ov_items ov) key"

text \<open>The iteration over the transactions: with metadata unless the ledger is open.\<close>

definition OpenView_tx_iter :: "('s, 'f, 'tx, 'r) OpenView \<Rightarrow> ('tx \<times> 'tx option) list" where
  "OpenView_tx_iter ov = map (\<lambda>(key, txn, meta). (txn, if ov_open ov then None else meta)) (ov_txs ov)"

definition OpenView_txExists :: "('s, 'f, 'tx, 'r) OpenView \<Rightarrow> uint256 \<Rightarrow> bool" where
  "OpenView_txExists ov key \<longleftrightarrow> smap_find (ov_txs ov) key \<noteq> None"

definition OpenView_txRead :: "('s \<Rightarrow> uint256 \<Rightarrow> ('tx \<times> 'tx option) option) \<Rightarrow> ('s, 'f, 'tx, 'r) OpenView
    \<Rightarrow> uint256 \<Rightarrow> ('tx \<times> 'tx option) option" where
  "OpenView_txRead base_txRead ov key =
     (case smap_find (ov_txs ov) key of
        None \<Rightarrow> base_txRead (ov_base ov) key
      | Some (txn, meta) \<Rightarrow> Some (txn, meta))"

definition OpenView_rawErase :: "'f sle \<Rightarrow> ('s, 'f, 'tx, 'r) OpenView \<Rightarrow> logic_error + ('s, 'f, 'tx, 'r) OpenView" where
  "OpenView_rawErase s ov = map_sum id (\<lambda>t. ov\<lparr>ov_items := t\<rparr>) (Raw_erase s (ov_items ov))"

definition OpenView_rawInsert :: "'f sle \<Rightarrow> ('s, 'f, 'tx, 'r) OpenView \<Rightarrow> logic_error + ('s, 'f, 'tx, 'r) OpenView" where
  "OpenView_rawInsert s ov = map_sum id (\<lambda>t. ov\<lparr>ov_items := t\<rparr>) (Raw_insert s (ov_items ov))"

definition OpenView_rawReplace :: "'f sle \<Rightarrow> ('s, 'f, 'tx, 'r) OpenView \<Rightarrow> logic_error + ('s, 'f, 'tx, 'r) OpenView" where
  "OpenView_rawReplace s ov = map_sum id (\<lambda>t. ov\<lparr>ov_items := t\<rparr>) (Raw_replace s (ov_items ov))"

definition OpenView_rawDestroy :: "int \<Rightarrow> ('s, 'f, 'tx, 'r) OpenView \<Rightarrow> ('s, 'f, 'tx, 'r) OpenView" where
  "OpenView_rawDestroy fee ov = ov\<lparr>ov_items := Raw_destroyBIXRP fee (ov_items ov)\<rparr>"

definition OpenView_rawTxInsert :: "uint256 \<Rightarrow> 'tx \<Rightarrow> 'tx option \<Rightarrow> ('s, 'f, 'tx, 'r) OpenView
    \<Rightarrow> logic_error + ('s, 'f, 'tx, 'r) OpenView" where
  "OpenView_rawTxInsert key txn metaData ov =
     (case smap_find (ov_txs ov) key of
        None \<Rightarrow> Inr (ov\<lparr>ov_txs := smap_put key (txn, metaData) (ov_txs ov)\<rparr>)
      | Some _ \<Rightarrow> Inl (LogicError ''rawTxInsert: duplicate TX id''))"

definition OpenView_view :: "('s \<Rightarrow> 'f read_view) \<Rightarrow> ('s, 'f, 'tx, 'r) OpenView \<Rightarrow> 'f read_view" where
  "OpenView_view view ov =
     \<lparr>rv_exists = OpenView_exists view ov, rv_read = OpenView_read view ov, rv_succ = OpenView_succ view ov,
      rv_sles = OpenView_sles view ov, rv_upper_bound = OpenView_slesUpperBound view ov\<rparr>"

section \<open>Contents\<close>

definition OpenView_contents :: "('s \<Rightarrow> 'f contents) \<Rightarrow> ('s, 'f, 'tx, 'r) OpenView \<Rightarrow> 'f contents" where
  "OpenView_contents C ov = overlay (C (ov_base ov)) (raw_items (ov_items ov))"

definition OpenView_ok :: "('s \<Rightarrow> 'f contents) \<Rightarrow> ('s \<Rightarrow> bool) \<Rightarrow> ('s, 'f, 'tx, 'r) OpenView \<Rightarrow> bool" where
  "OpenView_ok C ok ov \<longleftrightarrow> ok (ov_base ov) \<and> fits (C (ov_base ov)) (raw_items (ov_items ov))"

abbreviation OpenView_dropsDestroyed :: "('s, 'f, 'tx, 'r) OpenView \<Rightarrow> int" where
  "OpenView_dropsDestroyed ov \<equiv> raw_dropsDestroyed (ov_items ov)"

lemma OpenView_as_overlay:
  "OpenView_view view ov = raw_over view (ov_base ov, ov_items ov)"
  "OpenView_contents C ov = raw_contents C (ov_base ov, ov_items ov)"
  "OpenView_ok C ok ov = raw_ok C ok (ov_base ov, ov_items ov)"
  by (simp_all add: OpenView_view_def OpenView_exists_def OpenView_read_def OpenView_succ_def OpenView_sles_def
      OpenView_slesUpperBound_def raw_over_def Let_def fun_eq_iff OpenView_contents_def raw_contents_def OpenView_ok_def raw_ok_def)

context ledger_view
begin

lemma OpenView_view: "ledger_view (OpenView_view view) (OpenView_contents C) (OpenView_ok C ok)"
  unfolding ledger_view_def entry_view_def ledger_view_axioms_def OpenView_as_overlay
  using raw_over_view unfolding ledger_view_def entry_view_def ledger_view_axioms_def by simp

lemma OpenView_raw: "raw_view (OpenView_contents C) (OpenView_ok C ok) OpenView_dropsDestroyed
    OpenView_rawErase OpenView_rawInsert OpenView_rawReplace OpenView_rawDestroy"
proof
  fix ov :: "('s, 'f, 'tx, 'r) OpenView" and e :: "'f sle" and fee
  assume "OpenView_ok C ok ov"
  then have s: "ok (ov_base ov)" and f: "fits (C (ov_base ov)) (raw_items (ov_items ov))" by (simp_all add: OpenView_ok_def)
  have nz: "C (ov_base ov) 0 = None" using keyed [OF s, of 0] by (cases "C (ov_base ov) 0") auto
  note defs = OpenView_ok_def OpenView_contents_def
  show "\<exists>s'. OpenView_rawErase e ov = Inr s' \<and> OpenView_ok C ok s'
      \<and> OpenView_contents C s' = (OpenView_contents C ov)(sle_key e := None)
      \<and> OpenView_dropsDestroyed s' = OpenView_dropsDestroyed ov"
    if "OpenView_contents C ov (sle_key e) \<noteq> None"
    using Raw_erase_spec [OF f nz, of e] that s by (auto simp: defs OpenView_rawErase_def)
  show "\<exists>s'. OpenView_rawInsert e ov = Inr s' \<and> OpenView_ok C ok s'
      \<and> OpenView_contents C s' = (OpenView_contents C ov)(sle_key e \<mapsto> e)
      \<and> OpenView_dropsDestroyed s' = OpenView_dropsDestroyed ov"
    if "OpenView_contents C ov (sle_key e) = None" "sle_key e \<noteq> 0"
    using Raw_insert_spec [OF f, of e] that s by (auto simp: defs OpenView_rawInsert_def)
  show "\<exists>s'. OpenView_rawReplace e ov = Inr s' \<and> OpenView_ok C ok s'
      \<and> OpenView_contents C s' = (OpenView_contents C ov)(sle_key e \<mapsto> e)
      \<and> OpenView_dropsDestroyed s' = OpenView_dropsDestroyed ov"
    if "OpenView_contents C ov (sle_key e) \<noteq> None"
    using Raw_replace_spec [OF f nz, of e] that s by (auto simp: defs OpenView_rawReplace_def)
  show "OpenView_ok C ok (OpenView_rawDestroy fee ov) \<and> OpenView_contents C (OpenView_rawDestroy fee ov) = OpenView_contents C ov
      \<and> OpenView_dropsDestroyed (OpenView_rawDestroy fee ov) = OpenView_dropsDestroyed ov + fee"
    using s f by (simp add: defs OpenView_rawDestroy_def Raw_destroyBIXRP_def)
qed

end

text \<open>The two levels that the ledger is built with: a view on a closed ledger, and a view on that one.\<close>

interpretation opv: ledger_view "OpenView_view Ledger_view" "OpenView_contents ledger_contents"
  "OpenView_ok ledger_contents ledger_ok"
  by (rule led.OpenView_view)

interpretation opv_raw: raw_view "OpenView_contents ledger_contents" "OpenView_ok ledger_contents ledger_ok"
  OpenView_dropsDestroyed OpenView_rawErase OpenView_rawInsert OpenView_rawReplace OpenView_rawDestroy
  by (rule led.OpenView_raw)

interpretation opv2: ledger_view "OpenView_view (OpenView_view Ledger_view)"
  "OpenView_contents (OpenView_contents ledger_contents)"
  "OpenView_ok (OpenView_contents ledger_contents) (OpenView_ok ledger_contents ledger_ok)"
  by (rule opv.OpenView_view)

end
