(* ===== verification/ApplyView.thy ===== *)
theory ApplyView
  imports ApplyStateTable OpenView
begin

text \<open>
  The view a transaction works on (\<^verbatim>\<open>ledger/ApplyView.h\<close>) and its implementation on top of any view,
  \<^verbatim>\<open>ledger/impl/ApplyViewBase.cpp\<close>, with the sandbox (\<^verbatim>\<open>ledger/Sandbox.h\<close>) that is applied to the
  view below. The record \<open>apply_ops\<close> holds the virtual functions together with the access to memory that
  their clients have; the locale \<open>apply_view\<close> is their contract.
\<close>

section \<open>The interface\<close>

record ('f, 's) apply_ops =
  ap_peek :: "Keylet \<Rightarrow> 's \<Rightarrow> addr option \<times> 's"
  ap_erase :: "addr \<Rightarrow> 's \<Rightarrow> logic_error + 's"
  ap_insert :: "addr \<Rightarrow> 's \<Rightarrow> logic_error + 's"
  ap_update :: "addr \<Rightarrow> 's \<Rightarrow> logic_error + 's"
  ap_get :: "addr \<Rightarrow> 's \<Rightarrow> 'f sle"
  ap_set :: "addr \<Rightarrow> ('f sle \<Rightarrow> 'f sle) \<Rightarrow> 's \<Rightarrow> 's"
  ap_make :: "'f sle \<Rightarrow> 's \<Rightarrow> addr \<times> 's"

text \<open>
  The contract, as the comments of \<^verbatim>\<open>ApplyView\<close> give it: \<open>C s\<close> are the contents, and \<open>held s p\<close> is the
  key of the entry that was checked out or inserted with the pointer \<open>p\<close>. An entry is changed and then
  marked as updated; the contract speaks of the two calls together.
\<close>

locale apply_view =
  fixes A :: "('f, 's) apply_ops" and C :: "'s \<Rightarrow> 'f contents" and ok :: "'s \<Rightarrow> bool"
    and held :: "'s \<Rightarrow> addr \<Rightarrow> uint256 option"
  assumes key: "ok s \<Longrightarrow> C s k = Some e \<Longrightarrow> sle_key e = k \<and> k \<noteq> 0"
    and peek_none: "ok s \<Longrightarrow> lookup (C s) kl = None \<Longrightarrow> ap_peek A kl s = (None, s)"
    and peek_some: "ok s \<Longrightarrow> lookup (C s) kl \<noteq> None \<Longrightarrow>
      \<exists>p s'. ap_peek A kl s = (Some p, s') \<and> ok s' \<and> C s' = C s \<and> held s' p = Some (kl_key kl)
        \<and> (\<forall>q j. held s q = Some j \<longrightarrow> held s' q = Some j)"
    and held_inj: "ok s \<Longrightarrow> held s p = Some k \<Longrightarrow> held s q = Some k \<Longrightarrow> p = q"
    and get: "ok s \<Longrightarrow> held s p = Some k \<Longrightarrow> C s k = Some (ap_get A p s)"
    and update: "ok s \<Longrightarrow> held s p = Some k \<Longrightarrow> sle_key (f (ap_get A p s)) = k \<Longrightarrow>
      \<exists>s'. ap_update A p (ap_set A p f s) = Inr s' \<and> ok s' \<and> C s' = (C s)(k \<mapsto> f (ap_get A p s))
        \<and> (\<forall>q j. held s q = Some j \<longrightarrow> held s' q = Some j)"
    and insert: "ok s \<Longrightarrow> C s (sle_key e) = None \<Longrightarrow> sle_key e \<noteq> 0 \<Longrightarrow>
      \<exists>p s1 s'. ap_make A e s = (p, s1) \<and> ap_insert A p s1 = Inr s' \<and> ok s' \<and> C s' = (C s)(sle_key e \<mapsto> e)
        \<and> (\<forall>q j. held s q = Some j \<longrightarrow> held s' q = Some j)"
    and erase: "ok s \<Longrightarrow> held s p = Some k \<Longrightarrow>
      \<exists>s'. ap_erase A p s = Inr s' \<and> ok s' \<and> C s' = (C s)(k := None)
        \<and> (\<forall>q j. held s q = Some j \<longrightarrow> j \<noteq> k \<longrightarrow> held s' q = Some j)"

section \<open>The implementation\<close>

record ('s, 'f) ApplyViewBase =
  avb_flags :: u32
  avb_base :: 's
  avb_items :: apply_table
  avb_store :: "'f store"

definition ApplyViewBase_new :: "'s \<Rightarrow> u32 \<Rightarrow> ('s, 'f) ApplyViewBase" where
  "ApplyViewBase_new base flags = \<lparr>avb_flags = flags, avb_base = base, avb_items = new_apply_table, avb_store = []\<rparr>"

definition ApplyViewBase_exists :: "('s \<Rightarrow> 'f read_view) \<Rightarrow> ('s, 'f) ApplyViewBase \<Rightarrow> Keylet \<Rightarrow> bool" where
  "ApplyViewBase_exists view v k = Apply_exists (view (avb_base v)) (avb_store v) (avb_items v) k"

definition ApplyViewBase_succ :: "('s \<Rightarrow> 'f read_view) \<Rightarrow> ('s, 'f) ApplyViewBase \<Rightarrow> uint256 \<Rightarrow> uint256 option
    \<Rightarrow> uint256 option option" where
  "ApplyViewBase_succ view v key last_key = Apply_succ (view (avb_base v)) (avb_items v) key last_key"

definition ApplyViewBase_read :: "('s \<Rightarrow> 'f read_view) \<Rightarrow> ('s, 'f) ApplyViewBase \<Rightarrow> Keylet \<Rightarrow> 'f sle option" where
  "ApplyViewBase_read view v k = Apply_read (view (avb_base v)) (avb_store v) (avb_items v) k"

text \<open>The iterators are the ones of the view below: they do not show what the journal holds.\<close>

definition ApplyViewBase_sles :: "('s \<Rightarrow> 'f read_view) \<Rightarrow> ('s, 'f) ApplyViewBase \<Rightarrow> 'f sle list option" where
  "ApplyViewBase_sles view v = rv_sles (view (avb_base v))"

definition ApplyViewBase_slesUpperBound :: "('s \<Rightarrow> 'f read_view) \<Rightarrow> ('s, 'f) ApplyViewBase \<Rightarrow> uint256 \<Rightarrow> 'f sle list option" where
  "ApplyViewBase_slesUpperBound view v key = rv_upper_bound (view (avb_base v)) key"

definition ApplyViewBase_view :: "('s \<Rightarrow> 'f read_view) \<Rightarrow> ('s, 'f) ApplyViewBase \<Rightarrow> 'f read_view" where
  "ApplyViewBase_view view v =
     \<lparr>rv_exists = ApplyViewBase_exists view v, rv_read = ApplyViewBase_read view v,
      rv_succ = ApplyViewBase_succ view v, rv_sles = ApplyViewBase_sles view v,
      rv_upper_bound = ApplyViewBase_slesUpperBound view v\<rparr>"

definition ApplyViewBase_peek :: "('s \<Rightarrow> 'f read_view) \<Rightarrow> Keylet \<Rightarrow> ('s, 'f) ApplyViewBase
    \<Rightarrow> addr option \<times> ('s, 'f) ApplyViewBase" where
  "ApplyViewBase_peek view k v =
     (let (p, h, t) = Apply_peek (view (avb_base v)) k (avb_store v, avb_items v)
      in (p, v\<lparr>avb_items := t, avb_store := h\<rparr>))"

definition ApplyViewBase_erase :: "addr \<Rightarrow> ('s, 'f) ApplyViewBase \<Rightarrow> logic_error + ('s, 'f) ApplyViewBase" where
  "ApplyViewBase_erase s v = map_sum id (\<lambda>t. v\<lparr>avb_items := t\<rparr>) (Apply_erase (avb_store v) s (avb_items v))"

definition ApplyViewBase_insert :: "addr \<Rightarrow> ('s, 'f) ApplyViewBase \<Rightarrow> logic_error + ('s, 'f) ApplyViewBase" where
  "ApplyViewBase_insert s v = map_sum id (\<lambda>t. v\<lparr>avb_items := t\<rparr>) (Apply_insert (avb_store v) s (avb_items v))"

definition ApplyViewBase_update :: "addr \<Rightarrow> ('s, 'f) ApplyViewBase \<Rightarrow> logic_error + ('s, 'f) ApplyViewBase" where
  "ApplyViewBase_update s v = map_sum id (\<lambda>t. v\<lparr>avb_items := t\<rparr>) (Apply_update (avb_store v) s (avb_items v))"

text \<open>What a client does with a pointer: read the entry, change it in place, make a new one.\<close>

definition avb_get :: "addr \<Rightarrow> ('s, 'f) ApplyViewBase \<Rightarrow> 'f sle" where
  "avb_get p v = avb_store v ! p"

definition avb_set :: "addr \<Rightarrow> ('f sle \<Rightarrow> 'f sle) \<Rightarrow> ('s, 'f) ApplyViewBase \<Rightarrow> ('s, 'f) ApplyViewBase" where
  "avb_set p f v = v\<lparr>avb_store := (avb_store v)[p := f (avb_store v ! p)]\<rparr>"

definition avb_make :: "'f sle \<Rightarrow> ('s, 'f) ApplyViewBase \<Rightarrow> addr \<times> ('s, 'f) ApplyViewBase" where
  "avb_make e v = (let (p, h) = make_shared e (avb_store v) in (p, v\<lparr>avb_store := h\<rparr>))"

definition ApplyViewBase_ops :: "('s \<Rightarrow> 'f read_view) \<Rightarrow> ('f, ('s, 'f) ApplyViewBase) apply_ops" where
  "ApplyViewBase_ops view =
     \<lparr>ap_peek = ApplyViewBase_peek view, ap_erase = ApplyViewBase_erase, ap_insert = ApplyViewBase_insert,
      ap_update = ApplyViewBase_update, ap_get = avb_get, ap_set = avb_set, ap_make = avb_make\<rparr>"

text \<open>
  The raw modifications. The entry comes from a journal that is applied here and then discarded, so
  the pointer is not shared any more: it counts as a new entry of the store.
\<close>

definition ApplyViewBase_rawErase :: "'f sle \<Rightarrow> ('s, 'f) ApplyViewBase \<Rightarrow> logic_error + ('s, 'f) ApplyViewBase" where
  "ApplyViewBase_rawErase e v =
     (let (p, v) = avb_make e v
      in map_sum id (\<lambda>t. v\<lparr>avb_items := t\<rparr>) (Apply_rawErase (avb_store v) p (avb_items v)))"

definition ApplyViewBase_rawInsert :: "'f sle \<Rightarrow> ('s, 'f) ApplyViewBase \<Rightarrow> logic_error + ('s, 'f) ApplyViewBase" where
  "ApplyViewBase_rawInsert e v =
     (let (p, v) = avb_make e v
      in map_sum id (\<lambda>t. v\<lparr>avb_items := t\<rparr>) (Apply_insert (avb_store v) p (avb_items v)))"

definition ApplyViewBase_rawReplace :: "'f sle \<Rightarrow> ('s, 'f) ApplyViewBase \<Rightarrow> logic_error + ('s, 'f) ApplyViewBase" where
  "ApplyViewBase_rawReplace e v =
     (let (p, v) = avb_make e v
      in map_sum id (\<lambda>t. v\<lparr>avb_items := t\<rparr>) (Apply_replace (avb_store v) p (avb_items v)))"

definition ApplyViewBase_rawDestroy :: "int \<Rightarrow> ('s, 'f) ApplyViewBase \<Rightarrow> ('s, 'f) ApplyViewBase" where
  "ApplyViewBase_rawDestroy fee v = v\<lparr>avb_items := Apply_destroyBIXRP fee (avb_items v)\<rparr>"

definition Sandbox_apply :: "('f sle \<Rightarrow> 't \<Rightarrow> logic_error + 't) \<Rightarrow> ('f sle \<Rightarrow> 't \<Rightarrow> logic_error + 't)
    \<Rightarrow> ('f sle \<Rightarrow> 't \<Rightarrow> logic_error + 't) \<Rightarrow> (int \<Rightarrow> 't \<Rightarrow> 't) \<Rightarrow> ('s, 'f) ApplyViewBase \<Rightarrow> 't \<Rightarrow> logic_error + 't" where
  "Sandbox_apply rErase rInsert rReplace rDestroy v to =
     Apply_apply rErase rInsert rReplace rDestroy (avb_store v) (avb_items v) to"

section \<open>Contents and well-formedness\<close>

definition avb_contents :: "('s \<Rightarrow> 'f contents) \<Rightarrow> ('s, 'f) ApplyViewBase \<Rightarrow> 'f contents" where
  "avb_contents C v = overlay (C (avb_base v)) (seen (avb_store v) (app_items (avb_items v)))"

definition avb_wf :: "('s \<Rightarrow> 'f contents) \<Rightarrow> ('s \<Rightarrow> bool) \<Rightarrow> ('s, 'f) ApplyViewBase \<Rightarrow> bool" where
  "avb_wf C ok v \<longleftrightarrow> ok (avb_base v) \<and> apply_fits (C (avb_base v)) (avb_store v) (app_items (avb_items v))"

definition avb_unmarked :: "('s \<Rightarrow> 'f contents) \<Rightarrow> ('s, 'f) ApplyViewBase \<Rightarrow> uint256 set" where
  "avb_unmarked C v = unmarked (C (avb_base v)) (avb_store v) (app_items (avb_items v))"

definition avb_ok :: "('s \<Rightarrow> 'f contents) \<Rightarrow> ('s \<Rightarrow> bool) \<Rightarrow> ('s, 'f) ApplyViewBase \<Rightarrow> bool" where
  "avb_ok C ok v \<longleftrightarrow> avb_wf C ok v \<and> avb_unmarked C v = {}"

definition avb_held :: "('s, 'f) ApplyViewBase \<Rightarrow> addr \<Rightarrow> uint256 option" where
  "avb_held v p =
     (if p < length (avb_store v) then
        (case smap_find (app_items (avb_items v)) (sle_key (avb_store v ! p)) of
           Some (action, q) \<Rightarrow> if q = p \<and> action \<noteq> act_erase then Some (sle_key (avb_store v ! p)) else None
         | None \<Rightarrow> None)
      else None)"

lemma avb_held_iff:
  assumes "avb_wf C ok v"
  shows "avb_held v p = Some k \<longleftrightarrow> (\<exists>action. smap_find (app_items (avb_items v)) k = Some (action, p) \<and> action \<noteq> act_erase)"
proof -
  have f: "apply_fits (C (avb_base v)) (avb_store v) (app_items (avb_items v))" using assms by (simp add: avb_wf_def)
  show ?thesis
  proof
    assume "avb_held v p = Some k"
    then show "\<exists>action. smap_find (app_items (avb_items v)) k = Some (action, p) \<and> action \<noteq> act_erase"
      by (auto simp: avb_held_def split: option.splits if_splits)
  next
    assume "\<exists>action. smap_find (app_items (avb_items v)) k = Some (action, p) \<and> action \<noteq> act_erase"
    then obtain action where a: "smap_find (app_items (avb_items v)) k = Some (action, p)" "action \<noteq> act_erase" by blast
    then show "avb_held v p = Some k"
      using apply_fitsD(1,2) [OF f a(1)] by (simp add: avb_held_def)
  qed
qed

text \<open>The readers see the contents.\<close>

context entry_view
begin

lemma ApplyViewBase_entry_view: "entry_view (ApplyViewBase_view view) (avb_contents C) (avb_wf C ok)"
proof -
  let ?raw = "\<lambda>v. (avb_base v, seen_table (avb_store v) (avb_items v)) :: 's \<times> 'f raw_table"
  have eqs: "rv_exists (ApplyViewBase_view view v) = rv_exists (raw_over view (?raw v))"
    "rv_read (ApplyViewBase_view view v) = rv_read (raw_over view (?raw v))"
    "rv_succ (ApplyViewBase_view view v) = rv_succ (raw_over view (?raw v))"
    "avb_contents C v = raw_contents C (?raw v)" for v :: "('s, 'f) ApplyViewBase"
    using Apply_as_Raw(1,2) [of "view (avb_base v)" "avb_store v" "avb_items v"]
      Apply_as_Raw(3) [of "view (avb_base v)" "avb_items v" "avb_store v"]
    by (simp_all add: ApplyViewBase_view_def raw_over_def Let_def fun_eq_iff ApplyViewBase_exists_def
        ApplyViewBase_read_def ApplyViewBase_succ_def avb_contents_def raw_contents_def)
  have ok: "raw_ok C ok (?raw v)" if "avb_wf C ok v" for v :: "('s, 'f) ApplyViewBase"
    using that fits_seen by (auto simp: avb_wf_def raw_ok_def)
  show ?thesis
    unfolding entry_view_def eqs
    using entry_view.keyed [OF raw_over_entry ok] entry_view.read [OF raw_over_entry ok]
      entry_view.exists_typed [OF raw_over_entry ok] entry_view.exists_key [OF raw_over_entry ok]
      entry_view.succ [OF raw_over_entry ok]
    by blast
qed

text \<open>Each operation of the interface, in a state with unmarked changes or without.\<close>

lemma avb_peek_none:
  "avb_wf C ok v \<Longrightarrow> lookup (avb_contents C v) kl = None \<Longrightarrow> ApplyViewBase_peek view kl v = (None, v)"
  using Apply_peek_none [of "view (avb_base v)" kl "C (avb_base v)" "avb_store v" "avb_items v"] read
  by (simp add: ApplyViewBase_peek_def avb_contents_def avb_wf_def)

lemma avb_peek_some:
  assumes wf: "avb_wf C ok v" and some: "lookup (avb_contents C v) kl \<noteq> None"
  shows "\<exists>p v'. ApplyViewBase_peek view kl v = (Some p, v') \<and> avb_wf C ok v' \<and> avb_contents C v' = avb_contents C v
    \<and> avb_unmarked C v' = avb_unmarked C v \<and> avb_base v' = avb_base v
    \<and> avb_held v' p = Some (kl_key kl) \<and> (\<forall>q j. avb_held v q = Some j \<longrightarrow> avb_held v' q = Some j)"
proof -
  let ?M = "C (avb_base v)" and ?h = "avb_store v" and ?t = "avb_items v"
  have s: "ok (avb_base v)" and fit: "apply_fits ?M ?h (app_items ?t)" using wf by (simp_all add: avb_wf_def)
  obtain p h' t' action where r: "Apply_peek (view (avb_base v)) kl (?h, ?t) = (Some p, h', t')"
      "apply_fits ?M h' (app_items t')" "overlay ?M (seen h' (app_items t')) = overlay ?M (seen ?h (app_items ?t))"
      "unmarked ?M h' (app_items t') = unmarked ?M ?h (app_items ?t)"
      "smap_find (app_items t') (kl_key kl) = Some (action, p)" "action \<noteq> act_erase"
      "\<forall>j v. smap_find (app_items ?t) j = Some v \<longrightarrow> smap_find (app_items t') j = Some v"
    using Apply_peek_some [OF fit read [OF s], of kl] keyed [OF s] some by (auto simp: avb_contents_def)
  let ?v = "v\<lparr>avb_items := t', avb_store := h'\<rparr>"
  have wf': "avb_wf C ok ?v" using s r(2) by (simp add: avb_wf_def)
  have "avb_held ?v p = Some (kl_key kl)" unfolding avb_held_iff [OF wf'] using r(5,6) by simp
  moreover have "avb_held ?v q = Some j" if "avb_held v q = Some j" for q j
    using that r(7) unfolding avb_held_iff [OF wf] avb_held_iff [OF wf'] by auto
  ultimately show ?thesis
    using r(1,3,4) wf' by (auto simp: ApplyViewBase_peek_def avb_contents_def avb_unmarked_def)
qed

end

lemma avb_get_spec:
  "avb_wf C ok v \<Longrightarrow> avb_held v p = Some k \<Longrightarrow> avb_contents C v k = Some (avb_get p v)"
  by (auto simp: avb_held_iff avb_contents_def overlay_def smap_find_seen avb_get_def)

lemma avb_set_spec:
  assumes wf: "avb_wf C ok v" and k: "avb_held v p = Some k" "sle_key (f (avb_get p v)) = k"
  shows "avb_wf C ok (avb_set p f v) \<and> avb_contents C (avb_set p f v) = (avb_contents C v)(k \<mapsto> f (avb_get p v))
    \<and> avb_unmarked C (avb_set p f v) \<subseteq> insert k (avb_unmarked C v) \<and> avb_base (avb_set p f v) = avb_base v
    \<and> avb_held (avb_set p f v) = avb_held v"
proof -
  obtain action where a: "smap_find (app_items (avb_items v)) k = Some (action, p)" "action \<noteq> act_erase"
    using k(1) unfolding avb_held_iff [OF wf] by blast
  have "apply_fits (C (avb_base v)) (avb_store v) (app_items (avb_items v))" using wf by (simp add: avb_wf_def)
  note w = store_write [OF this a(1), of "f (avb_get p v)"]
  have wf': "avb_wf C ok (avb_set p f v)" using wf w(1) k(2) by (simp add: avb_wf_def avb_set_def avb_get_def)
  have "avb_held (avb_set p f v) q = Some j \<longleftrightarrow> avb_held v q = Some j" for q j
    unfolding avb_held_iff [OF wf] avb_held_iff [OF wf'] by (simp add: avb_set_def)
  then have "avb_held (avb_set p f v) q = avb_held v q" for q by (metis not_None_eq)
  then have "avb_held (avb_set p f v) = avb_held v" by (rule ext)
  then show ?thesis
    using wf' w(2,3) a(2) k(2) by (simp add: avb_contents_def avb_unmarked_def avb_set_def avb_get_def)
qed

text \<open>What the operations of the table share, lifted to the view.\<close>

lemma avb_change:
  assumes wf: "avb_wf C ok v" and fit: "apply_fits (C (avb_base v)) (avb_store v) (app_items t)"
    and c: "changed_at k (app_items (avb_items v)) (app_items t)"
  shows "avb_wf C ok (v\<lparr>avb_items := t\<rparr>)" and "avb_unmarked C (v\<lparr>avb_items := t\<rparr>) = avb_unmarked C v - {k}"
    and "\<And>q j. avb_held v q = Some j \<Longrightarrow> j \<noteq> k \<Longrightarrow> avb_held (v\<lparr>avb_items := t\<rparr>) q = Some j"
    and "\<And>q. avb_held (v\<lparr>avb_items := t\<rparr>) q = Some k \<longleftrightarrow> (\<exists>action. smap_find (app_items t) k = Some (action, q) \<and> action \<noteq> act_erase)"
proof -
  show wf': "avb_wf C ok (v\<lparr>avb_items := t\<rparr>)" using wf fit by (simp add: avb_wf_def)
  show "avb_unmarked C (v\<lparr>avb_items := t\<rparr>) = avb_unmarked C v - {k}"
    using unmarked_changed [OF c] by (simp add: avb_unmarked_def)
  show "avb_held (v\<lparr>avb_items := t\<rparr>) q = Some j" if "avb_held v q = Some j" "j \<noteq> k" for q j
    using that c unfolding avb_held_iff [OF wf] avb_held_iff [OF wf'] by (simp add: changed_at_def)
  show "avb_held (v\<lparr>avb_items := t\<rparr>) q = Some k \<longleftrightarrow> (\<exists>action. smap_find (app_items t) k = Some (action, q) \<and> action \<noteq> act_erase)" for q
    unfolding avb_held_iff [OF wf'] by simp
qed

lemma avb_update_spec:
  assumes wf: "avb_wf C ok v" and k: "avb_held v p = Some k"
  shows "\<exists>v'. ApplyViewBase_update p v = Inr v' \<and> avb_wf C ok v' \<and> avb_contents C v' = avb_contents C v
    \<and> avb_unmarked C v' = avb_unmarked C v - {k} \<and> avb_base v' = avb_base v
    \<and> (\<forall>q j. avb_held v q = Some j \<longrightarrow> avb_held v' q = Some j)"
proof -
  have fit: "apply_fits (C (avb_base v)) (avb_store v) (app_items (avb_items v))" using wf by (simp add: avb_wf_def)
  obtain action where a: "smap_find (app_items (avb_items v)) k = Some (action, p)" "action \<noteq> act_erase"
    using k unfolding avb_held_iff [OF wf] by blast
  obtain t' where t: "Apply_update (avb_store v) p (avb_items v) = Inr t'"
      "apply_fits (C (avb_base v)) (avb_store v) (app_items t')"
      "overlay (C (avb_base v)) (seen (avb_store v) (app_items t')) = avb_contents C v"
      "changed_at k (app_items (avb_items v)) (app_items t')"
      "\<exists>action. smap_find (app_items t') k = Some (action, p) \<and> action \<noteq> act_erase"
    using Apply_update_spec [OF fit a] by (auto simp: avb_contents_def)
  note c = avb_change [OF wf t(2,4)]
  have "avb_held (v\<lparr>avb_items := t'\<rparr>) q = Some j" if "avb_held v q = Some j" for q j
  proof (cases "j = k")
    case True
    then have "q = p" using that a(1) unfolding avb_held_iff [OF wf] by auto
    then show ?thesis using t(5) c(4) True by simp
  qed (use that c(3) in blast)
  then show ?thesis using t(1,3) c(1,2) by (auto simp: ApplyViewBase_update_def avb_contents_def)
qed

lemma avb_erase_spec:
  assumes wf: "avb_wf C ok v" and k: "avb_held v p = Some k"
  shows "\<exists>v'. ApplyViewBase_erase p v = Inr v' \<and> avb_wf C ok v' \<and> avb_contents C v' = (avb_contents C v)(k := None)
    \<and> avb_unmarked C v' = avb_unmarked C v - {k} \<and> avb_base v' = avb_base v
    \<and> (\<forall>q j. avb_held v q = Some j \<longrightarrow> j \<noteq> k \<longrightarrow> avb_held v' q = Some j)"
proof -
  have fit: "apply_fits (C (avb_base v)) (avb_store v) (app_items (avb_items v))" using wf by (simp add: avb_wf_def)
  obtain action where a: "smap_find (app_items (avb_items v)) k = Some (action, p)" "action \<noteq> act_erase"
    using k unfolding avb_held_iff [OF wf] by blast
  obtain t' where t: "Apply_erase (avb_store v) p (avb_items v) = Inr t'"
      "apply_fits (C (avb_base v)) (avb_store v) (app_items t')"
      "overlay (C (avb_base v)) (seen (avb_store v) (app_items t')) = (avb_contents C v)(k := None)"
      "changed_at k (app_items (avb_items v)) (app_items t')"
    using Apply_erase_spec [OF fit a] by (auto simp: avb_contents_def)
  show ?thesis using avb_change [OF wf t(2,4)] t(1,3) by (auto simp: ApplyViewBase_erase_def avb_contents_def)
qed

lemma avb_make_spec:
  assumes "avb_wf C ok v" and "avb_make e v = (p, v1)"
  shows "avb_wf C ok v1" and "avb_contents C v1 = avb_contents C v" and "avb_unmarked C v1 = avb_unmarked C v"
    and "avb_base v1 = avb_base v" and "avb_items v1 = avb_items v" and "p < length (avb_store v1)" and "avb_store v1 ! p = e"
    and "\<And>q j. avb_held v q = Some j \<Longrightarrow> avb_held v1 q = Some j"
proof -
  have fit: "apply_fits (C (avb_base v)) (avb_store v) (app_items (avb_items v))" using assms(1) by (simp add: avb_wf_def)
  have v1: "v1 = v\<lparr>avb_store := avb_store v @ [e]\<rparr>" "p = length (avb_store v)"
    using assms(2) by (simp_all add: avb_make_def make_shared_def)
  note a = store_append [OF fit, of e]
  show wf': "avb_wf C ok v1" using assms(1) a(1) by (simp add: avb_wf_def v1)
  show "avb_contents C v1 = avb_contents C v" "avb_unmarked C v1 = avb_unmarked C v"
    using a(2,3) by (simp_all add: v1 avb_contents_def avb_unmarked_def)
  show "avb_base v1 = avb_base v" "avb_items v1 = avb_items v" "p < length (avb_store v1)" "avb_store v1 ! p = e"
    by (simp_all add: v1)
  show "avb_held v1 q = Some j" if "avb_held v q = Some j" for q j
    using that unfolding avb_held_iff [OF wf'] avb_held_iff [OF assms(1)] by (simp add: v1)
qed

lemma avb_insert_spec:
  assumes wf: "avb_wf C ok v" and n: "avb_contents C v (sle_key e) = None" and k: "sle_key e \<noteq> 0"
    and m: "avb_make e v = (p, v1)"
  shows "\<exists>v'. ApplyViewBase_insert p v1 = Inr v' \<and> avb_wf C ok v'
    \<and> avb_contents C v' = (avb_contents C v)(sle_key e \<mapsto> e) \<and> avb_unmarked C v' = avb_unmarked C v - {sle_key e}
    \<and> avb_base v' = avb_base v \<and> (\<forall>q j. avb_held v q = Some j \<longrightarrow> avb_held v' q = Some j)"
proof -
  note mk = avb_make_spec [OF wf m]
  let ?M = "C (avb_base v)" and ?h = "avb_store v1" and ?t = "avb_items v1"
  have fit: "apply_fits ?M ?h (app_items ?t)" using mk(1,4) by (simp add: avb_wf_def)
  have "overlay ?M (seen ?h (app_items ?t)) (sle_key e) = None" using n mk(2,4) by (simp add: avb_contents_def)
  then obtain t' where t: "Apply_insert ?h p ?t = Inr t'" "apply_fits ?M ?h (app_items t')"
      "overlay ?M (seen ?h (app_items t')) = (avb_contents C v)(sle_key e \<mapsto> e)" "changed_at (sle_key e) (app_items ?t) (app_items t')"
    using Apply_insert_spec [OF fit mk(6), of "sle_key e"] k mk(2,4,7) by (auto simp: avb_contents_def)
  have fit': "apply_fits (C (avb_base v1)) ?h (app_items t')" using t(2) mk(4) by simp
  note c = avb_change [OF mk(1) fit' t(4)]
  have "j \<noteq> sle_key e" if "avb_held v q = Some j" for q j
    using n avb_get_spec [OF wf that] by auto
  then show ?thesis using t(1,3) c(1,2,3) mk(3,4,8) by (auto simp: ApplyViewBase_insert_def avb_contents_def)
qed

context entry_view
begin

text \<open>The clients of the interface get its contract, as long as they leave no change unmarked.\<close>

lemma ApplyViewBase_apply_view: "apply_view (ApplyViewBase_ops view) (avb_contents C) (avb_ok C ok) avb_held"
proof
  fix v :: "('s, 'f) ApplyViewBase" and kl k e p q f
  let ?A = "ApplyViewBase_ops view"
  assume ok: "avb_ok C ok v"
  then have wf: "avb_wf C ok v" and u: "avb_unmarked C v = {}" by (simp_all add: avb_ok_def)
  note ops = ApplyViewBase_ops_def avb_ok_def
  show "avb_contents C v k = Some e \<Longrightarrow> sle_key e = k \<and> k \<noteq> 0"
    using entry_view.keyed [OF ApplyViewBase_entry_view wf] .
  show "lookup (avb_contents C v) kl = None \<Longrightarrow> ap_peek ?A kl v = (None, v)"
    using avb_peek_none [OF wf] by (simp add: ops)
  show "\<exists>p v'. ap_peek ?A kl v = (Some p, v') \<and> avb_ok C ok v' \<and> avb_contents C v' = avb_contents C v
      \<and> avb_held v' p = Some (kl_key kl) \<and> (\<forall>q j. avb_held v q = Some j \<longrightarrow> avb_held v' q = Some j)"
    if "lookup (avb_contents C v) kl \<noteq> None"
    using avb_peek_some [OF wf that] u by (auto simp: ops)
  show "avb_held v p = Some k \<Longrightarrow> avb_held v q = Some k \<Longrightarrow> p = q" unfolding avb_held_iff [OF wf] by auto
  show "avb_contents C v k = Some (ap_get ?A p v)" if "avb_held v p = Some k"
    using avb_get_spec [OF wf that] by (simp add: ops)
  show "\<exists>v'. ap_update ?A p (ap_set ?A p f v) = Inr v' \<and> avb_ok C ok v'
      \<and> avb_contents C v' = (avb_contents C v)(k \<mapsto> f (ap_get ?A p v))
      \<and> (\<forall>q j. avb_held v q = Some j \<longrightarrow> avb_held v' q = Some j)"
    if "avb_held v p = Some k" and "sle_key (f (ap_get ?A p v)) = k"
    using avb_set_spec [OF wf that(1), of f] that avb_update_spec [of C ok "avb_set p f v" p k] u by (auto simp: ops)
  show "\<exists>p v1 v'. ap_make ?A e v = (p, v1) \<and> ap_insert ?A p v1 = Inr v' \<and> avb_ok C ok v'
      \<and> avb_contents C v' = (avb_contents C v)(sle_key e \<mapsto> e) \<and> (\<forall>q j. avb_held v q = Some j \<longrightarrow> avb_held v' q = Some j)"
    if "avb_contents C v (sle_key e) = None" "sle_key e \<noteq> 0"
    using avb_insert_spec [OF wf that] u by (cases "avb_make e v") (auto simp: ops)
  show "\<exists>v'. ap_erase ?A p v = Inr v' \<and> avb_ok C ok v' \<and> avb_contents C v' = (avb_contents C v)(k := None)
      \<and> (\<forall>q j. avb_held v q = Some j \<longrightarrow> j \<noteq> k \<longrightarrow> avb_held v' q = Some j)"
    if "avb_held v p = Some k"
    using avb_erase_spec [OF wf that] u by (auto simp: ops)
qed

text \<open>It can be written to as a raw view, so sandboxes stack.\<close>

lemma ApplyViewBase_raw: "raw_view (avb_contents C) (avb_ok C ok) (\<lambda>v. app_dropsDestroyed (avb_items v))
    ApplyViewBase_rawErase ApplyViewBase_rawInsert ApplyViewBase_rawReplace ApplyViewBase_rawDestroy"
proof
  fix v :: "('s, 'f) ApplyViewBase" and e :: "'f sle" and fee
  assume ok: "avb_ok C ok v"
  then have wf: "avb_wf C ok v" and u: "avb_unmarked C v = {}" by (simp_all add: avb_ok_def)
  obtain p v1 where m: "avb_make e v = (p, v1)" by fastforce
  note mk = avb_make_spec [OF wf m]
  let ?M = "C (avb_base v1)" and ?h = "avb_store v1" and ?t = "avb_items v1" and ?k = "sle_key e"
  have fit: "apply_fits ?M ?h (app_items ?t)" using mk(1) by (simp add: avb_wf_def)
  have c: "overlay ?M (seen ?h (app_items ?t)) = avb_contents C v" using mk(2) by (simp add: avb_contents_def)
  have k: "?k \<noteq> 0" if "avb_contents C v ?k \<noteq> None"
    using that entry_view.keyed [OF ApplyViewBase_entry_view wf] by auto
  have lift: "\<exists>v'. map_sum id (\<lambda>t. v1\<lparr>avb_items := t\<rparr>) r = Inr v' \<and> avb_ok C ok v' \<and> avb_contents C v' = K
      \<and> app_dropsDestroyed (avb_items v') = app_dropsDestroyed (avb_items v)"
    if t: "r = Inr t" "apply_fits ?M ?h (app_items t)" "overlay ?M (seen ?h (app_items t)) = K"
      "app_dropsDestroyed t = app_dropsDestroyed ?t" "changed_at ?k (app_items ?t) (app_items t)" for r t K
    using avb_change(1,2) [OF mk(1) t(2,5)] t(1,3,4) mk(3,5) u by (simp add: avb_ok_def avb_contents_def)
  show "\<exists>v'. ApplyViewBase_rawErase e v = Inr v' \<and> avb_ok C ok v' \<and> avb_contents C v' = (avb_contents C v)(?k := None)
      \<and> app_dropsDestroyed (avb_items v') = app_dropsDestroyed (avb_items v)" if "avb_contents C v ?k \<noteq> None"
  proof -
    have "sle_key (?h ! p) = ?k" using mk(7) by simp
    from Apply_rawErase_spec [OF fit mk(6) this k [OF that], unfolded c, OF that] show ?thesis
      unfolding ApplyViewBase_rawErase_def m Let_def prod.case by (elim exE conjE) (rule lift)
  qed
  show "\<exists>v'. ApplyViewBase_rawInsert e v = Inr v' \<and> avb_ok C ok v' \<and> avb_contents C v' = (avb_contents C v)(?k \<mapsto> e)
      \<and> app_dropsDestroyed (avb_items v') = app_dropsDestroyed (avb_items v)" if "avb_contents C v ?k = None" "?k \<noteq> 0"
  proof -
    have "sle_key (?h ! p) = ?k" using mk(7) by simp
    from Apply_insert_spec [OF fit mk(6) this that(2), unfolded c mk(7), OF that(1)] show ?thesis
      unfolding ApplyViewBase_rawInsert_def m Let_def prod.case by (elim exE conjE) (rule lift)
  qed
  show "\<exists>v'. ApplyViewBase_rawReplace e v = Inr v' \<and> avb_ok C ok v' \<and> avb_contents C v' = (avb_contents C v)(?k \<mapsto> e)
      \<and> app_dropsDestroyed (avb_items v') = app_dropsDestroyed (avb_items v)" if "avb_contents C v ?k \<noteq> None"
  proof -
    have "sle_key (?h ! p) = ?k" using mk(7) by simp
    from Apply_replace_spec [OF fit mk(6) this k [OF that], unfolded c mk(7), OF that] show ?thesis
      unfolding ApplyViewBase_rawReplace_def m Let_def prod.case by (elim exE conjE) (rule lift)
  qed
  show "avb_ok C ok (ApplyViewBase_rawDestroy fee v) \<and> avb_contents C (ApplyViewBase_rawDestroy fee v) = avb_contents C v
      \<and> app_dropsDestroyed (avb_items (ApplyViewBase_rawDestroy fee v)) = app_dropsDestroyed (avb_items v) + fee"
    using ok by (simp add: ApplyViewBase_rawDestroy_def Apply_destroyBIXRP_def avb_ok_def avb_wf_def avb_contents_def avb_unmarked_def)
qed

end

section \<open>Applying a sandbox\<close>

context raw_view
begin

lemma Sandbox_apply_spec:
  assumes "ok to" and "C to = M (avb_base v)" and "avb_wf M okM v"
  shows "\<exists>to'. Sandbox_apply rawErase rawInsert rawReplace rawDestroy v to = Inr to' \<and> ok to'
    \<and> C to' = (\<lambda>k. if k \<in> avb_unmarked M v then C to k else avb_contents M v k)
    \<and> D to' = D to + app_dropsDestroyed (avb_items v)"
proof -
  have f: "apply_fits (C to) (avb_store v) (app_items (avb_items v))" using assms(2,3) by (simp add: avb_wf_def)
  show ?thesis
    using Apply_apply_spec [OF assms(1) f]
    unfolding Sandbox_apply_def avb_unmarked_def avb_contents_def assms(2) [symmetric] overlay_marked [OF apply_fits_ok [OF f]] .
qed

end

section \<open>A sandbox on a closed ledger\<close>

interpretation avb_entries: entry_view "ApplyViewBase_view Ledger_view" "avb_contents ledger_contents" "avb_wf ledger_contents ledger_ok"
  by (rule led.ApplyViewBase_entry_view)

interpretation avb: apply_view "ApplyViewBase_ops Ledger_view" "avb_contents ledger_contents" "avb_ok ledger_contents ledger_ok" avb_held
  by (rule led.ApplyViewBase_apply_view)

interpretation avb_raw: raw_view "avb_contents ledger_contents" "avb_ok ledger_contents ledger_ok" "\<lambda>v. app_dropsDestroyed (avb_items v)"
  ApplyViewBase_rawErase ApplyViewBase_rawInsert ApplyViewBase_rawReplace ApplyViewBase_rawDestroy
  by (rule led.ApplyViewBase_raw)

end
