(* ===== verification/Directory.thy ===== *)
theory Directory
  imports ApplyView "HOL-Library.Multiset"
begin

text \<open>
  Directories: doubly linked pages of keys in the ledger, with the first page as the anchor. The
  changes are in \<^verbatim>\<open>ledger/impl/ApplyView.cpp\<close>, over any implementation of the interface of the
  theory \<open>ApplyView\<close>; the traversals in \<^verbatim>\<open>ledger/impl/View.cpp\<close> and \<^verbatim>\<open>ledger/impl/Directory.cpp\<close>, over
  any view. The hash behind \<^verbatim>\<open>indexHash\<close> is the argument \<open>hash\<close>, and the fields a new entry starts
  with apart from the ones below are \<open>blank\<close>.
\<close>

section \<open>Pages\<close>

record 'r dir_fields =
  sfRootIndex :: uint256
  sfIndexes :: "uint256 list"
  sfIndexNext :: u64
  sfIndexPrevious :: u64
  sfOther :: 'r

type_synonym 'r dir_sle = "'r dir_fields sle"

abbreviation dirNodeMaxEntries :: nat where
  "dirNodeMaxEntries \<equiv> 32"

abbreviation dirNodeMaxPages :: u64 where
  "dirNodeMaxPages \<equiv> 262144"

definition keylet_page :: "(uint256 \<Rightarrow> u64 \<Rightarrow> uint256) \<Rightarrow> uint256 \<Rightarrow> u64 \<Rightarrow> Keylet" where
  "keylet_page hash key index =
     (if index = 0 then \<lparr>kl_type = ltDIR_NODE, kl_key = key\<rparr>
      else \<lparr>kl_type = ltDIR_NODE, kl_key = hash key index\<rparr>)"

text \<open>A new entry, and the setters of its fields.\<close>

definition new_sle :: "Keylet \<Rightarrow> 'r \<Rightarrow> 'r dir_sle" where
  "new_sle k blank = \<lparr>sle_key = kl_key k, sle_type = kl_type k,
     sle_fields = \<lparr>sfRootIndex = 0, sfIndexes = [], sfIndexNext = 0, sfIndexPrevious = 0, sfOther = blank\<rparr>\<rparr>"

definition setRootIndex :: "uint256 \<Rightarrow> 'r dir_sle \<Rightarrow> 'r dir_sle" where
  "setRootIndex x s = s\<lparr>sle_fields := (sle_fields s)\<lparr>sfRootIndex := x\<rparr>\<rparr>"

definition setIndexes :: "uint256 list \<Rightarrow> 'r dir_sle \<Rightarrow> 'r dir_sle" where
  "setIndexes x s = s\<lparr>sle_fields := (sle_fields s)\<lparr>sfIndexes := x\<rparr>\<rparr>"

definition setIndexNext :: "u64 \<Rightarrow> 'r dir_sle \<Rightarrow> 'r dir_sle" where
  "setIndexNext x s = s\<lparr>sle_fields := (sle_fields s)\<lparr>sfIndexNext := x\<rparr>\<rparr>"

definition setIndexPrevious :: "u64 \<Rightarrow> 'r dir_sle \<Rightarrow> 'r dir_sle" where
  "setIndexPrevious x s = s\<lparr>sle_fields := (sle_fields s)\<lparr>sfIndexPrevious := x\<rparr>\<rparr>"

text \<open>Changing an entry through its pointer and marking it, the way every change below is made.\<close>

definition modify :: "('f, 's) apply_ops \<Rightarrow> addr \<Rightarrow> ('f sle \<Rightarrow> 'f sle) \<Rightarrow> 's \<Rightarrow> logic_error + 's" where
  "modify A p f s = ap_update A p (ap_set A p f s)"

abbreviation indexes_of :: "('r dir_fields, 's) apply_ops \<Rightarrow> addr \<Rightarrow> 's \<Rightarrow> uint256 list" where
  "indexes_of A p s \<equiv> sfIndexes (sle_fields (ap_get A p s))"

abbreviation next_of :: "('r dir_fields, 's) apply_ops \<Rightarrow> addr \<Rightarrow> 's \<Rightarrow> u64" where
  "next_of A p s \<equiv> sfIndexNext (sle_fields (ap_get A p s))"

abbreviation previous_of :: "('r dir_fields, 's) apply_ops \<Rightarrow> addr \<Rightarrow> 's \<Rightarrow> u64" where
  "previous_of A p s \<equiv> sfIndexPrevious (sle_fields (ap_get A p s))"

section \<open>Adding an entry\<close>

text \<open>The new contents of a page with space.\<close>

definition place_key :: "bool \<Rightarrow> uint256 \<Rightarrow> uint256 list \<Rightarrow> logic_error + uint256 list" where
  "place_key preserveOrder key indexes =
     (if preserveOrder then
        (if key \<in> set indexes then Inl (LogicError ''dirInsert: double insertion'') else Inr (indexes @ [key]))
      else
        (let indexes = sort indexes;
             before = takeWhile (\<lambda>x. x < key) indexes;
             pos = dropWhile (\<lambda>x. x < key) indexes
         in if pos \<noteq> [] \<and> hd pos = key then Inl (LogicError ''dirInsert: double insertion'')
            else Inr (before @ key # pos)))"

text \<open>The last page, for the number the first page has for it: zero stands for the first page itself.\<close>

definition dir_tail :: "('r dir_fields, 's) apply_ops \<Rightarrow> (uint256 \<Rightarrow> u64 \<Rightarrow> uint256) \<Rightarrow> Keylet \<Rightarrow> addr \<Rightarrow> u64 \<Rightarrow> 's
    \<Rightarrow> addr option \<times> 's" where
  "dir_tail A hash directory rootp page s =
     (if page \<noteq> 0 then ap_peek A (keylet_page hash (kl_key directory) page) s else (Some rootp, s))"

definition dirAdd :: "('r dir_fields, 's) apply_ops \<Rightarrow> (uint256 \<Rightarrow> u64 \<Rightarrow> uint256) \<Rightarrow> 'r \<Rightarrow> bool \<Rightarrow> Keylet \<Rightarrow> uint256
    \<Rightarrow> ('r dir_sle \<Rightarrow> 'r dir_sle) \<Rightarrow> 's \<Rightarrow> logic_error + (u64 option \<times> 's)" where
  "dirAdd A hash blank preserveOrder directory key describe s =
     (case ap_peek A directory s of
        (None, s) \<Rightarrow>
          (let (p, s) = ap_make A (setIndexes [key] (describe (setRootIndex (kl_key directory) (new_sle directory blank)))) s
           in case ap_insert A p s of Inl err \<Rightarrow> Inl err | Inr s \<Rightarrow> Inr (Some 0, s))
      | (Some rootp, s) \<Rightarrow>
          (let page = previous_of A rootp s
           in case dir_tail A hash directory rootp page s of
                (None, s) \<Rightarrow> Inl (LogicError ''Directory chain: root back-pointer broken.'')
              | (Some node, s) \<Rightarrow>
                  (let indexes = indexes_of A node s
                   in if length indexes < dirNodeMaxEntries then
                        (case place_key preserveOrder key indexes of
                           Inl err \<Rightarrow> Inl err
                         | Inr indexes \<Rightarrow>
                             (case modify A node (setIndexes indexes) s of
                                Inl err \<Rightarrow> Inl err
                              | Inr s \<Rightarrow> Inr (Some page, s)))
                      else if page + 1 \<ge> dirNodeMaxPages then Inr (None, s)
                      else
                        (let page = page + 1
                         in case modify A node (setIndexNext page) s of
                              Inl err \<Rightarrow> Inl err
                            | Inr s \<Rightarrow>
                                (case modify A rootp (setIndexPrevious page) s of
                                   Inl err \<Rightarrow> Inl err
                                 | Inr s \<Rightarrow>
                                     (let e = setIndexes [key] (setRootIndex (kl_key directory)
                                                (new_sle (keylet_page hash (kl_key directory) page) blank));
                                          e = (if page \<noteq> 1 then setIndexPrevious (page - 1) e else e);
                                          (p, s) = ap_make A (describe e) s
                                      in case ap_insert A p s of
                                           Inl err \<Rightarrow> Inl err
                                         | Inr s \<Rightarrow> Inr (Some page, s)))))))"

section \<open>Removing an entry\<close>

text \<open>
  When the first page is empty, a single other page that is empty as well goes. Both \<^verbatim>\<open>dirRemove\<close> and
  \<^verbatim>\<open>emptyDirDelete\<close> have this step. The result says whether the first page is now alone.
\<close>

definition drop_empty_last :: "('r dir_fields, 's) apply_ops \<Rightarrow> (uint256 \<Rightarrow> u64 \<Rightarrow> uint256) \<Rightarrow> Keylet \<Rightarrow> addr \<Rightarrow> u64 \<Rightarrow> u64
    \<Rightarrow> 's \<Rightarrow> logic_error + (bool \<times> 's)" where
  "drop_empty_last A hash directory node prevPage nextPage s =
     (if nextPage = prevPage \<and> nextPage \<noteq> 0 then
        (case ap_peek A (keylet_page hash (kl_key directory) nextPage) s of
           (None, s) \<Rightarrow> Inl (LogicError ''Directory chain: fwd link broken.'')
         | (Some lastp, s) \<Rightarrow>
             if indexes_of A lastp s = [] then
               (case modify A node (\<lambda>e. setIndexPrevious 0 (setIndexNext 0 e)) s of
                  Inl err \<Rightarrow> Inl err
                | Inr s \<Rightarrow>
                    (case ap_erase A lastp s of
                       Inl err \<Rightarrow> Inl err
                     | Inr s \<Rightarrow> Inr (True, s)))
             else Inr (False, s))
      else Inr (nextPage = 0 \<and> prevPage = 0, s))"

text \<open>The end of \<^verbatim>\<open>dirRemove\<close> when the first page has become empty.\<close>

definition dirRemove_root :: "('r dir_fields, 's) apply_ops \<Rightarrow> (uint256 \<Rightarrow> u64 \<Rightarrow> uint256) \<Rightarrow> Keylet \<Rightarrow> addr \<Rightarrow> bool
    \<Rightarrow> 's \<Rightarrow> logic_error + (bool \<times> 's)" where
  "dirRemove_root A hash directory node keepRoot s =
     (let prevPage = previous_of A node s; nextPage = next_of A node s
      in if nextPage = 0 \<and> prevPage \<noteq> 0 then Inl (LogicError ''Directory chain: fwd link broken'')
         else if prevPage = 0 \<and> nextPage \<noteq> 0 then Inl (LogicError ''Directory chain: rev link broken'')
         else (case drop_empty_last A hash directory node prevPage nextPage s of
                 Inl err \<Rightarrow> Inl err
               | Inr (alone, s) \<Rightarrow>
                   if keepRoot then Inr (True, s)
                   else if alone then
                     (case ap_erase A node s of Inl err \<Rightarrow> Inl err | Inr s \<Rightarrow> Inr (True, s))
                   else Inr (True, s)))"

text \<open>
  The step of \<^verbatim>\<open>dirRemove\<close> after a page was unlinked: the next page goes as well when it is the last and
  empty. The result has the number of the page that then comes next.
\<close>

definition dirRemove_trim :: "('r dir_fields, 's) apply_ops \<Rightarrow> (uint256 \<Rightarrow> u64 \<Rightarrow> uint256) \<Rightarrow> Keylet \<Rightarrow> addr \<Rightarrow> addr \<Rightarrow> u64 \<Rightarrow> u64
    \<Rightarrow> 's \<Rightarrow> logic_error + (u64 \<times> 's)" where
  "dirRemove_trim A hash directory prev next prevPage nextPage s =
     (if nextPage \<noteq> 0 \<and> next_of A next s = 0 \<and> indexes_of A next s = [] then
        (case ap_erase A next s of Inl err \<Rightarrow> Inl err | Inr s \<Rightarrow>
        (case modify A prev (setIndexNext 0) s of Inl err \<Rightarrow> Inl err | Inr s \<Rightarrow>
        (case ap_peek A (keylet_page hash (kl_key directory) 0) s of
           (None, s) \<Rightarrow> Inl (LogicError ''Directory chain: root link broken.'')
         | (Some rootp, s) \<Rightarrow>
             (case modify A rootp (setIndexPrevious prevPage) s of
                Inl err \<Rightarrow> Inl err
              | Inr s \<Rightarrow> Inr (0, s)))))
      else Inr (nextPage, s))"

text \<open>The end of \<^verbatim>\<open>dirRemove\<close> when another page has become empty: it is unlinked and erased.\<close>

definition dirRemove_page :: "('r dir_fields, 's) apply_ops \<Rightarrow> (uint256 \<Rightarrow> u64 \<Rightarrow> uint256) \<Rightarrow> Keylet \<Rightarrow> u64 \<Rightarrow> addr \<Rightarrow> bool
    \<Rightarrow> 's \<Rightarrow> logic_error + (bool \<times> 's)" where
  "dirRemove_page A hash directory page node keepRoot s =
     (let prevPage = previous_of A node s; nextPage = next_of A node s
      in if nextPage = page then Inl (LogicError ''Directory chain: fwd link broken'')
         else if prevPage = page then Inl (LogicError ''Directory chain: rev link broken'')
         else (case ap_peek A (keylet_page hash (kl_key directory) prevPage) s of
           (None, s) \<Rightarrow> Inl (LogicError ''Directory chain: fwd link broken.'')
         | (Some prev, s) \<Rightarrow>
         (case modify A prev (setIndexNext nextPage) s of Inl err \<Rightarrow> Inl err | Inr s \<Rightarrow>
         (case ap_peek A (keylet_page hash (kl_key directory) nextPage) s of
           (None, s) \<Rightarrow> Inl (LogicError ''Directory chain: rev link broken.'')
         | (Some next, s) \<Rightarrow>
         (case modify A next (setIndexPrevious prevPage) s of Inl err \<Rightarrow> Inl err | Inr s \<Rightarrow>
         (case ap_erase A node s of Inl err \<Rightarrow> Inl err | Inr s \<Rightarrow>
         (case dirRemove_trim A hash directory prev next prevPage nextPage s of
            Inl err \<Rightarrow> Inl err
          | Inr (nextPage, s) \<Rightarrow>
              if \<not> keepRoot \<and> nextPage = 0 \<and> prevPage = 0 \<and> indexes_of A prev s = [] then
                (case ap_erase A prev s of Inl err \<Rightarrow> Inl err | Inr s \<Rightarrow> Inr (True, s))
              else Inr (True, s))))))))"

definition dirRemove :: "('r dir_fields, 's) apply_ops \<Rightarrow> (uint256 \<Rightarrow> u64 \<Rightarrow> uint256) \<Rightarrow> Keylet \<Rightarrow> u64 \<Rightarrow> uint256 \<Rightarrow> bool
    \<Rightarrow> 's \<Rightarrow> logic_error + (bool \<times> 's)" where
  "dirRemove A hash directory page key keepRoot s =
     (case ap_peek A (keylet_page hash (kl_key directory) page) s of
        (None, s) \<Rightarrow> Inr (False, s)
      | (Some node, s) \<Rightarrow>
          (let entries = indexes_of A node s
           in if key \<notin> set entries then Inr (False, s)
              else (let entries = remove1 key entries
                    in case modify A node (setIndexes entries) s of
                         Inl err \<Rightarrow> Inl err
                       | Inr s \<Rightarrow>
                           if entries \<noteq> [] then Inr (True, s)
                           else if page = 0 then dirRemove_root A hash directory node keepRoot s
                           else dirRemove_page A hash directory page node keepRoot s)))"

section \<open>Deleting an empty directory\<close>

text \<open>
  With a single other page that is not empty, the answer is false; \<open>drop_empty_last\<close> has then left the
  first page not alone.
\<close>

definition emptyDirDelete :: "('r dir_fields, 's) apply_ops \<Rightarrow> (uint256 \<Rightarrow> u64 \<Rightarrow> uint256) \<Rightarrow> Keylet
    \<Rightarrow> 's \<Rightarrow> logic_error + (bool \<times> 's)" where
  "emptyDirDelete A hash directory s =
     (case ap_peek A directory s of
        (None, s) \<Rightarrow> Inr (False, s)
      | (Some node, s) \<Rightarrow>
          if kl_type directory \<noteq> ltDIR_NODE \<or> sfRootIndex (sle_fields (ap_get A node s)) \<noteq> kl_key directory then Inr (False, s)
          else if indexes_of A node s \<noteq> [] then Inr (False, s)
          else
            (let prevPage = previous_of A node s; nextPage = next_of A node s
             in if nextPage = 0 \<and> prevPage \<noteq> 0 then Inl (LogicError ''Directory chain: fwd link broken'')
                else if prevPage = 0 \<and> nextPage \<noteq> 0 then Inl (LogicError ''Directory chain: rev link broken'')
                else (case drop_empty_last A hash directory node prevPage nextPage s of
                        Inl err \<Rightarrow> Inl err
                      | Inr (alone, s) \<Rightarrow>
                          if nextPage = prevPage \<and> nextPage \<noteq> 0 \<and> \<not> alone then Inr (False, s)
                          else if alone then
                            (case ap_erase A node s of Inl err \<Rightarrow> Inl err | Inr s \<Rightarrow> Inr (True, s))
                          else Inr (True, s))))"

section \<open>Traversals\<close>

text \<open>
  A traversal yields what the callback was given, in order. It is \<open>None\<close> when it does not end, follows
  a null pointer or fails an assertion.
\<close>

definition dirIsEmpty :: "'r dir_fields read_view \<Rightarrow> Keylet \<Rightarrow> bool" where
  "dirIsEmpty view k =
     (case rv_read view k of
        None \<Rightarrow> True
      | Some node \<Rightarrow>
          if sfIndexes (sle_fields node) \<noteq> [] then False else sfIndexNext (sle_fields node) = 0)"

partial_function (option) forEachItem_from :: "'r dir_fields read_view \<Rightarrow> (uint256 \<Rightarrow> u64 \<Rightarrow> uint256) \<Rightarrow> uint256 \<Rightarrow> Keylet
    \<Rightarrow> 'r dir_sle option list option" where
  "forEachItem_from view hash rootIndex pos =
     (case rv_read view pos of
        None \<Rightarrow> Some []
      | Some sle \<Rightarrow>
          (let items = map (\<lambda>key. rv_read view (keylet_child key)) (sfIndexes (sle_fields sle));
               next = sfIndexNext (sle_fields sle)
           in if next = 0 then Some items
              else Option.bind (forEachItem_from view hash rootIndex (keylet_page hash rootIndex next))
                     (\<lambda>rest. Some (items @ rest))))"

declare forEachItem_from.simps [code]

definition forEachItem :: "'r dir_fields read_view \<Rightarrow> (uint256 \<Rightarrow> u64 \<Rightarrow> uint256) \<Rightarrow> uint256 \<Rightarrow> 'r dir_sle option list option" where
  "forEachItem view hash ownerDir = forEachItem_from view hash ownerDir (keylet_page hash ownerDir 0)"

text \<open>The position of \<^verbatim>\<open>cdirNext\<close>: the current page, the number of its next entry, and the entry reached.\<close>

record 'r cdir_pos =
  sleNode :: "'r dir_sle"
  uDirEntry :: nat
  uEntryIndex :: uint256

partial_function (option) cdirNext :: "'r dir_fields read_view \<Rightarrow> (uint256 \<Rightarrow> u64 \<Rightarrow> uint256) \<Rightarrow> uint256 \<Rightarrow> 'r cdir_pos
    \<Rightarrow> (bool \<times> 'r cdir_pos) option" where
  "cdirNext view hash uRootIndex c =
     (let svIndexes = sfIndexes (sle_fields (sleNode c))
      in if uDirEntry c \<ge> length svIndexes then
           (let uNodeNext = sfIndexNext (sle_fields (sleNode c))
            in if uNodeNext = 0 then Some (False, c\<lparr>uEntryIndex := 0\<rparr>)
               else (case rv_read view (keylet_page hash uRootIndex uNodeNext) of
                       None \<Rightarrow> Some (False, c\<lparr>uDirEntry := 0\<rparr>)
                     | Some sleNext \<Rightarrow> cdirNext view hash uRootIndex (c\<lparr>uDirEntry := 0, sleNode := sleNext\<rparr>)))
         else Some (True, c\<lparr>uEntryIndex := svIndexes ! uDirEntry c, uDirEntry := uDirEntry c + 1\<rparr>))"

declare cdirNext.simps [code]

definition cdirFirst :: "'r dir_fields read_view \<Rightarrow> (uint256 \<Rightarrow> u64 \<Rightarrow> uint256) \<Rightarrow> uint256 \<Rightarrow> uint256
    \<Rightarrow> (bool \<times> 'r cdir_pos) option" where
  "cdirFirst view hash uRootIndex entry =
     (case rv_read view (keylet_page hash uRootIndex 0) of
        None \<Rightarrow> None
      | Some sle \<Rightarrow> cdirNext view hash uRootIndex \<lparr>sleNode = sle, uDirEntry = 0, uEntryIndex = entry\<rparr>)"

text \<open>The entries a caller gets from \<^verbatim>\<open>cdirFirst\<close> and then \<^verbatim>\<open>cdirNext\<close> until that returns false.\<close>

partial_function (option) cdir_rest :: "'r dir_fields read_view \<Rightarrow> (uint256 \<Rightarrow> u64 \<Rightarrow> uint256) \<Rightarrow> uint256
    \<Rightarrow> (bool \<times> 'r cdir_pos) option \<Rightarrow> uint256 list option" where
  "cdir_rest view hash uRootIndex r =
     Option.bind r (\<lambda>(more, c).
       if more then Option.bind (cdir_rest view hash uRootIndex (cdirNext view hash uRootIndex c))
                      (\<lambda>rest. Some (uEntryIndex c # rest))
       else Some [])"

declare cdir_rest.simps [code]

text \<open>The iterator of \<^verbatim>\<open>Dir\<close>: \<open>it_rest\<close> is what is left of the current page from \<^verbatim>\<open>it_\<close> on.\<close>

record 'r dir_iter =
  it_page :: uint256
  it_index :: uint256
  it_sle :: "'r dir_sle option"
  it_rest :: "uint256 list"

definition Dir_end :: "Keylet \<Rightarrow> 'r dir_iter" where
  "Dir_end k = \<lparr>it_page = kl_key k, it_index = 0, it_sle = None, it_rest = []\<rparr>"

definition Dir_begin :: "'r dir_fields read_view \<Rightarrow> Keylet \<Rightarrow> 'r dir_iter" where
  "Dir_begin view k =
     (let it = \<lparr>it_page = kl_key k, it_index = 0, it_sle = None, it_rest = []\<rparr>
      in case rv_read view k of
           None \<Rightarrow> it
         | Some sle \<Rightarrow>
             (let it = it\<lparr>it_sle := Some sle\<rparr>; indexes = sfIndexes (sle_fields sle)
              in if indexes \<noteq> [] then it\<lparr>it_rest := indexes, it_index := hd indexes\<rparr> else it))"

definition Dir_equal :: "'r dir_iter \<Rightarrow> 'r dir_iter \<Rightarrow> bool" where
  "Dir_equal it other \<longleftrightarrow> it_page it = it_page other \<and> it_index it = it_index other"

definition Dir_dereference :: "'r dir_fields read_view \<Rightarrow> 'r dir_iter \<Rightarrow> 'r dir_sle option option" where
  "Dir_dereference view it =
     (if it_index it = 0 then None else Some (rv_read view (keylet_child (it_index it))))"

definition Dir_increment :: "'r dir_fields read_view \<Rightarrow> (uint256 \<Rightarrow> u64 \<Rightarrow> uint256) \<Rightarrow> Keylet \<Rightarrow> 'r dir_iter \<Rightarrow> 'r dir_iter option" where
  "Dir_increment view hash k it =
     (if it_index it = 0 then None
      else if tl (it_rest it) \<noteq> [] then Some (it\<lparr>it_rest := tl (it_rest it), it_index := hd (tl (it_rest it))\<rparr>)
      else (case it_sle it of
              None \<Rightarrow> None
            | Some sle \<Rightarrow>
                (let next = sfIndexNext (sle_fields sle)
                 in if next = 0 then Some (it\<lparr>it_page := kl_key k, it_index := 0\<rparr>)
                    else (let page = keylet_page hash (kl_key k) next
                          in case rv_read view page of
                               None \<Rightarrow> None
                             | Some sle \<Rightarrow>
                                 (let it = it\<lparr>it_page := kl_key page, it_sle := Some sle\<rparr>;
                                      indexes = sfIndexes (sle_fields sle)
                                  in if indexes = [] then Some (it\<lparr>it_index := 0\<rparr>)
                                     else Some (it\<lparr>it_rest := indexes, it_index := hd indexes\<rparr>))))))"

text \<open>The range loop over a directory.\<close>

partial_function (option) Dir_range :: "'r dir_fields read_view \<Rightarrow> (uint256 \<Rightarrow> u64 \<Rightarrow> uint256) \<Rightarrow> Keylet \<Rightarrow> 'r dir_iter
    \<Rightarrow> 'r dir_sle option list option" where
  "Dir_range view hash k it =
     (if Dir_equal it (Dir_end k) then Some []
      else Option.bind (Dir_dereference view it) (\<lambda>x.
        Option.bind (Dir_increment view hash k it) (\<lambda>it'. Option.bind (Dir_range view hash k it') (\<lambda>rest. Some (x # rest)))))"

declare Dir_range.simps [code]

end
