(* ===== verification/Directory_Chain.thy ===== *)
theory Directory_Chain
  imports Directory
begin

text \<open>
  What a directory stands for: the list of its pages, each with its number and its keys, in the order
  of the chain. The chain is a cycle through the first page; its links are two functions on page
  numbers, so that changing a link is a function update.
\<close>

section \<open>Cycles of links\<close>

fun links :: "(u64 \<Rightarrow> u64) \<Rightarrow> (u64 \<Rightarrow> u64) \<Rightarrow> u64 list \<Rightarrow> bool" where
  "links nx pv (a # b # ns) \<longleftrightarrow> nx a = b \<and> pv b = a \<and> links nx pv (b # ns)"
| "links nx pv _ \<longleftrightarrow> True"

lemma links_append: "links nx pv (xs @ a # ys) \<longleftrightarrow> links nx pv (xs @ [a]) \<and> links nx pv (a # ys)"
proof (induction xs)
  case (Cons x xs)
  then show ?case by (cases xs) auto
qed simp

lemma links_pair: "links nx pv (xs @ a # b # ys) \<longleftrightarrow> links nx pv (xs @ [a]) \<and> nx a = b \<and> pv b = a \<and> links nx pv (b # ys)"
  using links_append [of nx pv xs a "b # ys"] by simp

lemma links_cong:
  "(\<And>n. n \<in> set (butlast ns) \<Longrightarrow> nx n = nx' n) \<Longrightarrow> (\<And>n. n \<in> set (tl ns) \<Longrightarrow> pv n = pv' n) \<Longrightarrow>
     links nx pv ns = links nx' pv' ns"
proof (induction nx pv ns rule: links.induct)
  case (1 nx pv a b ns)
  then have "links nx pv (b # ns) = links nx' pv' (b # ns)" by (auto intro!: 1(1) split: if_splits)
  then show ?case using 1(2) [of a] 1(3) [of b] by simp
qed simp_all

lemma links_upd_nx: "a \<notin> set (butlast ns) \<Longrightarrow> links (nx(a := b)) pv ns = links nx pv ns"
  by (rule links_cong) auto

lemma links_upd_pv: "a \<notin> set (tl ns) \<Longrightarrow> links nx (pv(a := b)) ns = links nx pv ns"
  by (rule links_cong) auto

section \<open>The pages of a directory\<close>

type_synonym pages = "(u64 \<times> uint256 list) list"

definition pkey :: "(uint256 \<Rightarrow> u64 \<Rightarrow> uint256) \<Rightarrow> uint256 \<Rightarrow> u64 \<Rightarrow> uint256" where
  "pkey hash r n = kl_key (keylet_page hash r n)"

text \<open>The pages of one directory have keys of their own, which is what the hash is relied on for.\<close>

definition page_keys :: "(uint256 \<Rightarrow> u64 \<Rightarrow> uint256) \<Rightarrow> uint256 \<Rightarrow> bool" where
  "page_keys hash r \<longleftrightarrow> inj (pkey hash r) \<and> (\<forall>n. pkey hash r n \<noteq> 0)"

definition ix :: "(uint256 \<Rightarrow> u64 \<Rightarrow> uint256) \<Rightarrow> uint256 \<Rightarrow> 'r dir_fields contents \<Rightarrow> u64 \<Rightarrow> uint256 list option" where
  "ix hash r M n = map_option (\<lambda>e. sfIndexes (sle_fields e)) (M (pkey hash r n))"

definition nx :: "(uint256 \<Rightarrow> u64 \<Rightarrow> uint256) \<Rightarrow> uint256 \<Rightarrow> 'r dir_fields contents \<Rightarrow> u64 \<Rightarrow> u64" where
  "nx hash r M n = (case M (pkey hash r n) of Some e \<Rightarrow> sfIndexNext (sle_fields e) | None \<Rightarrow> 0)"

definition pv :: "(uint256 \<Rightarrow> u64 \<Rightarrow> uint256) \<Rightarrow> uint256 \<Rightarrow> 'r dir_fields contents \<Rightarrow> u64 \<Rightarrow> u64" where
  "pv hash r M n = (case M (pkey hash r n) of Some e \<Rightarrow> sfIndexPrevious (sle_fields e) | None \<Rightarrow> 0)"

definition page_typed :: "uint256 \<Rightarrow> 'r dir_sle \<Rightarrow> bool" where
  "page_typed r e \<longleftrightarrow> sle_type e = ltDIR_NODE \<and> sfRootIndex (sle_fields e) = r"

definition all_typed :: "(uint256 \<Rightarrow> u64 \<Rightarrow> uint256) \<Rightarrow> uint256 \<Rightarrow> 'r dir_fields contents \<Rightarrow> bool" where
  "all_typed hash r M \<longleftrightarrow> (\<forall>n e. M (pkey hash r n) = Some e \<longrightarrow> page_typed r e)"

text \<open>The page numbers, from the anchor on: they grow along the chain.\<close>

definition page_nos :: "u64 list \<Rightarrow> bool" where
  "page_nos ns \<longleftrightarrow> sorted_wrt (<) ns \<and> (ns \<noteq> [] \<longrightarrow> hd ns = 0) \<and> (\<forall>n \<in> set ns. n < dirNodeMaxPages)"

definition directory :: "(uint256 \<Rightarrow> u64 \<Rightarrow> uint256) \<Rightarrow> uint256 \<Rightarrow> 'r dir_fields contents \<Rightarrow> pages \<Rightarrow> bool" where
  "directory hash r M ps \<longleftrightarrow> page_keys hash r \<and> all_typed hash r M \<and> ix hash r M = map_of ps \<and> page_nos (map fst ps)
     \<and> (ps \<noteq> [] \<longrightarrow> links (nx hash r M) (pv hash r M) (map fst ps @ [0]))"

abbreviation dir_entries :: "pages \<Rightarrow> uint256 list" where
  "dir_entries ps \<equiv> concat (map snd ps)"

section \<open>Changing one page\<close>

named_theorems page_simps

lemma pkey_eq [page_simps]: "page_keys hash r \<Longrightarrow> pkey hash r n = pkey hash r m \<longleftrightarrow> n = m"
  by (auto simp: page_keys_def inj_def)

lemma pkey_0: "pkey hash r 0 = r"
  by (simp add: pkey_def keylet_page_def)

lemma keylet_page_key [page_simps, simp]: "kl_key (keylet_page hash r 0) = r"
  by (simp add: keylet_page_def)

lemma ix_upd [page_simps]:
  "page_keys hash r \<Longrightarrow> ix hash r (M(pkey hash r n \<mapsto> e)) = (ix hash r M)(n \<mapsto> sfIndexes (sle_fields e))"
  "page_keys hash r \<Longrightarrow> ix hash r (M(pkey hash r n := None)) = (ix hash r M)(n := None)"
  by (auto simp: ix_def fun_eq_iff pkey_eq)

lemma nx_upd [page_simps]:
  "page_keys hash r \<Longrightarrow> nx hash r (M(pkey hash r n \<mapsto> e)) = (nx hash r M)(n := sfIndexNext (sle_fields e))"
  "page_keys hash r \<Longrightarrow> nx hash r (M(pkey hash r n := None)) = (nx hash r M)(n := 0)"
  by (auto simp: nx_def fun_eq_iff pkey_eq)

lemma pv_upd [page_simps]:
  "page_keys hash r \<Longrightarrow> pv hash r (M(pkey hash r n \<mapsto> e)) = (pv hash r M)(n := sfIndexPrevious (sle_fields e))"
  "page_keys hash r \<Longrightarrow> pv hash r (M(pkey hash r n := None)) = (pv hash r M)(n := 0)"
  by (auto simp: pv_def fun_eq_iff pkey_eq)

lemma all_typed_upd [page_simps]:
  "page_keys hash r \<Longrightarrow> all_typed hash r M \<Longrightarrow> page_typed r e \<Longrightarrow> all_typed hash r (M(pkey hash r n \<mapsto> e))"
  "page_keys hash r \<Longrightarrow> all_typed hash r M \<Longrightarrow> all_typed hash r (M(pkey hash r n := None))"
  by (auto simp: all_typed_def pkey_eq)

text \<open>The entry of a page, through the three functions.\<close>

lemma page_entry:
  assumes "M (pkey hash r n) = Some e"
  shows "ix hash r M n = Some (sfIndexes (sle_fields e))" and "nx hash r M n = sfIndexNext (sle_fields e)"
    and "pv hash r M n = sfIndexPrevious (sle_fields e)"
  using assms by (simp_all add: ix_def nx_def pv_def)

lemma setters [page_simps]:
  "sle_key (setRootIndex x e) = sle_key e" "sle_type (setRootIndex x e) = sle_type e"
  "sfRootIndex (sle_fields (setRootIndex x e)) = x" "sfIndexes (sle_fields (setRootIndex x e)) = sfIndexes (sle_fields e)"
  "sfIndexNext (sle_fields (setRootIndex x e)) = sfIndexNext (sle_fields e)"
  "sfIndexPrevious (sle_fields (setRootIndex x e)) = sfIndexPrevious (sle_fields e)"
  "sle_key (setIndexes y e) = sle_key e" "sle_type (setIndexes y e) = sle_type e"
  "sfRootIndex (sle_fields (setIndexes y e)) = sfRootIndex (sle_fields e)" "sfIndexes (sle_fields (setIndexes y e)) = y"
  "sfIndexNext (sle_fields (setIndexes y e)) = sfIndexNext (sle_fields e)"
  "sfIndexPrevious (sle_fields (setIndexes y e)) = sfIndexPrevious (sle_fields e)"
  "sle_key (setIndexNext n e) = sle_key e" "sle_type (setIndexNext n e) = sle_type e"
  "sfRootIndex (sle_fields (setIndexNext n e)) = sfRootIndex (sle_fields e)"
  "sfIndexes (sle_fields (setIndexNext n e)) = sfIndexes (sle_fields e)"
  "sfIndexNext (sle_fields (setIndexNext n e)) = n" "sfIndexPrevious (sle_fields (setIndexNext n e)) = sfIndexPrevious (sle_fields e)"
  "sle_key (setIndexPrevious n e) = sle_key e" "sle_type (setIndexPrevious n e) = sle_type e"
  "sfRootIndex (sle_fields (setIndexPrevious n e)) = sfRootIndex (sle_fields e)"
  "sfIndexes (sle_fields (setIndexPrevious n e)) = sfIndexes (sle_fields e)"
  "sfIndexNext (sle_fields (setIndexPrevious n e)) = sfIndexNext (sle_fields e)" "sfIndexPrevious (sle_fields (setIndexPrevious n e)) = n"
  by (simp_all add: setRootIndex_def setIndexes_def setIndexNext_def setIndexPrevious_def)

lemma page_typed_set [page_simps]:
  "page_typed r (setIndexes y e) = page_typed r e" "page_typed r (setIndexNext n e) = page_typed r e"
  "page_typed r (setIndexPrevious n e) = page_typed r e"
  by (simp_all add: page_typed_def page_simps)

section \<open>The abstract operations\<close>

text \<open>The pages after an addition, and the page that got the key.\<close>

definition dir_add :: "bool \<Rightarrow> uint256 \<Rightarrow> pages \<Rightarrow> logic_error + (u64 option \<times> pages)" where
  "dir_add preserveOrder key ps =
     (if ps = [] then Inr (Some 0, [(0, [key])])
      else let (n, xs) = last ps
           in if length xs < dirNodeMaxEntries then
                map_sum id (\<lambda>ys. (Some n, butlast ps @ [(n, ys)])) (place_key preserveOrder key xs)
              else if n + 1 \<ge> dirNodeMaxPages then Inr (None, ps)
              else Inr (Some (n + 1), ps @ [(n + 1, [key])]))"

text \<open>
  The pages after a removal, for the pages before and after the one that loses the key. A page that
  becomes empty goes, and with it a last page after it that was empty; the first page stays unless
  it is alone and may go.
\<close>

definition dir_trim :: "pages \<Rightarrow> pages" where
  "dir_trim ys = (case ys of [(m, [])] \<Rightarrow> [] | _ \<Rightarrow> ys)"

definition dir_remove :: "bool \<Rightarrow> uint256 \<Rightarrow> pages \<Rightarrow> u64 \<times> uint256 list \<Rightarrow> pages \<Rightarrow> pages" where
  "dir_remove keepRoot key xs p ys =
     (let is = remove1 key (snd p)
      in if is \<noteq> [] then xs @ (fst p, is) # ys
         else let qs = (if xs = [] then (fst p, []) # dir_trim ys else xs @ dir_trim ys)
              in if \<not> keepRoot \<and> qs = [(0, [])] then [] else qs)"

lemma dir_entries_trim [simp]: "dir_entries (dir_trim ys) = dir_entries ys"
  by (auto simp: dir_trim_def split: list.split)

end
