(* ===== verification/Directory_Correct.thy ===== *)
theory Directory_Correct
  imports Directory_Chain
begin

text \<open>
  Correctness of the changes of a directory, over any implementation of the interface: each of them
  takes the pages of a directory to the pages of the abstract operation and touches no other entry.
\<close>

section \<open>Pages in a list\<close>

lemma page_nos_distinct: "page_nos ns \<Longrightarrow> distinct ns"
  by (auto simp: page_nos_def strict_sorted_iff)

lemma map_of_mid: "n \<notin> fst ` set xs \<Longrightarrow> map_of (xs @ (n, j) # ys) = (map_of (xs @ (n, i) # ys))(n \<mapsto> j)"
  by (induction xs) (auto simp: fun_eq_iff)

lemma map_of_snoc: "n \<notin> fst ` set xs \<Longrightarrow> map_of (xs @ [(n, j)]) = (map_of xs)(n \<mapsto> j)"
  by (induction xs) (auto simp: fun_eq_iff)

lemma map_of_drop_mid: "distinct (map fst (xs @ (n, i) # ys)) \<Longrightarrow> map_of (xs @ ys) = (map_of (xs @ (n, i) # ys))(n := None)"
  by (induction xs) (auto simp: fun_eq_iff map_of_eq_None_iff image_iff)

lemma directoryD:
  assumes "directory hash r M ps"
  shows "page_keys hash r" and "all_typed hash r M" and "ix hash r M = map_of ps" and "page_nos (map fst ps)" and "distinct (map fst ps)"
    and "ps \<noteq> [] \<Longrightarrow> links (nx hash r M) (pv hash r M) (map fst ps @ [0])"
  using assms page_nos_distinct unfolding directory_def by blast+

lemma all_typedD: "all_typed hash r M \<Longrightarrow> M (pkey hash r n) = Some e \<Longrightarrow> page_typed r e"
  by (simp add: all_typed_def)

lemma directory_page:
  assumes "directory hash r M ps" and "(n, is) \<in> set ps"
  shows "\<exists>e. M (pkey hash r n) = Some e \<and> page_typed r e \<and> sfIndexes (sle_fields e) = is"
proof -
  have "ix hash r M n = Some is"
    using directoryD(3,5) [OF assms(1)] assms(2) by simp
  then show ?thesis using assms(1) by (auto simp: ix_def directory_def all_typed_def)
qed

lemma directory_no_page: "directory hash r M ps \<Longrightarrow> n \<notin> fst ` set ps \<Longrightarrow> M (pkey hash r n) = None"
proof -
  assume d: "directory hash r M ps" and n: "n \<notin> fst ` set ps"
  then have "ix hash r M n = None" by (simp add: directory_def map_of_eq_None_iff)
  then show ?thesis by (simp add: ix_def)
qed

text \<open>The neighbours of a page in the cycle.\<close>

lemma directory_links:
  assumes "directory hash r M (xs @ (n, is) # ys)"
  shows "nx hash r M n = hd (map fst ys @ [0])" and "pv hash r M n = last (0 # map fst (if xs = [] then ys else xs))"
proof -
  let ?l = "links (nx hash r M) (pv hash r M)"
  have l: "?l (map fst xs @ n # map fst ys @ [0])" using assms by (simp add: directory_def)
  then show "nx hash r M n = hd (map fst ys @ [0])"
    by (cases ys) (auto simp: links_pair links_append [of _ _ _ _ "_ # _"])
  show "pv hash r M n = last (0 # map fst (if xs = [] then ys else xs))"
  proof (cases xs rule: rev_cases)
    case Nil
    then have n: "n = 0" using assms by (simp add: directory_def page_nos_def)
    show ?thesis
    proof (cases ys rule: rev_cases)
      case (snoc zs z)
      then show ?thesis using l Nil n links_pair [of _ _ "0 # map fst zs" "fst z" 0 "[]"] by simp
    qed (use l Nil n in simp)
  next
    case (snoc zs z)
    then show ?thesis using l by (simp add: links_pair)
  qed
qed

lemma directory_alone:
  assumes "directory hash r M ((0, is) # ys)"
  shows "hd (map fst ys @ [0]) = 0 \<longleftrightarrow> ys = []" and "last (0 # map fst ys) = 0 \<longleftrightarrow> ys = []"
proof -
  have d: "0 \<notin> set (map fst ys)" using directoryD(5) [OF assms] by simp
  show "hd (map fst ys @ [0]) = 0 \<longleftrightarrow> ys = []" using d by (cases ys) auto
  show "last (0 # map fst ys) = 0 \<longleftrightarrow> ys = []"
  proof (cases "ys = []")
    case False
    then have "last (map fst ys) \<in> set (map fst ys)" by (intro last_in_set) simp
    then have "last (map fst ys) \<noteq> 0" using d by metis
    then show ?thesis using False by simp
  qed simp
qed

lemma hd_last_single:
  assumes "distinct ns" and "0 \<notin> set ns"
  shows "hd (ns @ [0]) = last (0 # ns) \<and> hd (ns @ [0]) \<noteq> (0::u64) \<longleftrightarrow> length ns = 1"
proof (cases ns)
  case (Cons n ms)
  then have n: "n \<notin> set ms" "n \<noteq> 0" using assms by simp_all
  show ?thesis
  proof (cases "ms = []")
    case False
    then have "last ms \<in> set ms" by (rule last_in_set)
    then have "n \<noteq> last ms" using n(1) by metis
    then show ?thesis unfolding Cons using False by simp
  qed (simp add: Cons n(2))
qed simp

lemma directory_single:
  assumes "directory hash r M ((0, is) # ys)"
  shows "hd (map fst ys @ [0]) = last (0 # map fst ys) \<and> hd (map fst ys @ [0]) \<noteq> 0 \<longleftrightarrow> length ys = 1"
proof -
  have "distinct (map fst ys)" "0 \<notin> set (map fst ys)" using directoryD(5) [OF assms] by simp_all
  from hd_last_single [OF this] show ?thesis unfolding length_map .
qed

section \<open>Clients of the interface\<close>

locale dir_client = apply_view A C ok held
  for A :: "('r dir_fields, 's) apply_ops" and C :: "'s \<Rightarrow> 'r dir_fields contents" and ok :: "'s \<Rightarrow> bool"
    and held :: "'s \<Rightarrow> addr \<Rightarrow> uint256 option"
begin

lemma held_get: "ok s \<Longrightarrow> held s p = Some k \<Longrightarrow> C s k = Some e \<Longrightarrow> ap_get A p s = e"
  using get by fastforce

lemma peek_page:
  assumes "ok s" and "C s (pkey hash r n) = Some e" and "page_typed r e"
  shows "\<exists>p s'. ap_peek A (keylet_page hash r n) s = (Some p, s') \<and> ok s' \<and> C s' = C s
    \<and> held s' p = Some (pkey hash r n) \<and> ap_get A p s' = e \<and> (\<forall>q j. held s q = Some j \<longrightarrow> held s' q = Some j)"
proof -
  have "lookup (C s) (keylet_page hash r n) \<noteq> None"
    using assms(2,3) by (simp add: lookup_def pkey_def Keylet_check_def page_typed_def keylet_page_def)
  then obtain p s' where p: "ap_peek A (keylet_page hash r n) s = (Some p, s')" "ok s'" "C s' = C s"
      "held s' p = Some (pkey hash r n)" "\<forall>q j. held s q = Some j \<longrightarrow> held s' q = Some j"
    using peek_some [OF assms(1), of "keylet_page hash r n"] unfolding pkey_def by blast
  then have "ap_get A p s' = e" using held_get [OF p(2,4)] assms(2) by simp
  then show ?thesis using p by blast
qed

lemma peek_no_page:
  assumes "ok s" and "C s (pkey hash r n) = None"
  shows "ap_peek A (keylet_page hash r n) s = (None, s)"
  using peek_none [OF assms(1), of "keylet_page hash r n"] assms(2) by (simp add: lookup_def pkey_def)

lemma modify_held:
  assumes "ok s" and "held s p = Some k" and "C s k = Some e" and "sle_key (f e) = sle_key e"
  shows "\<exists>s'. modify A p f s = Inr s' \<and> ok s' \<and> C s' = (C s)(k \<mapsto> f e) \<and> (\<forall>q j. held s q = Some j \<longrightarrow> held s' q = Some j)"
  using update [OF assms(1,2), of f] held_get [OF assms(1-3)] key [OF assms(1,3)] assms(4) by (simp add: modify_def)

lemma peek_modify:
  assumes ok: "ok s" and e: "C s (pkey hash r n) = Some e" "page_typed r e" and f: "sle_key (f e) = sle_key e"
  shows "\<exists>p s1 s2. ap_peek A (keylet_page hash r n) s = (Some p, s1) \<and> modify A p f s1 = Inr s2 \<and> ok s2
    \<and> C s2 = (C s)(pkey hash r n \<mapsto> f e) \<and> held s2 p = Some (pkey hash r n) \<and> (\<forall>q j. held s q = Some j \<longrightarrow> held s2 q = Some j)"
proof -
  obtain p s1 where s1: "ap_peek A (keylet_page hash r n) s = (Some p, s1)" "ok s1" "C s1 = C s"
      "held s1 p = Some (pkey hash r n)" "\<forall>q j. held s q = Some j \<longrightarrow> held s1 q = Some j"
    using peek_page [OF ok e] by blast
  then show ?thesis using modify_held [OF s1(2,4), of e f] e(1) f by auto
qed

end

text \<open>The callback that describes a new page sets other fields only.\<close>

definition describes :: "('r dir_sle \<Rightarrow> 'r dir_sle) \<Rightarrow> bool" where
  "describes describe \<longleftrightarrow> (\<forall>e. sle_key (describe e) = sle_key e \<and> sle_type (describe e) = sle_type e
     \<and> sfRootIndex (sle_fields (describe e)) = sfRootIndex (sle_fields e)
     \<and> sfIndexes (sle_fields (describe e)) = sfIndexes (sle_fields e)
     \<and> sfIndexNext (sle_fields (describe e)) = sfIndexNext (sle_fields e)
     \<and> sfIndexPrevious (sle_fields (describe e)) = sfIndexPrevious (sle_fields e))"

lemma describes_simps:
  assumes "describes describe"
  shows "sle_key (describe e) = sle_key e" "sle_type (describe e) = sle_type e"
    "sfRootIndex (sle_fields (describe e)) = sfRootIndex (sle_fields e)"
    "sfIndexes (sle_fields (describe e)) = sfIndexes (sle_fields e)"
    "sfIndexNext (sle_fields (describe e)) = sfIndexNext (sle_fields e)"
    "sfIndexPrevious (sle_fields (describe e)) = sfIndexPrevious (sle_fields e)"
  using assms by (simp_all add: describes_def)

lemma new_sle_simps [page_simps]:
  "sle_key (new_sle k blank) = kl_key k" "sle_type (new_sle k blank) = kl_type k"
  "sfRootIndex (sle_fields (new_sle k blank)) = 0" "sfIndexes (sle_fields (new_sle k blank)) = []"
  "sfIndexNext (sle_fields (new_sle k blank)) = 0" "sfIndexPrevious (sle_fields (new_sle k blank)) = 0"
  by (simp_all add: new_sle_def)

section \<open>Changing a link\<close>

lemma upd_next:
  assumes k: "page_keys hash r" and e: "M (pkey hash r a) = Some e"
  shows "ix hash r (M(pkey hash r a \<mapsto> setIndexNext b e)) = ix hash r M"
    and "nx hash r (M(pkey hash r a \<mapsto> setIndexNext b e)) = (nx hash r M)(a := b)"
    and "pv hash r (M(pkey hash r a \<mapsto> setIndexNext b e)) = pv hash r M"
    and "all_typed hash r M \<Longrightarrow> all_typed hash r (M(pkey hash r a \<mapsto> setIndexNext b e))"
  using page_entry [of M hash r a, OF e] all_typed_upd(1) [OF k, of M "setIndexNext b e" a] all_typedD [of hash r M a e] e
  by (simp_all add: ix_upd [OF k] pv_upd [OF k] nx_upd [OF k] setters fun_upd_idem page_typed_set)

lemma upd_previous:
  assumes k: "page_keys hash r" and e: "M (pkey hash r a) = Some e"
  shows "ix hash r (M(pkey hash r a \<mapsto> setIndexPrevious b e)) = ix hash r M"
    and "nx hash r (M(pkey hash r a \<mapsto> setIndexPrevious b e)) = nx hash r M"
    and "pv hash r (M(pkey hash r a \<mapsto> setIndexPrevious b e)) = (pv hash r M)(a := b)"
    and "all_typed hash r M \<Longrightarrow> all_typed hash r (M(pkey hash r a \<mapsto> setIndexPrevious b e))"
  using page_entry [of M hash r a, OF e] all_typed_upd(1) [OF k, of M "setIndexPrevious b e" a] all_typedD [of hash r M a e] e
  by (simp_all add: ix_upd [OF k] pv_upd [OF k] nx_upd [OF k] setters fun_upd_idem page_typed_set)

section \<open>Adding: the pages\<close>

lemma directory_set_indexes:
  assumes d: "directory hash r M (xs @ (n, is) # ys)" and e: "M (pkey hash r n) = Some e"
  shows "directory hash r (M(pkey hash r n \<mapsto> setIndexes js e)) (xs @ (n, js) # ys)"
proof -
  note k = directoryD(1) [OF d] and t = all_typedD [OF directoryD(2) [OF d] e]
  have nos: "page_nos (map fst (xs @ (n, js) # ys))" using directoryD(4) [OF d] by simp
  have "n \<notin> fst ` set xs" using directoryD(5) [OF d] by simp
  note m = map_of_mid [OF this, of js ys "is"]
  have id: "(nx hash r M)(n := sfIndexNext (sle_fields e)) = nx hash r M"
    "(pv hash r M)(n := sfIndexPrevious (sle_fields e)) = pv hash r M"
    using page_entry(2,3) [of M hash r n, OF e] by auto
  show ?thesis
    unfolding directory_def ix_upd(1) [OF k] nx_upd(1) [OF k] pv_upd(1) [OF k] setters id m directoryD(3) [OF d]
    using k all_typed_upd(1) [OF k directoryD(2) [OF d], of "setIndexes js e" n] t nos directoryD(6) [OF d]
    by (simp add: page_typed_set)
qed

lemma page_nos_snoc: "page_nos (ns @ [m]) \<Longrightarrow> m < n \<Longrightarrow> n < dirNodeMaxPages \<Longrightarrow> page_nos (ns @ [m, n])"
  by (cases ns) (auto simp: page_nos_def sorted_wrt_append intro: order.strict_trans)

lemma page_nos_succ:
  assumes "page_nos (ns @ [n])" and "n + 1 < dirNodeMaxPages"
  shows "n < n + 1" and "n + 1 \<noteq> 0" and "n + 1 \<notin> set (ns @ [n])" and "page_nos (ns @ [n, n + 1])"
proof -
  have "n < dirNodeMaxPages" using assms(1) by (simp add: page_nos_def)
  then show l: "n < n + 1" by (simp add: word_less_nat_alt unat_word_ariths)
  then show "n + 1 \<noteq> 0" by unat_arith
  show "page_nos (ns @ [n, n + 1])" using page_nos_snoc [OF assms(1) l assms(2)] .
  then show "n + 1 \<notin> set (ns @ [n])" using page_nos_distinct by fastforce
qed

text \<open>Linking a new page at the end: the previous last page and the anchor point to it.\<close>

lemma links_snoc:
  assumes l: "links N V (ns @ [n, 0])" and nos: "page_nos (ns @ [n])" and m: "m \<notin> set (ns @ [n])"
  shows "links (N(n := m, m := 0)) (V(0 := m, m := n)) (ns @ [n, m, 0])"
proof -
  have d: "distinct (ns @ [n])" "hd (ns @ [n]) = 0" using nos page_nos_distinct [OF nos] by (auto simp: page_nos_def)
  then have "0 \<notin> set (tl (ns @ [n]))" by (cases ns) auto
  moreover have "set (tl (ns @ [n])) \<subseteq> set (ns @ [n])" by (cases ns) auto
  ultimately have "links (N(n := m, m := 0)) (V(0 := m, m := n)) (ns @ [n]) = links N V (ns @ [n])"
    using d(1) m by (intro links_cong) auto
  moreover have "m \<noteq> 0" using m d(2) by (cases ns) auto
  ultimately show ?thesis using l m by (auto simp: links_pair)
qed

lemma directory_add_page:
  assumes d: "directory hash r M (ps @ [(n, is)])" and m: "n + 1 < dirNodeMaxPages"
    and e: "M (pkey hash r n) = Some e" and e0: "(M(pkey hash r n \<mapsto> setIndexNext (n + 1) e)) (pkey hash r 0) = Some e0"
    and new: "page_typed r new" "sfIndexes (sle_fields new) = [key]" "sfIndexNext (sle_fields new) = 0" "sfIndexPrevious (sle_fields new) = n"
  shows "directory hash r (M(pkey hash r n \<mapsto> setIndexNext (n + 1) e, pkey hash r 0 \<mapsto> setIndexPrevious (n + 1) e0,
      pkey hash r (n + 1) \<mapsto> new)) (ps @ [(n, is), (n + 1, [key])])"
    (is "directory _ _ ?M _")
proof -
  note k = directoryD(1) [OF d]
  have nos: "page_nos (map fst ps @ [n])" using directoryD(4) [OF d] by simp
  note s = page_nos_succ [OF nos m]
  have l: "links (nx hash r M) (pv hash r M) (map fst ps @ [n, 0])" using directoryD(6) [OF d] by simp
  let ?M1 = "M(pkey hash r n \<mapsto> setIndexNext (n + 1) e)"
  let ?M2 = "?M1(pkey hash r 0 \<mapsto> setIndexPrevious (n + 1) e0)"
  note M1 = upd_next [of hash r M, OF k e, of "n + 1"] and M2 = upd_previous [of hash r ?M1, OF k e0, of "n + 1"]
  have typed: "all_typed hash r ?M"
    using all_typed_upd(1) [OF k M2(4) new(1)] M1(4) directoryD(2) [OF d] by simp
  have "ix hash r ?M = (ix hash r M)(n + 1 \<mapsto> [key])" "nx hash r ?M = (nx hash r M)(n := n + 1, n + 1 := 0)"
    "pv hash r ?M = (pv hash r M)(0 := n + 1, n + 1 := n)"
    unfolding ix_upd [OF k, of ?M2] pv_upd [OF k, of ?M2] nx_upd [OF k, of ?M2] M2(1-3) M1(1-3) new by (rule refl)+
  moreover have "map_of (ps @ [(n, is), (n + 1, [key])]) = (map_of (ps @ [(n, is)]))(n + 1 \<mapsto> [key])"
    using map_of_snoc [of "n + 1" "ps @ [(n, is)]" "[key]"] s(3) by simp
  ultimately show ?thesis
    using k typed s(4) links_snoc [OF l nos, of "n + 1"] s(3) directoryD(3) [OF d] by (simp add: directory_def)
qed

section \<open>Adding: the operation\<close>

context dir_client
begin

lemma directory_frame: "k \<notin> range (pkey hash r) \<Longrightarrow> (M(pkey hash r n := x)) k = M k"
  by auto

lemma dirAdd_empty:
  assumes ok: "ok s" and d: "directory hash r (C s) []" and ds: "describes describe"
  shows "\<exists>s'. dirAdd A hash blank preserveOrder (keylet_page hash r 0) key describe s = Inr (Some 0, s') \<and> ok s'
    \<and> directory hash r (C s') [(0, [key])] \<and> (\<forall>k. k \<notin> range (pkey hash r) \<longrightarrow> C s' k = C s k)"
proof -
  note k = directoryD(1) [OF d]
  have n: "C s (pkey hash r 0) = None" using directory_no_page [OF d] by simp
  let ?e = "setIndexes [key] (describe (setRootIndex (kl_key (keylet_page hash r 0)) (new_sle (keylet_page hash r 0) blank)))"
  have e: "sle_key ?e = pkey hash r 0" "page_typed r ?e" "sfIndexes (sle_fields ?e) = [key]" "sfIndexNext (sle_fields ?e) = 0"
      "sfIndexPrevious (sle_fields ?e) = 0"
    by (simp_all add: setters describes_simps [OF ds] new_sle_simps pkey_def page_typed_def keylet_page_def)
  have "pkey hash r 0 \<noteq> 0" using k by (simp add: page_keys_def)
  then obtain p s1 s' where s: "ap_make A ?e s = (p, s1)" "ap_insert A p s1 = Inr s'" "ok s'" "C s' = (C s)(pkey hash r 0 \<mapsto> ?e)"
    using insert [OF ok, of ?e] n e(1) by auto
  have "directory hash r (C s') [(0, [key])]"
    unfolding s(4) directory_def
    using k e directoryD(2,3) [OF d] all_typed_upd(1) [OF k]
    by (auto simp: ix_upd [OF k] nx_upd [OF k] pv_upd [OF k] page_nos_def)
  then show ?thesis
    using s peek_no_page [OF ok n] by (auto simp: dirAdd_def)
qed

text \<open>The first page and the last, checked out.\<close>

lemma peek_last:
  assumes ok: "ok s" and d: "directory hash r (C s) (ps @ [(n, is)])"
  shows "\<exists>p0 s1 pn s2. ap_peek A (keylet_page hash r 0) s = (Some p0, s1) \<and> previous_of A p0 s1 = n
    \<and> dir_tail A hash (keylet_page hash r 0) p0 n s1 = (Some pn, s2) \<and> ok s2 \<and> C s2 = C s
    \<and> held s2 p0 = Some (pkey hash r 0) \<and> held s2 pn = Some (pkey hash r n) \<and> indexes_of A pn s2 = is"
proof -
  obtain j js where ps: "ps @ [(n, is)] = (0, j) # js"
    using directoryD(4) [OF d] by (cases "ps @ [(n, is)]") (auto simp: page_nos_def)
  obtain e0 where e0: "C s (pkey hash r 0) = Some e0" "page_typed r e0"
    using directory_page [OF d, of 0 j] ps by auto
  have "last (0 # map fst js) = n" using arg_cong [OF ps, of "\<lambda>l. last (map fst l)"] by simp
  then have pv: "sfIndexPrevious (sle_fields e0) = n"
    using directory_links(2) [of hash r "C s" "[]" 0 j js] d ps page_entry(3) [of "C s" hash r 0, OF e0(1)] by simp
  obtain p0 s1 where s1: "ap_peek A (keylet_page hash r 0) s = (Some p0, s1)" "ok s1" "C s1 = C s"
      "held s1 p0 = Some (pkey hash r 0)" "ap_get A p0 s1 = e0"
    using peek_page [OF ok e0] by blast
  obtain e where e: "C s1 (pkey hash r n) = Some e" "page_typed r e" "sfIndexes (sle_fields e) = is"
    using directory_page [OF d, of n "is"] s1(3) by auto
  show ?thesis
  proof (cases "n = 0")
    case True
    then show ?thesis using s1 pv e e0 by (auto simp: dir_tail_def)
  next
    case False
    obtain pn s2 where "ap_peek A (keylet_page hash r n) s1 = (Some pn, s2)" "ok s2" "C s2 = C s1"
        "held s2 pn = Some (pkey hash r n)" "ap_get A pn s2 = e" "\<forall>q j. held s1 q = Some j \<longrightarrow> held s2 q = Some j"
      using peek_page [OF s1(2) e(1,2)] by blast
    then show ?thesis using False s1 pv e(3) by (auto simp: dir_tail_def)
  qed
qed

lemma dirAdd_link:
  assumes ok: "ok s" and d: "directory hash r (C s) (ps @ [(n, is)])" and ds: "describes describe"
    and p: "held s p0 = Some (pkey hash r 0)" "held s pn = Some (pkey hash r n)" and m: "n + 1 < dirNodeMaxPages"
    and new: "new = (let e = setIndexes [key] (setRootIndex r (new_sle (keylet_page hash r (n + 1)) blank))
                     in describe (if n + 1 \<noteq> 1 then setIndexPrevious (n + 1 - 1) e else e))"
  shows "\<exists>s3 s4 q s5 s'. modify A pn (setIndexNext (n + 1)) s = Inr s3 \<and> modify A p0 (setIndexPrevious (n + 1)) s3 = Inr s4
    \<and> ap_make A new s4 = (q, s5) \<and> ap_insert A q s5 = Inr s' \<and> ok s'
    \<and> directory hash r (C s') (ps @ [(n, is), (n + 1, [key])]) \<and> (\<forall>k. k \<notin> range (pkey hash r) \<longrightarrow> C s' k = C s k)"
proof -
  note k = directoryD(1) [OF d]
  note nos = page_nos_succ [of "map fst ps" n, OF _ m]
  have nos: "n + 1 \<noteq> 0" "n + 1 \<notin> fst ` set (ps @ [(n, is)])" using nos(2,3) directoryD(4) [OF d] by simp_all
  obtain e where e: "C s (pkey hash r n) = Some e" using directory_page [OF d, of n "is"] by auto
  obtain s3 where s3: "modify A pn (setIndexNext (n + 1)) s = Inr s3" "ok s3" "C s3 = (C s)(pkey hash r n \<mapsto> setIndexNext (n + 1) e)"
      "held s3 p0 = Some (pkey hash r 0)"
    using modify_held [OF ok p(2) e, of "setIndexNext (n + 1)"] p(1) by (auto simp: setters)
  obtain e0 where e0: "C s3 (pkey hash r 0) = Some e0" using get [OF s3(2,4)] by blast
  obtain s4 where s4: "modify A p0 (setIndexPrevious (n + 1)) s3 = Inr s4" "ok s4" "C s4 = (C s3)(pkey hash r 0 \<mapsto> setIndexPrevious (n + 1) e0)"
    using modify_held [OF s3(2,4) e0, of "setIndexPrevious (n + 1)"] by (auto simp: setters)
  have e': "sle_key new = pkey hash r (n + 1)" "page_typed r new" "sfIndexes (sle_fields new) = [key]"
      "sfIndexNext (sle_fields new) = 0" "sfIndexPrevious (sle_fields new) = n"
    unfolding new by (auto simp: Let_def setters describes_simps [OF ds] new_sle_simps pkey_def page_typed_def keylet_page_def)
  have "C s4 (pkey hash r (n + 1)) = None"
    using directory_no_page [OF d nos(2)] nos s3(3) s4(3) by (simp add: pkey_eq [OF k])
  moreover have "pkey hash r (n + 1) \<noteq> 0" using k by (simp add: page_keys_def)
  ultimately obtain q s5 s' where s': "ap_make A new s4 = (q, s5)" "ap_insert A q s5 = Inr s'" "ok s'"
      "C s' = (C s4)(pkey hash r (n + 1) \<mapsto> new)"
    using insert [OF s4(2), of new] e'(1) by auto
  have "directory hash r (C s') (ps @ [(n, is), (n + 1, [key])])"
    unfolding s'(4) s4(3) s3(3) by (rule directory_add_page [OF d m e _ e'(2-5)]) (use e0 s3(3) in simp)
  moreover have "C s' j = C s j" if "j \<notin> range (pkey hash r)" for j
    using that s'(4) s4(3) s3(3) by auto
  ultimately show ?thesis using s3(1) s4(1) s'(1-3) by blast
qed

lemma dirAdd_pages:
  assumes ok: "ok s" and d: "directory hash r (C s) (ps @ [(n, is)])" and ds: "describes describe"
  shows "case dir_add preserveOrder key (ps @ [(n, is)]) of
      Inl err \<Rightarrow> dirAdd A hash blank preserveOrder (keylet_page hash r 0) key describe s = Inl err
    | Inr (page, ps') \<Rightarrow> \<exists>s'. dirAdd A hash blank preserveOrder (keylet_page hash r 0) key describe s = Inr (page, s') \<and> ok s'
        \<and> directory hash r (C s') ps' \<and> (\<forall>k. k \<notin> range (pkey hash r) \<longrightarrow> C s' k = C s k)"
proof -
  note k = directoryD(1) [OF d]
  obtain p0 s1 pn s2 where pk: "ap_peek A (keylet_page hash r 0) s = (Some p0, s1)" "previous_of A p0 s1 = n"
      "dir_tail A hash (keylet_page hash r 0) p0 n s1 = (Some pn, s2)" "ok s2" "C s2 = C s"
      "held s2 p0 = Some (pkey hash r 0)" "held s2 pn = Some (pkey hash r n)" "indexes_of A pn s2 = is"
    using peek_last [OF ok d] by blast
  note run = dirAdd_def pk(1-3,8) dir_add_def
  obtain e where e: "C s (pkey hash r n) = Some e" "page_typed r e" "sfIndexes (sle_fields e) = is"
    using directory_page [OF d, of n "is"] by auto
  show ?thesis
  proof (cases "length is < dirNodeMaxEntries")
    case True
    show ?thesis
    proof (cases "place_key preserveOrder key is")
      case (Inl err)
      then show ?thesis using True by (simp add: run)
    next
      case (Inr js)
      obtain s' where s': "modify A pn (setIndexes js) s2 = Inr s'" "ok s'" "C s' = (C s)(pkey hash r n \<mapsto> setIndexes js e)"
        using modify_held [OF pk(4,7), of e "setIndexes js"] e(1) pk(5) by (auto simp: setters)
      have "directory hash r (C s') (ps @ [(n, js)])" using directory_set_indexes [OF d e(1)] s'(3) by simp
      then show ?thesis using True Inr s' by (auto simp: run)
    qed
  next
    case full: False
    show ?thesis
    proof (cases "n + 1 \<ge> dirNodeMaxPages")
      case True
      then show ?thesis using full d pk(4,5) by (simp add: run)
    next
      case False
      have d2: "directory hash r (C s2) (ps @ [(n, is)])" using d pk(5) by simp
      have m: "n + 1 < dirNodeMaxPages" using False by simp
      from dirAdd_link [OF pk(4) d2 ds pk(6,7) m refl, of key blank] full False pk(5)
      show ?thesis by (elim exE conjE) (simp add: run Let_def)
    qed
  qed
qed

end

section \<open>Removing: the pages\<close>

lemma page_nos_drop: "page_nos (us @ n # ns) \<Longrightarrow> us \<noteq> [] \<Longrightarrow> page_nos (us @ ns)"
  by (cases us) (auto simp: page_nos_def sorted_wrt_append)

text \<open>Taking a page out of the cycle: its neighbours point to each other.\<close>

lemma links_unlink:
  assumes l: "links N V (us @ a # n # ns @ [0])" and nos: "page_nos (us @ a # n # ns)" and b: "b = hd (ns @ [0])"
  shows "links (N(a := b, n := 0)) (V(b := a, n := 0)) (us @ a # ns @ [0])"
proof -
  have d: "distinct (us @ a # n # ns)" "hd (us @ [a]) = 0" using nos page_nos_distinct [OF nos] by (cases us; auto simp: page_nos_def)+
  obtain rs where rs: "ns @ [0] = b # rs" using b by (cases ns) auto
  have p: "links N V (us @ [a])" "links N V (b # rs)" using l unfolding rs by (simp_all add: links_pair)
  have z: "0 \<in> set (us @ [a])" using d(2) by (cases us) auto
  have t: "set (tl (us @ [a])) \<subseteq> set (us @ [a]) - {0}" using d by (cases us) auto
  have b': "b = 0 \<or> b \<in> set ns" using rs by (cases ns) auto
  have rs': "set (butlast (b # rs)) = set ns" "b \<notin> set rs" "set rs \<subseteq> set ns \<union> {0}"
    using rs d z by (cases ns; force)+
  have "links (N(a := b, n := 0)) (V(b := a, n := 0)) (us @ [a])"
    by (rule iffD1 [OF links_cong p(1)]) (use d(1) t b' in auto)
  moreover have "links (N(a := b, n := 0)) (V(b := a, n := 0)) (b # rs)"
    by (rule iffD1 [OF links_cong p(2)]) (use d(1) rs' z in auto)
  moreover have "a \<noteq> n" "b \<noteq> n" using d(1) b' z by auto
  ultimately show ?thesis unfolding rs by (simp add: links_pair)
qed

lemma directory_unlink:
  assumes d: "directory hash r M (xs @ (a, is) # (n, js) # ys)" and b: "b = hd (map fst ys @ [0])"
    and M': "all_typed hash r M'" "ix hash r M' = (ix hash r M)(n := None)" "nx hash r M' = (nx hash r M)(a := b, n := 0)"
      "pv hash r M' = (pv hash r M)(b := a, n := 0)"
  shows "directory hash r M' (xs @ (a, is) # ys)"
proof -
  have nos: "page_nos (map fst xs @ a # n # map fst ys)" using directoryD(4) [OF d] by simp
  have "page_nos (map fst xs @ a # map fst ys)"
    using page_nos_drop [of "map fst xs @ [a]" n "map fst ys"] nos by simp
  moreover have "map_of (xs @ (a, is) # ys) = (map_of (xs @ (a, is) # (n, js) # ys))(n := None)"
    using map_of_drop_mid [of "xs @ [(a, is)]" n js ys] directoryD(5) [OF d] by simp
  moreover have "links (nx hash r M') (pv hash r M') (map fst xs @ a # map fst ys @ [0])"
    unfolding M'(3,4) using links_unlink [OF _ nos b] directoryD(6) [OF d] by simp
  ultimately show ?thesis using directoryD(1,3) [OF d] M'(1,2) by (simp add: directory_def)
qed

lemma directory_erase_root:
  assumes d: "directory hash r M [(0, is)]"
  shows "directory hash r (M(pkey hash r 0 := None)) []"
  using directoryD(1-3) [OF d] all_typed_upd(2) [OF directoryD(1,2) [OF d], of 0]
  by (simp add: directory_def ix_upd [OF directoryD(1) [OF d]] page_nos_def)

section \<open>Removing: the operation\<close>

context dir_client
begin

lemma unlink_steps:
  assumes ok: "ok s" and d: "directory hash r (C s) (xs @ (a, is) # (n, js) # ys)" and b: "b = hd (map fst ys @ [0])"
    and p: "held s p = Some (pkey hash r n)"
  shows "\<exists>pa s1 s2 pb s3 s4 s5. ap_peek A (keylet_page hash r a) s = (Some pa, s1)
    \<and> modify A pa (setIndexNext b) s1 = Inr s2 \<and> ap_peek A (keylet_page hash r b) s2 = (Some pb, s3)
    \<and> modify A pb (setIndexPrevious a) s3 = Inr s4 \<and> ap_erase A p s4 = Inr s5 \<and> ok s5
    \<and> directory hash r (C s5) (xs @ (a, is) # ys) \<and> held s5 pa = Some (pkey hash r a) \<and> held s5 pb = Some (pkey hash r b)
    \<and> (\<forall>k. k \<notin> range (pkey hash r) \<longrightarrow> C s5 k = C s k)"
proof -
  note k = directoryD(1) [OF d]
  have nos: "page_nos (map fst xs @ a # n # map fst ys)" using directoryD(4) [OF d] by simp
  then have z: "0 \<in> fst ` set (xs @ [(a, is)])" by (cases xs) (auto simp: page_nos_def)
  have dist: "distinct (map fst (xs @ (a, is) # (n, js) # ys))" using directoryD(5) [OF d] .
  have bz: "b = 0 \<or> b \<in> fst ` set ys" using b by (cases ys) auto
  then have ne: "a \<noteq> n" "b \<noteq> n" using dist z by auto
  obtain e where e: "C s (pkey hash r a) = Some e" "page_typed r e" using directory_page [OF d, of a "is"] by auto
  note u1 = upd_next [of hash r "C s", OF k e(1), of b]
  obtain pa s1 s2 where s2: "ap_peek A (keylet_page hash r a) s = (Some pa, s1)" "modify A pa (setIndexNext b) s1 = Inr s2" "ok s2"
      "C s2 = (C s)(pkey hash r a \<mapsto> setIndexNext b e)" "held s2 pa = Some (pkey hash r a)" "\<forall>q j. held s q = Some j \<longrightarrow> held s2 q = Some j"
    using peek_modify [OF ok e, of "setIndexNext b"] by (auto simp: setters)
  obtain is' where "(b, is') \<in> set (xs @ (a, is) # (n, js) # ys)" using bz z by fastforce
  then obtain eb where "C s (pkey hash r b) = Some eb" using directory_page [OF d] by blast
  then obtain e2 where e2: "C s2 (pkey hash r b) = Some e2" using s2(4) by (cases "a = b") (auto simp: pkey_eq [OF k])
  have t2: "all_typed hash r (C s2)" using u1(4) directoryD(2) [OF d] s2(4) by simp
  note u2 = upd_previous [of hash r "C s2", OF k e2, of a]
  obtain pb s3 s4 where s4: "ap_peek A (keylet_page hash r b) s2 = (Some pb, s3)" "modify A pb (setIndexPrevious a) s3 = Inr s4" "ok s4"
      "C s4 = (C s2)(pkey hash r b \<mapsto> setIndexPrevious a e2)" "held s4 pb = Some (pkey hash r b)" "\<forall>q j. held s2 q = Some j \<longrightarrow> held s4 q = Some j"
    using peek_modify [OF s2(3) e2 all_typedD [OF t2 e2], of "setIndexPrevious a"] by (auto simp: setters)
  have "held s4 p = Some (pkey hash r n)" using p s2(6) s4(6) by blast
  then obtain s5 where s5: "ap_erase A p s4 = Inr s5" "ok s5" "C s5 = (C s4)(pkey hash r n := None)"
      "\<forall>q j. held s4 q = Some j \<longrightarrow> j \<noteq> pkey hash r n \<longrightarrow> held s5 q = Some j"
    using erase [OF s4(3)] by blast
  have h5: "held s5 pa = Some (pkey hash r a)" "held s5 pb = Some (pkey hash r b)"
    using s2(5) s4(5,6) s5(4) ne by (auto simp: pkey_eq [OF k])
  have "all_typed hash r (C s5)" unfolding s5(3) s4(4)
    using u2(4) t2 by (intro all_typed_upd(2) [OF k]) simp
  moreover have "ix hash r (C s5) = (ix hash r (C s))(n := None)" "nx hash r (C s5) = (nx hash r (C s))(a := b, n := 0)"
      "pv hash r (C s5) = (pv hash r (C s))(b := a, n := 0)"
    unfolding s5(3) s4(4) ix_upd(2) [OF k] nx_upd(2) [OF k] pv_upd(2) [OF k] u2(1-3) unfolding s2(4) u1(1-3) by (rule refl)+
  ultimately have "directory hash r (C s5) (xs @ (a, is) # ys)" by (rule directory_unlink [OF d b])
  moreover have "C s5 j = C s j" if "j \<notin> range (pkey hash r)" for j
    using that s5(3) s4(4) s2(4) by auto
  ultimately show ?thesis using s2(1,2) s4(1,2) s5(1,2) h5 by blast
qed

text \<open>An empty last page after the one that was unlinked goes as well.\<close>

lemma trim_steps:
  assumes ok: "ok s" and d: "directory hash r (C s) (xs @ [(a, is), (m, js)])"
    and p: "held s pa = Some (pkey hash r a)" "held s pm = Some (pkey hash r m)"
  shows "\<exists>s1 s2 p0 s3 s4. ap_erase A pm s = Inr s1 \<and> modify A pa (setIndexNext 0) s1 = Inr s2
    \<and> ap_peek A (keylet_page hash r 0) s2 = (Some p0, s3) \<and> modify A p0 (setIndexPrevious a) s3 = Inr s4 \<and> ok s4
    \<and> directory hash r (C s4) (xs @ [(a, is)]) \<and> held s4 pa = Some (pkey hash r a)
    \<and> (\<forall>k. k \<notin> range (pkey hash r) \<longrightarrow> C s4 k = C s k)"
proof -
  note k = directoryD(1) [OF d]
  have dist: "distinct (map fst (xs @ [(a, is), (m, js)]))" using directoryD(5) [OF d] .
  have z: "0 \<in> fst ` set (xs @ [(a, is)])" using directoryD(4) [OF d] by (cases xs) (auto simp: page_nos_def)
  then have ne: "a \<noteq> m" "0 \<noteq> m" using dist by auto
  obtain e where e: "C s (pkey hash r a) = Some e" using directory_page [OF d, of a "is"] by auto
  obtain s1 where s1: "ap_erase A pm s = Inr s1" "ok s1" "C s1 = (C s)(pkey hash r m := None)" "held s1 pa = Some (pkey hash r a)"
    using erase [OF ok p(2)] p(1) ne(1) by (auto simp: pkey_eq [OF k])
  have e1: "C s1 (pkey hash r a) = Some e" using e s1(3) ne(1) by (simp add: pkey_eq [OF k])
  note u1 = upd_next [of hash r "C s1", OF k e1, of 0]
  obtain s2 where s2: "modify A pa (setIndexNext 0) s1 = Inr s2" "ok s2" "C s2 = (C s1)(pkey hash r a \<mapsto> setIndexNext 0 e)"
      "held s2 pa = Some (pkey hash r a)"
    using modify_held [OF s1(2,4) e1, of "setIndexNext 0"] s1(4) by (auto simp: setters)
  obtain is' where "(0, is') \<in> set (xs @ [(a, is), (m, js)])" using z by fastforce
  then obtain e0 where "C s (pkey hash r 0) = Some e0" using directory_page [OF d] by blast
  then obtain e2 where e2: "C s2 (pkey hash r 0) = Some e2"
    using s1(3) s2(3) ne(2) by (cases "a = 0") (auto simp: pkey_eq [OF k])
  have t2: "all_typed hash r (C s2)" unfolding s2(3) using directoryD(2) [OF d] s1(3) by (intro u1(4)) (simp add: all_typed_upd(2) [OF k])
  note u2 = upd_previous [of hash r "C s2", OF k e2, of a]
  obtain p0 s3 s4 where s4: "ap_peek A (keylet_page hash r 0) s2 = (Some p0, s3)" "modify A p0 (setIndexPrevious a) s3 = Inr s4" "ok s4"
      "C s4 = (C s2)(pkey hash r 0 \<mapsto> setIndexPrevious a e2)" "held s4 pa = Some (pkey hash r a)"
    using peek_modify [OF s2(2) e2 all_typedD [OF t2 e2], of "setIndexPrevious a"] s2(4) by (auto simp: setters)
  have "all_typed hash r (C s4)" unfolding s4(4) using u2(4) t2 .
  moreover have "ix hash r (C s4) = (ix hash r (C s))(m := None)" "nx hash r (C s4) = (nx hash r (C s))(a := 0, m := 0)"
      "pv hash r (C s4) = (pv hash r (C s))(0 := a, m := 0)"
    unfolding s4(4) u2(1-3) unfolding s2(3) u1(1-3) unfolding s1(3) ix_upd(2) [OF k] nx_upd(2) [OF k] pv_upd(2) [OF k]
    using ne by (simp_all add: fun_upd_twist)
  ultimately have "directory hash r (C s4) (xs @ [(a, is)])" using directory_unlink [of hash r "C s" xs a "is" m js "[]" 0] d by simp
  moreover have "C s4 j = C s j" if "j \<notin> range (pkey hash r)" for j
    using that s4(4) s2(3) s1(3) by auto
  ultimately show ?thesis using s1(1) s2(1) s4 by blast
qed

text \<open>The same from the first page, when it is the only other one.\<close>

lemma drop_empty_last_spec:
  assumes ok: "ok s" and d: "directory hash r (C s) ((0, is) # ys)" and p: "held s p = Some (pkey hash r 0)"
  shows "\<exists>s'. drop_empty_last A hash (keylet_page hash r 0) p (last (0 # map fst ys)) (hd (map fst ys @ [0])) s
      = Inr (dir_trim ys = [], s') \<and> ok s' \<and> directory hash r (C s') ((0, is) # dir_trim ys)
    \<and> held s' p = Some (pkey hash r 0) \<and> (\<forall>k. k \<notin> range (pkey hash r) \<longrightarrow> C s' k = C s k)"
proof (cases "\<exists>m js. ys = [(m, js)]")
  case False
  then have "length ys \<noteq> 1" by (cases ys) auto
  then have c: "\<not> (hd (map fst ys @ [0]) = last (0 # map fst ys) \<and> hd (map fst ys @ [0]) \<noteq> 0)"
    using directory_single [OF d] by blast
  have trim: "dir_trim ys = ys" using False by (auto simp: dir_trim_def split: list.split)
  have "(hd (map fst ys @ [0]) = 0 \<and> last (0 # map fst ys) = 0) = (dir_trim ys = [])"
    unfolding trim directory_alone [OF d] by (rule conj_absorb)
  then have "drop_empty_last A hash (keylet_page hash r 0) p (last (0 # map fst ys)) (hd (map fst ys @ [0])) s
      = Inr (dir_trim ys = [], s)"
    unfolding drop_empty_last_def if_not_P [OF c] by (rule arg_cong)
  then show ?thesis using ok d p trim by simp
next
  case True
  then obtain m js where ys: "ys = [(m, js)]" by blast
  note k = directoryD(1) [OF d]
  have m: "m \<noteq> 0" using directoryD(5) [OF d] ys by simp
  obtain e where e: "C s (pkey hash r m) = Some e" "page_typed r e" "sfIndexes (sle_fields e) = js"
    using directory_page [OF d, of m js] ys by auto
  obtain pm s1 where s1: "ap_peek A (keylet_page hash r m) s = (Some pm, s1)" "ok s1" "C s1 = C s"
      "held s1 pm = Some (pkey hash r m)" "ap_get A pm s1 = e" "held s1 p = Some (pkey hash r 0)"
    using peek_page [OF ok e(1,2)] p by blast
  show ?thesis
  proof (cases "js = []")
    case False
    then show ?thesis
      using s1 m d e(3) by (auto simp: drop_empty_last_def ys dir_trim_def split: list.split)
  next
    case True
    obtain e0 where e0: "C s1 (pkey hash r 0) = Some e0" using directory_page [OF d, of 0 "is"] s1(3) by auto
    let ?f = "\<lambda>e. setIndexPrevious 0 (setIndexNext 0 e)"
    obtain s2 where s2: "modify A p ?f s1 = Inr s2" "ok s2" "C s2 = (C s1)(pkey hash r 0 \<mapsto> ?f e0)"
        "\<forall>q j. held s1 q = Some j \<longrightarrow> held s2 q = Some j"
      using modify_held [OF s1(2,6) e0, of ?f] by (auto simp: setters)
    obtain s3 where s3: "ap_erase A pm s2 = Inr s3" "ok s3" "C s3 = (C s2)(pkey hash r m := None)" "held s3 p = Some (pkey hash r 0)"
      using erase [OF s2(2), of pm "pkey hash r m"] s2(4) s1(4,6) m by (auto simp: pkey_eq [OF k])
    let ?M1 = "(C s1)(pkey hash r 0 \<mapsto> setIndexNext 0 e0)"
    have M2: "C s2 = ?M1(pkey hash r 0 \<mapsto> ?f e0)" using s2(3) by simp
    have e1: "?M1 (pkey hash r 0) = Some (setIndexNext 0 e0)" by simp
    note u1 = upd_next [of hash r "C s1", OF k e0, of 0] and u2 = upd_previous [of hash r ?M1, OF k e1, of 0]
    have "all_typed hash r ?M1" using u1(4) directoryD(2) [OF d] s1(3) by simp
    then have "all_typed hash r (C s3)" unfolding s3(3) M2 by (intro all_typed_upd(2) [OF k] u2(4))
    moreover have "ix hash r (C s3) = (ix hash r (C s))(m := None)" "nx hash r (C s3) = (nx hash r (C s))(0 := 0, m := 0)"
        "pv hash r (C s3) = (pv hash r (C s))(0 := 0, m := 0)"
      unfolding s3(3) M2 ix_upd(2) [OF k] nx_upd(2) [OF k] pv_upd(2) [OF k] u2(1-3) u1(1-3) by (simp_all add: s1(3))
    ultimately have "directory hash r (C s3) [(0, is)]"
      using directory_unlink [of hash r "C s" "[]" 0 "is" m js "[]" 0] d ys by simp
    moreover have "C s3 j = C s j" if "j \<notin> range (pkey hash r)" for j using that s3(3) s2(3) s1(3) by auto
    ultimately show ?thesis
      using s1 s2(1) s3 m e(3) True by (auto simp: drop_empty_last_def ys dir_trim_def)
  qed
qed

lemma erase_root:
  assumes "ok s" and "directory hash r (C s) [(0, is)]" and "held s p = Some (pkey hash r 0)"
  shows "\<exists>s'. ap_erase A p s = Inr s' \<and> ok s' \<and> directory hash r (C s') [] \<and> (\<forall>k. k \<notin> range (pkey hash r) \<longrightarrow> C s' k = C s k)"
  using erase [OF assms(1,3)] directory_erase_root [OF assms(2)] by fastforce

lemma dirRemove_root_spec:
  assumes ok: "ok s" and d: "directory hash r (C s) ((0, []) # ys)" and p: "held s p = Some (pkey hash r 0)"
  shows "\<exists>s'. dirRemove_root A hash (keylet_page hash r 0) p keepRoot s = Inr (True, s') \<and> ok s'
    \<and> directory hash r (C s') (if \<not> keepRoot \<and> dir_trim ys = [] then [] else (0, []) # dir_trim ys)
    \<and> (\<forall>k. k \<notin> range (pkey hash r) \<longrightarrow> C s' k = C s k)"
proof -
  obtain e where e: "C s (pkey hash r 0) = Some e" using directory_page [OF d, of 0 "[]"] by auto
  have l: "next_of A p s = hd (map fst ys @ [0])" "previous_of A p s = last (0 # map fst ys)"
    using directory_links [of hash r "C s" "[]" 0 "[]" ys] d page_entry(2,3) [of "C s" hash r 0, OF e] held_get [OF ok p e] by simp_all
  have z: "hd (map fst ys @ [0]) = 0 \<longleftrightarrow> last (0 # map fst ys) = 0" using directory_alone [OF d] by simp
  obtain s' where s': "drop_empty_last A hash (keylet_page hash r 0) p (last (0 # map fst ys)) (hd (map fst ys @ [0])) s
      = Inr (dir_trim ys = [], s')" "ok s'" "directory hash r (C s') ((0, []) # dir_trim ys)"
      "held s' p = Some (pkey hash r 0)" "\<forall>k. k \<notin> range (pkey hash r) \<longrightarrow> C s' k = C s k"
    using drop_empty_last_spec [OF ok d p] by blast
  have run: "dirRemove_root A hash (keylet_page hash r 0) p keepRoot s =
      (if keepRoot then Inr (True, s') else if dir_trim ys = [] then map_sum id (\<lambda>s. (True, s)) (ap_erase A p s') else Inr (True, s'))"
    unfolding dirRemove_root_def l Let_def s'(1) using z by (auto split: sum.split)
  show ?thesis
  proof (cases "\<not> keepRoot \<and> dir_trim ys = []")
    case True
    then obtain s2 where "ap_erase A p s' = Inr s2" "ok s2" "directory hash r (C s2) []" "\<forall>k. k \<notin> range (pkey hash r) \<longrightarrow> C s2 k = C s' k"
      using erase_root [OF s'(2) _ s'(4), of "[]"] s'(3) by auto
    then show ?thesis using True run s'(5) by auto
  next
    case False
    then show ?thesis using run s' by auto
  qed
qed

lemma dirRemove_trim_spec:
  assumes ok: "ok s" and d: "directory hash r (C s) (xs @ (a, is) # ys)" and b: "b = hd (map fst ys @ [0])"
    and p: "held s pa = Some (pkey hash r a)" "held s pb = Some (pkey hash r b)"
  shows "\<exists>c s'. dirRemove_trim A hash (keylet_page hash r 0) pa pb a b s = Inr (c, s') \<and> (c = 0 \<longleftrightarrow> dir_trim ys = [])
    \<and> ok s' \<and> directory hash r (C s') (xs @ (a, is) # dir_trim ys) \<and> held s' pa = Some (pkey hash r a)
    \<and> (\<forall>k. k \<notin> range (pkey hash r) \<longrightarrow> C s' k = C s k)"
proof (cases ys)
  case Nil
  then show ?thesis using ok d p b by (auto simp: dirRemove_trim_def dir_trim_def)
next
  case (Cons y zs)
  then obtain js where y: "ys = (b, js) # zs" using b by (cases y) auto
  have "0 \<in> fst ` set (xs @ [(a, is)])" using directoryD(4) [OF d] by (cases xs) (auto simp: page_nos_def)
  then have z: "b \<noteq> 0" "0 \<notin> fst ` set zs" using directoryD(5) [OF d] y by auto
  obtain e where e: "C s (pkey hash r b) = Some e" "sfIndexes (sle_fields e) = js"
    using directory_page [OF d, of b js] y by auto
  have "nx hash r (C s) b = hd (map fst zs @ [0])"
    using directory_links(1) [of hash r "C s" "xs @ [(a, is)]" b js zs] d y by simp
  then have g: "next_of A pb s = hd (map fst zs @ [0])" "indexes_of A pb s = js"
    using held_get [OF ok p(2) e(1)] page_entry(2) [of "C s" hash r b, OF e(1)] e(2) by simp_all
  show ?thesis
  proof (cases "zs = [] \<and> js = []")
    case True
    then have "directory hash r (C s) (xs @ [(a, is), (b, [])])" using d y by simp
    from trim_steps [OF ok this p] show ?thesis
      using True y g z by (elim exE conjE) (simp add: dirRemove_trim_def dir_trim_def)
  next
    case False
    then have "\<not> (next_of A pb s = 0 \<and> indexes_of A pb s = [])" using g z(2) by (cases zs) auto
    moreover have "dir_trim ys = ys" using False y by (auto simp: dir_trim_def split: list.split)
    ultimately show ?thesis using ok d p z y by (auto simp: dirRemove_trim_def)
  qed
qed

lemma dirRemove_page_spec:
  assumes ok: "ok s" and d: "directory hash r (C s) (xs @ (a, is) # (n, []) # ys)" and p: "held s p = Some (pkey hash r n)"
  shows "\<exists>s'. dirRemove_page A hash (keylet_page hash r 0) n p keepRoot s = Inr (True, s') \<and> ok s'
    \<and> directory hash r (C s') (if \<not> keepRoot \<and> xs @ (a, is) # dir_trim ys = [(0, [])] then [] else xs @ (a, is) # dir_trim ys)
    \<and> (\<forall>k. k \<notin> range (pkey hash r) \<longrightarrow> C s' k = C s k)"
proof -
  obtain e where e: "C s (pkey hash r n) = Some e" using directory_page [OF d, of n "[]"] by auto
  define b where b: "b = hd (map fst ys @ [0])"
  have l: "next_of A p s = b" "previous_of A p s = a"
    using directory_links [of hash r "C s" "xs @ [(a, is)]" n "[]" ys] d page_entry(2,3) [of "C s" hash r n, OF e]
      held_get [OF ok p e] b by simp_all
  have z: "0 \<in> fst ` set (xs @ [(a, is)])" using directoryD(4) [OF d] by (cases xs) (auto simp: page_nos_def)
  have "b = 0 \<or> b \<in> fst ` set ys" using b by (cases ys) auto
  then have ne: "a \<noteq> n" "b \<noteq> n" using directoryD(5) [OF d] z by auto
  obtain pa s1 s2 pb s3 s4 s5 where u: "ap_peek A (keylet_page hash r a) s = (Some pa, s1)"
      "modify A pa (setIndexNext b) s1 = Inr s2" "ap_peek A (keylet_page hash r b) s2 = (Some pb, s3)"
      "modify A pb (setIndexPrevious a) s3 = Inr s4" "ap_erase A p s4 = Inr s5" "ok s5"
      "directory hash r (C s5) (xs @ (a, is) # ys)" "held s5 pa = Some (pkey hash r a)" "held s5 pb = Some (pkey hash r b)"
      "\<forall>k. k \<notin> range (pkey hash r) \<longrightarrow> C s5 k = C s k"
    using unlink_steps [OF ok d b p] by blast
  obtain c s6 where t: "dirRemove_trim A hash (keylet_page hash r 0) pa pb a b s5 = Inr (c, s6)" "c = 0 \<longleftrightarrow> dir_trim ys = []"
      "ok s6" "directory hash r (C s6) (xs @ (a, is) # dir_trim ys)" "held s6 pa = Some (pkey hash r a)"
      "\<forall>k. k \<notin> range (pkey hash r) \<longrightarrow> C s6 k = C s5 k"
    using dirRemove_trim_spec [OF u(6,7) b u(8,9)] by blast
  obtain e6 where e6: "C s6 (pkey hash r a) = Some e6" "sfIndexes (sle_fields e6) = is"
    using directory_page [OF t(4), of a "is"] by auto
  have "a = 0 \<longleftrightarrow> xs = []" using directoryD(4,5) [OF t(4)] by (cases xs) (auto simp: page_nos_def)
  then have alone: "c = 0 \<and> a = 0 \<and> indexes_of A pa s6 = [] \<longleftrightarrow> xs @ (a, is) # dir_trim ys = [(0, [])]"
    using t(2) held_get [OF t(3,5) e6(1)] e6(2) by (cases xs) auto
  have run: "dirRemove_page A hash (keylet_page hash r 0) n p keepRoot s =
      (if \<not> keepRoot \<and> c = 0 \<and> a = 0 \<and> indexes_of A pa s6 = []
       then map_sum id (\<lambda>s. (True, s)) (ap_erase A pa s6) else Inr (True, s6))"
    by (simp add: dirRemove_page_def l Let_def ne u t(1) split: sum.split)
  show ?thesis
  proof (cases "\<not> keepRoot \<and> xs @ (a, is) # dir_trim ys = [(0, [])]")
    case True
    then have "a = 0" "is = []" by (cases xs; simp)+
    then obtain s7 where "ap_erase A pa s6 = Inr s7" "ok s7" "directory hash r (C s7) []"
        "\<forall>k. k \<notin> range (pkey hash r) \<longrightarrow> C s7 k = C s6 k"
      using erase_root [OF t(3), of hash r "is" pa] t(4,5) True by auto
    then show ?thesis using True run alone t(6) u(10) by auto
  next
    case False
    then show ?thesis using run alone t u(10) by auto
  qed
qed

lemma dirRemove_found:
  assumes ok: "ok s" and d: "directory hash r (C s) (xs @ (n, is) # ys)" and key: "key \<in> set is"
  shows "\<exists>s'. dirRemove A hash (keylet_page hash r 0) n key keepRoot s = Inr (True, s') \<and> ok s'
    \<and> directory hash r (C s') (dir_remove keepRoot key xs (n, is) ys) \<and> (\<forall>k. k \<notin> range (pkey hash r) \<longrightarrow> C s' k = C s k)"
proof -
  obtain e where e: "C s (pkey hash r n) = Some e" "page_typed r e" "sfIndexes (sle_fields e) = is"
    using directory_page [OF d, of n "is"] by auto
  obtain p s1 where s1: "ap_peek A (keylet_page hash r n) s = (Some p, s1)" "ok s1" "C s1 = C s"
      "held s1 p = Some (pkey hash r n)" "ap_get A p s1 = e"
    using peek_page [OF ok e(1,2)] by blast
  let ?js = "remove1 key is"
  obtain s2 where s2: "modify A p (setIndexes ?js) s1 = Inr s2" "ok s2" "C s2 = (C s)(pkey hash r n \<mapsto> setIndexes ?js e)"
      "held s2 p = Some (pkey hash r n)"
    using modify_held [OF s1(2,4), of e "setIndexes ?js"] s1(3,4) e(1) by (auto simp: setters)
  have d2: "directory hash r (C s2) (xs @ (n, ?js) # ys)" using directory_set_indexes [OF d e(1)] s2(3) by simp
  have f: "C s2 k = C s k" if "k \<notin> range (pkey hash r)" for k using that s2(3) by auto
  have z: "n = 0 \<longleftrightarrow> xs = []" using directoryD(4,5) [OF d] by (cases xs) (auto simp: page_nos_def)
  have run: "dirRemove A hash (keylet_page hash r 0) n key keepRoot s =
      (if ?js \<noteq> [] then Inr (True, s2) else if n = 0 then dirRemove_root A hash (keylet_page hash r 0) p keepRoot s2
       else dirRemove_page A hash (keylet_page hash r 0) n p keepRoot s2)"
    using key by (simp add: dirRemove_def s1 s2(1) e(3) Let_def)
  show ?thesis
  proof (cases "?js = []")
    case False
    then show ?thesis using run s2(2) d2 f by (simp add: dir_remove_def)
  next
    case js: True
    show ?thesis
    proof (cases xs rule: rev_cases)
      case Nil
      then show ?thesis
        using dirRemove_root_spec [OF s2(2), of hash r ys p keepRoot] d2 z js s2(4) run f by (auto simp: dir_remove_def)
    next
      case (snoc us u)
      obtain a as where u: "u = (a, as)" by fastforce
      show ?thesis
        using dirRemove_page_spec [OF s2(2), of hash r us a as n ys p keepRoot] d2 z js s2(4) run f snoc u
        by (auto simp: dir_remove_def Let_def)
    qed
  qed
qed

lemma dirRemove_missing:
  assumes ok: "ok s" and d: "directory hash r (C s) ps" and key: "\<forall>is. (n, is) \<in> set ps \<longrightarrow> key \<notin> set is"
  shows "\<exists>s'. dirRemove A hash (keylet_page hash r 0) n key keepRoot s = Inr (False, s') \<and> ok s' \<and> C s' = C s"
proof (cases "n \<in> fst ` set ps")
  case False
  then show ?thesis using directory_no_page [OF d] peek_no_page [OF ok] ok by (auto simp: dirRemove_def)
next
  case True
  then obtain js where n: "(n, js) \<in> set ps" by auto
  then obtain e where e: "C s (pkey hash r n) = Some e" "page_typed r e" "sfIndexes (sle_fields e) = js"
    using directory_page [OF d] by auto
  then show ?thesis using peek_page [OF ok e(1,2)] key n by (fastforce simp: dirRemove_def)
qed

text \<open>
  Deleting a directory. It answers true without deleting anything when the first page is empty and
  there are two or more other pages.
\<close>

lemma emptyDirDelete_spec:
  assumes ok: "ok s" and d: "directory hash r (C s) ((0, is) # ys)"
  shows "\<exists>s'. emptyDirDelete A hash (keylet_page hash r 0) s = Inr (is = [] \<and> (length ys = 1 \<longrightarrow> dir_trim ys = []), s') \<and> ok s'
    \<and> directory hash r (C s') (if is = [] \<and> dir_trim ys = [] then [] else (0, is) # ys)
    \<and> (\<forall>k. k \<notin> range (pkey hash r) \<longrightarrow> C s' k = C s k)"
proof -
  obtain e where e: "C s (pkey hash r 0) = Some e" "page_typed r e" "sfIndexes (sle_fields e) = is"
    using directory_page [OF d, of 0 "is"] by auto
  obtain p s1 where s1: "ap_peek A (keylet_page hash r 0) s = (Some p, s1)" "ok s1" "C s1 = C s"
      "held s1 p = Some (pkey hash r 0)" "ap_get A p s1 = e"
    using peek_page [OF ok e(1,2)] by blast
  have l: "sfIndexNext (sle_fields e) = hd (map fst ys @ [0])" "sfIndexPrevious (sle_fields e) = last (0 # map fst ys)"
    using directory_links [of hash r "C s" "[]" 0 "is" ys] d page_entry(2,3) [of "C s" hash r 0, OF e(1)] by simp_all
  have t: "kl_type (keylet_page hash r 0) = ltDIR_NODE" by (simp add: keylet_page_def)
  show ?thesis
  proof (cases "is = []")
    case False
    then show ?thesis using s1 e d t by (auto simp: emptyDirDelete_def)
  next
    case True
    obtain s2 where s2: "drop_empty_last A hash (keylet_page hash r 0) p (last (0 # map fst ys)) (hd (map fst ys @ [0])) s1
        = Inr (dir_trim ys = [], s2)" "ok s2" "directory hash r (C s2) ((0, is) # dir_trim ys)"
        "held s2 p = Some (pkey hash r 0)" "\<forall>k. k \<notin> range (pkey hash r) \<longrightarrow> C s2 k = C s k"
      using drop_empty_last_spec [OF s1(2), of hash r "is" ys p] d s1(3,4) by auto
    have run: "emptyDirDelete A hash (keylet_page hash r 0) s =
        (if length ys = 1 \<and> dir_trim ys \<noteq> [] then Inr (False, s2)
         else if dir_trim ys = [] then map_sum id (\<lambda>s. (True, s)) (ap_erase A p s2) else Inr (True, s2))"
      using True e t l s2(1) directory_alone [OF d] directory_single [OF d]
      by (simp add: emptyDirDelete_def s1(1,5) page_typed_def split: sum.split)
    show ?thesis
    proof (cases "dir_trim ys = []")
      case alone: True
      then obtain s3 where "ap_erase A p s2 = Inr s3" "ok s3" "directory hash r (C s3) []"
          "\<forall>k. k \<notin> range (pkey hash r) \<longrightarrow> C s3 k = C s2 k"
        using erase_root [OF s2(2) _ s2(4), of "is"] s2(3) by auto
      then show ?thesis using run alone True s2(5) by auto
    next
      case False
      then have "dir_trim ys = ys" by (auto simp: dir_trim_def split: list.splits)
      then show ?thesis using run False True s2 by auto
    qed
  qed
qed

end

section \<open>Directories of a sandbox\<close>

interpretation dirs: dir_client "ApplyViewBase_ops Ledger_view" "avb_contents ledger_contents" "avb_ok ledger_contents ledger_ok" avb_held
  by (rule dir_client.intro) (rule led.ApplyViewBase_apply_view)

end
