(* ===== verification/Directory_Traverse.thy ===== *)
theory Directory_Traverse
  imports Directory_Correct
begin

text \<open>
  The traversals of a directory, over any view: the loop of \<^verbatim>\<open>forEachItem\<close> and the calls of \<^verbatim>\<open>cdirFirst\<close> and
  \<^verbatim>\<open>cdirNext\<close> visit the entries of all the pages in order; the iterator of \<^verbatim>\<open>Dir\<close> does when no page is
  empty.
\<close>

lemma page_number_zero:
  assumes "directory hash r M (xs @ (n, is) # (m, js) # ys)"
  shows "m \<noteq> 0"
  using directoryD(4,5) [OF assms] by (cases xs) (auto simp: page_nos_def)

locale dir_reader = entry_view view C ok
  for view :: "'s \<Rightarrow> 'r dir_fields read_view" and C :: "'s \<Rightarrow> 'r dir_fields contents" and ok :: "'s \<Rightarrow> bool"
begin

lemma read_page:
  assumes "ok s" and "directory hash r (C s) (xs @ (n, is) # ys)"
  shows "\<exists>e. rv_read (view s) (keylet_page hash r n) = Some e \<and> sfIndexes (sle_fields e) = is
    \<and> sfIndexNext (sle_fields e) = hd (map fst ys @ [0])"
proof -
  obtain e where e: "C s (pkey hash r n) = Some e" "page_typed r e" "sfIndexes (sle_fields e) = is"
    using directory_page [OF assms(2), of n "is"] by auto
  then have "lookup (C s) (keylet_page hash r n) = Some e"
    by (simp add: lookup_def pkey_def Keylet_check_def page_typed_def keylet_page_def split: if_splits)
  then show ?thesis
    using read [OF assms(1)] e(3) page_entry(2) [of "C s" hash r n, OF e(1)] directory_links(1) [OF assms(2)] by simp
qed

lemma read_no_directory:
  assumes "ok s" and "directory hash r (C s) []"
  shows "rv_read (view s) (keylet_page hash r n) = None"
  using directory_no_page [OF assms(2), of n] read [OF assms(1)] by (simp add: lookup_def pkey_def)

lemma forEachItem_from_spec:
  assumes "ok s"
  shows "directory hash r (C s) (xs @ (n, is) # ys) \<Longrightarrow>
    forEachItem_from (view s) hash r (keylet_page hash r n) = Some (map (\<lambda>key. lookup (C s) (keylet_child key)) (is @ dir_entries ys))"
proof (induction ys arbitrary: xs n "is")
  case Nil
  then show ?case
    using read_page [OF assms Nil] read [OF assms] by (subst forEachItem_from.simps) (auto simp: Let_def)
next
  case (Cons y ys)
  obtain m js where y: "y = (m, js)" by fastforce
  have "m \<noteq> 0" using page_number_zero Cons(2) y by blast
  moreover have "directory hash r (C s) ((xs @ [(n, is)]) @ (m, js) # ys)" using Cons(2) y by simp
  note Cons(1) [OF this]
  ultimately show ?case
    using read_page [OF assms Cons(2)] read [OF assms] y by (subst forEachItem_from.simps) (auto simp: Let_def)
qed

lemma forEachItem_spec:
  assumes "ok s" and "directory hash r (C s) ps"
  shows "forEachItem (view s) hash r = Some (map (\<lambda>key. lookup (C s) (keylet_child key)) (dir_entries ps))"
proof (cases ps)
  case Nil
  then have "directory hash r (C s) []" using assms(2) by simp
  then show ?thesis
    using read_no_directory [OF assms(1), of hash r 0] Nil
    by (simp add: forEachItem_def) (subst forEachItem_from.simps, simp)
next
  case (Cons p qs)
  obtain n js where p: "p = (n, js)" by fastforce
  then have "n = 0" using directoryD(4) [OF assms(2)] Cons by (simp add: page_nos_def)
  then show ?thesis
    using forEachItem_from_spec [OF assms(1), of hash r "[]" 0 js qs] assms(2) Cons p by (simp add: forEachItem_def)
qed

lemma cdir_rest_page:
  assumes "sfIndexes (sle_fields e) = is"
    and rest: "\<And>x. cdir_rest v hash r (cdirNext v hash r \<lparr>sleNode = e, uDirEntry = length is, uEntryIndex = x\<rparr>) = Some rest"
  shows "i \<le> length is \<Longrightarrow>
    cdir_rest v hash r (cdirNext v hash r \<lparr>sleNode = e, uDirEntry = i, uEntryIndex = x\<rparr>) = Some (drop i is @ rest)"
proof (induction "length is - i" arbitrary: i x)
  case 0
  then have "i = length is" by simp
  then show ?case using rest by simp
next
  case (Suc d)
  then have i: "i < length is" by simp
  have "cdirNext v hash r \<lparr>sleNode = e, uDirEntry = i, uEntryIndex = x\<rparr>
      = Some (True, \<lparr>sleNode = e, uDirEntry = i + 1, uEntryIndex = is ! i\<rparr>)"
    using i assms(1) by (subst cdirNext.simps) simp
  then show ?case
    using Suc(1) [of "i + 1" "is ! i"] Suc(2) i by (subst cdir_rest.simps) (simp add: Cons_nth_drop_Suc)
qed

lemma cdir_rest_spec:
  assumes "ok s"
  shows "directory hash r (C s) (xs @ (n, is) # ys) \<Longrightarrow> rv_read (view s) (keylet_page hash r n) = Some e \<Longrightarrow>
    cdir_rest (view s) hash r (cdirNext (view s) hash r \<lparr>sleNode = e, uDirEntry = 0, uEntryIndex = x\<rparr>) = Some (is @ dir_entries ys)"
proof (induction ys arbitrary: xs n "is" e x)
  case Nil
  then have e: "sfIndexes (sle_fields e) = is" "sfIndexNext (sle_fields e) = 0" using read_page [OF assms Nil(1)] by auto
  show ?case
    using cdir_rest_page [of e "is" "view s" hash r "[]" 0, OF e(1)] e
    by (simp add: cdirNext.simps [of _ _ _ "\<lparr>sleNode = e, uDirEntry = length is, uEntryIndex = _\<rparr>"] cdir_rest.simps)
next
  case (Cons y ys)
  obtain m js where y: "y = (m, js)" by fastforce
  have e: "sfIndexes (sle_fields e) = is" "sfIndexNext (sle_fields e) = m" using read_page [OF assms Cons(2)] Cons(3) y by auto
  have d: "directory hash r (C s) ((xs @ [(n, is)]) @ (m, js) # ys)" using Cons(2) y by simp
  obtain e' where e': "rv_read (view s) (keylet_page hash r m) = Some e'" using read_page [OF assms d] by blast
  have "m \<noteq> 0" using page_number_zero Cons(2) y by blast
  then have "cdirNext (view s) hash r \<lparr>sleNode = e, uDirEntry = length is, uEntryIndex = x\<rparr>
      = cdirNext (view s) hash r \<lparr>sleNode = e', uDirEntry = 0, uEntryIndex = x\<rparr>" for x
    using e e' by (subst cdirNext.simps) simp
  then show ?case
    using cdir_rest_page [of e "is" "view s" hash r "js @ dir_entries ys" 0, OF e(1)] Cons(1) [OF d e'] y by simp
qed

lemma cdir_spec:
  assumes "ok s" and "directory hash r (C s) ps" and "ps \<noteq> []"
  shows "cdir_rest (view s) hash r (cdirFirst (view s) hash r x) = Some (dir_entries ps)"
proof -
  obtain js qs where ps: "ps = (0, js) # qs" using assms(3) directoryD(4) [OF assms(2)] by (cases ps) (auto simp: page_nos_def)
  then obtain e where "rv_read (view s) (keylet_page hash r 0) = Some e"
    using read_page [OF assms(1), of hash r "[]" 0 js qs] assms(2) by auto
  then show ?thesis using cdir_rest_spec [OF assms(1), of hash r "[]" 0 js qs e x] assms(2) ps by (simp add: cdirFirst_def)
qed

lemma Dir_range_step:
  assumes "ok s" and "j \<noteq> 0"
  shows "Dir_range (view s) hash k \<lparr>it_page = q, it_index = j, it_sle = sle, it_rest = rest\<rparr> =
    Option.bind (Dir_increment (view s) hash k \<lparr>it_page = q, it_index = j, it_sle = sle, it_rest = rest\<rparr>)
      (\<lambda>it. Option.bind (Dir_range (view s) hash k it) (\<lambda>xs. Some (lookup (C s) (keylet_child j) # xs)))"
  using assms(2) read [OF assms(1)]
  by (subst Dir_range.simps) (simp add: Dir_equal_def Dir_end_def Dir_dereference_def)

lemma Dir_range_spec:
  assumes ok: "ok s" and k: "k = keylet_page hash r 0"
  shows "directory hash r (C s) (xs @ (n, is) # ys) \<Longrightarrow> \<forall>p \<in> set ys. snd p \<noteq> [] \<Longrightarrow> 0 \<notin> set (rest @ dir_entries ys) \<Longrightarrow> rest \<noteq> []
    \<Longrightarrow> rv_read (view s) (keylet_page hash r n) = Some e \<Longrightarrow>
    Dir_range (view s) hash k \<lparr>it_page = q, it_index = hd rest, it_sle = Some e, it_rest = rest\<rparr>
      = Some (map (\<lambda>key. lookup (C s) (keylet_child key)) (rest @ dir_entries ys))"
proof (induction "length (rest @ dir_entries ys)" arbitrary: xs n "is" ys rest e q rule: less_induct)
  case less
  obtain j rest' where rest: "rest = j # rest'" using less(5) by (cases rest) auto
  have j: "j \<noteq> 0" using less(4) rest by auto
  have e: "sfIndexNext (sle_fields e) = hd (map fst ys @ [0])" using read_page [OF ok less(2)] less(6) by auto
  note step = Dir_range_step [OF ok j, of hash k q "Some e" rest]
  show ?case
  proof (cases "rest' = []")
    case False
    have "Dir_range (view s) hash k \<lparr>it_page = q, it_index = hd rest', it_sle = Some e, it_rest = rest'\<rparr>
        = Some (map (\<lambda>key. lookup (C s) (keylet_child key)) (rest' @ dir_entries ys))"
      by (rule less(1) [OF _ less(2,3) _ False less(6)]) (use less(4) rest in auto)
    then show ?thesis using step j False by (simp add: rest Dir_increment_def)
  next
    case last: True
    show ?thesis
    proof (cases ys)
      case Nil
      have "Dir_range (view s) hash k \<lparr>it_page = kl_key k, it_index = 0, it_sle = Some e, it_rest = rest\<rparr> = Some []"
        by (subst Dir_range.simps) (simp add: Dir_equal_def Dir_end_def)
      then show ?thesis using step j last e Nil by (simp add: rest Dir_increment_def)
    next
      case (Cons y zs)
      obtain m js where y: "y = (m, js)" by fastforce
      have d: "directory hash r (C s) ((xs @ [(n, is)]) @ (m, js) # zs)" using less(2) Cons y by simp
      have m: "m \<noteq> 0" using page_number_zero less(2) Cons y by blast
      have js: "js \<noteq> []" using less(3) Cons y by simp
      obtain e' where e': "rv_read (view s) (keylet_page hash r m) = Some e'" "sfIndexes (sle_fields e') = js"
        using read_page [OF ok d] by blast
      have "Dir_range (view s) hash k \<lparr>it_page = kl_key (keylet_page hash r m), it_index = hd js, it_sle = Some e', it_rest = js\<rparr>
          = Some (map (\<lambda>key. lookup (C s) (keylet_child key)) (js @ dir_entries zs))"
        by (rule less(1) [OF _ d _ _ js e'(1)]) (use less(3,4) rest Cons y in auto)
      then show ?thesis using step j last e m js e' Cons y by (simp add: rest Dir_increment_def k)
    qed
  qed
qed

lemma Dir_spec:
  assumes ok: "ok s" and d: "directory hash r (C s) ps" and ne: "\<forall>p \<in> set ps. snd p \<noteq> []" and z: "0 \<notin> set (dir_entries ps)"
  shows "Dir_range (view s) hash (keylet_page hash r 0) (Dir_begin (view s) (keylet_page hash r 0))
    = Some (map (\<lambda>key. lookup (C s) (keylet_child key)) (dir_entries ps))"
proof (cases ps)
  case Nil
  then have "rv_read (view s) (keylet_page hash r 0) = None" using read_no_directory [OF ok] d by simp
  then show ?thesis using Nil by (subst Dir_range.simps) (simp add: Dir_begin_def Dir_equal_def Dir_end_def)
next
  case (Cons p qs)
  then obtain js where p: "p = (0, js)" using directoryD(4) [OF d] by (cases p) (auto simp: page_nos_def)
  have d': "directory hash r (C s) ([] @ (0, js) # qs)" using d Cons p by simp
  obtain e where e: "rv_read (view s) (keylet_page hash r 0) = Some e" "sfIndexes (sle_fields e) = js"
    using read_page [OF ok d'] by blast
  have "Dir_begin (view s) (keylet_page hash r 0) = \<lparr>it_page = r, it_index = hd js, it_sle = Some e, it_rest = js\<rparr>"
    using e ne Cons p by (simp add: Dir_begin_def Let_def)
  then show ?thesis
    using Dir_range_spec [OF ok refl d', of js e r] e ne z Cons p by simp
qed

lemma Dir_empty_first_page:
  assumes ok: "ok s" and d: "directory hash r (C s) ((0, []) # qs)"
  shows "Dir_range (view s) hash (keylet_page hash r 0) (Dir_begin (view s) (keylet_page hash r 0)) = Some []"
proof -
  obtain e where "rv_read (view s) (keylet_page hash r 0) = Some e" "sfIndexes (sle_fields e) = []"
    using read_page [OF ok, of hash r "[]" 0 "[]" qs] d by auto
  then show ?thesis by (subst Dir_range.simps) (simp add: Dir_begin_def Dir_equal_def Dir_end_def Let_def)
qed

lemma dirIsEmpty_spec:
  assumes ok: "ok s" and d: "directory hash r (C s) ps"
  shows "dirIsEmpty (view s) (keylet_page hash r 0) \<longleftrightarrow> ps = [] \<or> ps = [(0, [])]"
proof (cases ps)
  case Nil
  then show ?thesis using read_no_directory [OF ok] d by (simp add: dirIsEmpty_def)
next
  case (Cons p qs)
  then obtain js where p: "p = (0, js)" using directoryD(4) [OF d] by (cases p) (auto simp: page_nos_def)
  have d': "directory hash r (C s) ((0, js) # qs)" using d Cons p by simp
  obtain e where e: "rv_read (view s) (keylet_page hash r 0) = Some e" "sfIndexes (sle_fields e) = js"
      "sfIndexNext (sle_fields e) = hd (map fst qs @ [0])"
    using read_page [OF ok, of hash r "[]" 0 js qs] d' by auto
  then show ?thesis unfolding dirIsEmpty_def Cons p using directory_alone(1) [OF d'] by simp
qed

end

interpretation dir_avb: dir_reader "ApplyViewBase_view Ledger_view" "avb_contents ledger_contents" "avb_wf ledger_contents ledger_ok"
  by (rule dir_reader.intro) (rule led.ApplyViewBase_entry_view)

end
