(* ===== verification/OpenView_Properties.thy ===== *)
theory OpenView_Properties
  imports OpenView
begin

text \<open>The properties of stacked views, from the closed ledger up.\<close>

section \<open>Transactions\<close>

lemma smap_find_Cons_ok: "smap_ok ((k, v) # m) \<Longrightarrow> smap_find m k = None"
  by (auto simp: map_of_eq_None_iff)

text \<open>Inserting the transactions of a view into a closed ledger that has none of them.\<close>

lemma txs_apply_ledger:
  assumes "smap_ok txs" and "\<forall>(k, txn, meta) \<in> set txs. meta \<noteq> None \<and> smap_find (txMap led) k = None"
  shows "\<exists>led'. txs_apply Ledger_rawTxInsert txs led = Inr led' \<and> stateMap led' = stateMap led \<and> led_info led' = led_info led
    \<and> (\<forall>k. smap_find (txMap led') k =
         (case smap_find txs k of Some (txn, meta) \<Rightarrow> Some (txn, the meta) | None \<Rightarrow> smap_find (txMap led) k))"
  using assms
proof (induction txs arbitrary: led)
  case (Cons e it)
  obtain k txn meta where e: "e = (k, txn, Some meta)" using Cons.prems(2) by (cases e) auto
  let ?led = "led\<lparr>txMap := smap_put k (txn, meta) (txMap led)\<rparr>"
  have n: "smap_find it k = None" using Cons.prems(1) unfolding e by (rule smap_find_Cons_ok)
  have ne: "j \<noteq> k" if "(j, x) \<in> set it" for j x using n that by (force simp: map_of_eq_None_iff)
  have "\<forall>(k, txn, meta) \<in> set it. meta \<noteq> None \<and> smap_find (txMap ?led) k = None"
    using Cons.prems(2) ne by (fastforce simp: smap_find_put)
  then obtain led' where l: "txs_apply Ledger_rawTxInsert it ?led = Inr led'" "stateMap led' = stateMap led" "led_info led' = led_info led"
      "\<forall>j. smap_find (txMap led') j = (case smap_find it j of Some (txn, meta) \<Rightarrow> Some (txn, the meta) | None \<Rightarrow> smap_find (txMap ?led) j)"
    using Cons.IH [of ?led] Cons.prems(1) e by auto
  have "txs_apply Ledger_rawTxInsert (e # it) led = Inr led'"
    using Cons.prems(2) e l(1) by (simp add: Ledger_rawTxInsert_def)
  moreover have "smap_find (txMap led') j =
      (case smap_find (e # it) j of Some (txn, meta) \<Rightarrow> Some (txn, the meta) | None \<Rightarrow> smap_find (txMap led) j)" for j
    using l(4) n e by (auto simp: smap_find_put split: option.split)
  ultimately show ?case using l(2,3) by blast
qed simp

text \<open>And into another view that has none of them.\<close>

lemma txs_apply_view:
  assumes "smap_ok txs" and "\<forall>(k, x) \<in> set txs. smap_find (ov_txs ov) k = None"
  shows "\<exists>ov'. txs_apply OpenView_rawTxInsert txs ov = Inr ov' \<and> ov_items ov' = ov_items ov \<and> ov_base ov' = ov_base ov
    \<and> (\<forall>k. smap_find (ov_txs ov') k = (case smap_find txs k of Some x \<Rightarrow> Some x | None \<Rightarrow> smap_find (ov_txs ov) k))"
  using assms
proof (induction txs arbitrary: ov)
  case (Cons e it)
  obtain k txn meta where e: "e = (k, txn, meta)" by (cases e)
  let ?ov = "ov\<lparr>ov_txs := smap_put k (txn, meta) (ov_txs ov)\<rparr>"
  have n: "smap_find it k = None" using Cons.prems(1) unfolding e by (rule smap_find_Cons_ok)
  have ne: "j \<noteq> k" if "(j, x) \<in> set it" for j x using n that by (force simp: map_of_eq_None_iff)
  have "\<forall>(k, x) \<in> set it. smap_find (ov_txs ?ov) k = None"
    using Cons.prems(2) ne by (fastforce simp: smap_find_put)
  then obtain ov' where l: "txs_apply OpenView_rawTxInsert it ?ov = Inr ov'" "ov_items ov' = ov_items ov" "ov_base ov' = ov_base ov"
      "\<forall>j. smap_find (ov_txs ov') j = (case smap_find it j of Some x \<Rightarrow> Some x | None \<Rightarrow> smap_find (ov_txs ?ov) j)"
    using Cons.IH [of ?ov] Cons.prems(1) e by auto
  have "txs_apply OpenView_rawTxInsert (e # it) ov = Inr ov'"
    using Cons.prems(2) e l(1) by (simp add: OpenView_rawTxInsert_def)
  moreover have "smap_find (ov_txs ov') j = (case smap_find (e # it) j of Some x \<Rightarrow> Some x | None \<Rightarrow> smap_find (ov_txs ov) j)" for j
    using l(4) n e by (auto simp: smap_find_put split: option.split)
  ultimately show ?case using l(2,3) by blast
qed simp

text \<open>The state entries and the transactions of a ledger are changed apart from each other.\<close>

lemma Ledger_raw_txMap:
  "Ledger_rawErase e led = Inr led' \<Longrightarrow> txMap led' = txMap led"
  "Ledger_rawInsert e led = Inr led' \<Longrightarrow> txMap led' = txMap led"
  "Ledger_rawReplace e led = Inr led' \<Longrightarrow> txMap led' = txMap led"
  by (auto simp: Ledger_rawErase_def Ledger_rawInsert_def Ledger_rawReplace_def split: option.splits)

lemma raw_apply_items_txMap:
  "raw_apply_items Ledger_rawErase Ledger_rawInsert Ledger_rawReplace items led = Inr led' \<Longrightarrow> txMap led' = txMap led"
proof (induction items arbitrary: led)
  case (Cons e it)
  obtain k action s where e: "e = (k, action, s)" by (cases e)
  show ?case
    using Cons Ledger_raw_txMap [of s led] by (auto simp: e split: sum.splits raw_action.splits)
qed simp

lemma Raw_apply_txMap:
  "Raw_apply Ledger_rawErase Ledger_rawInsert Ledger_rawReplace Ledger_rawDestroy t led = Inr led' \<Longrightarrow> txMap led' = txMap led"
  using raw_apply_items_txMap by (fastforce simp: Raw_apply_def Ledger_rawDestroy_def)

lemma OpenView_raw_txs:
  "OpenView_rawErase e ov = Inr ov' \<Longrightarrow> ov_txs ov' = ov_txs ov \<and> ov_base ov' = ov_base ov"
  "OpenView_rawInsert e ov = Inr ov' \<Longrightarrow> ov_txs ov' = ov_txs ov \<and> ov_base ov' = ov_base ov"
  "OpenView_rawReplace e ov = Inr ov' \<Longrightarrow> ov_txs ov' = ov_txs ov \<and> ov_base ov' = ov_base ov"
  by (auto simp: OpenView_rawErase_def OpenView_rawInsert_def OpenView_rawReplace_def map_sum_def split: sum.splits)

lemma raw_apply_items_txs:
  "raw_apply_items OpenView_rawErase OpenView_rawInsert OpenView_rawReplace items ov = Inr ov' \<Longrightarrow>
     ov_txs ov' = ov_txs ov \<and> ov_base ov' = ov_base ov"
proof (induction items arbitrary: ov)
  case (Cons e it)
  obtain k action s where e: "e = (k, action, s)" by (cases e)
  obtain ov1 where r: "(case action of raw_erase \<Rightarrow> OpenView_rawErase s ov | raw_insert \<Rightarrow> OpenView_rawInsert s ov
        | raw_replace \<Rightarrow> OpenView_rawReplace s ov) = Inr ov1"
      "raw_apply_items OpenView_rawErase OpenView_rawInsert OpenView_rawReplace it ov1 = Inr ov'"
    using Cons.prems e by (auto split: sum.splits)
  have "ov_txs ov1 = ov_txs ov \<and> ov_base ov1 = ov_base ov"
    using r(1) OpenView_raw_txs by (cases action) (simp_all, blast+)
  then show ?case using Cons.IH [OF r(2)] by simp
qed simp

lemma Raw_apply_txs:
  "Raw_apply OpenView_rawErase OpenView_rawInsert OpenView_rawReplace OpenView_rawDestroy t ov = Inr ov' \<Longrightarrow>
     ov_txs ov' = ov_txs ov \<and> ov_base ov' = ov_base ov"
  using raw_apply_items_txs by (fastforce simp: Raw_apply_def OpenView_rawDestroy_def)

abbreviation ledger_apply :: "('s, 'f, 'tx, 'r) OpenView \<Rightarrow> ('f, 'tx) ledger \<Rightarrow> logic_error + ('f, 'tx) ledger" where
  "ledger_apply \<equiv> OpenView_apply Ledger_rawErase Ledger_rawInsert Ledger_rawReplace Ledger_rawDestroy Ledger_rawTxInsert"

abbreviation view_apply :: "('u, 'f, 'tx, 'q) OpenView \<Rightarrow> ('s, 'f, 'tx, 'r) OpenView \<Rightarrow> logic_error + ('s, 'f, 'tx, 'r) OpenView" where
  "view_apply \<equiv> OpenView_apply OpenView_rawErase OpenView_rawInsert OpenView_rawReplace OpenView_rawDestroy OpenView_rawTxInsert"

abbreviation view_ok :: "(('f, 'tx) ledger, 'f, 'tx, 'r) OpenView \<Rightarrow> bool" where
  "view_ok \<equiv> OpenView_ok ledger_contents ledger_ok"

abbreviation view2_ok :: "((('f, 'tx) ledger, 'f, 'tx, 'r) OpenView, 'f, 'tx, 'q) OpenView \<Rightarrow> bool" where
  "view2_ok \<equiv> OpenView_ok (OpenView_contents ledger_contents) view_ok"

section \<open>A sample\<close>

definition sample_sle :: "uint256 \<Rightarrow> nat \<Rightarrow> nat sle" where
  "sample_sle k n = \<lparr>sle_key = k, sle_type = ltOFFER, sle_fields = n\<rparr>"

definition sample_info :: LedgerInfo where
  "sample_info = \<lparr>li_seq = 7, li_parentCloseTime = 10, li_hash = 70, li_txHash = 0, li_accountHash = 0,
     li_parentHash = 60, li_drops = 1000, li_validated = True, li_accepted = True, li_closeFlags = 0,
     li_closeTimeResolution = 10, li_closeTime = 20\<rparr>"

definition sample_ledger :: "(nat, nat) ledger" where
  "sample_ledger = \<lparr>stateMap = [(1, sample_sle 1 10), (5, sample_sle 5 50)], txMap = [(9, 90, 91)], led_info = sample_info\<rparr>"

text \<open>A view that erases the entry 1, inserts the entry 3, destroys 12 drops and has a transaction.\<close>

definition sample_view :: "((nat, nat) ledger, nat, nat, unit) OpenView" where
  "sample_view = \<lparr>ov_txs = [(8, 80, Some 81)], ov_rules = (), ov_info = sample_info, ov_base = sample_ledger,
     ov_items = \<lparr>raw_items = [(1, raw_erase, sample_sle 1 10), (3, raw_insert, sample_sle 3 30)], raw_dropsDestroyed = 12\<rparr>,
     ov_open = False\<rparr>"

definition sample_view2 :: "(((nat, nat) ledger, nat, nat, unit) OpenView, nat, nat, unit) OpenView" where
  "sample_view2 = \<lparr>ov_txs = [(6, 60, Some 61)], ov_rules = (), ov_info = sample_info, ov_base = sample_view,
     ov_items = \<lparr>raw_items = [(1, raw_insert, sample_sle 1 11), (3, raw_erase, sample_sle 3 30)], raw_dropsDestroyed = 5\<rparr>,
     ov_open = False\<rparr>"

lemma fits_code:
  assumes "smap_ok items" and "\<forall>(k, action, s) \<in> set items. sle_key s = k \<and> k \<noteq> 0 \<and> (action = raw_insert \<longleftrightarrow> M k = None)"
  shows "fits M items"
  using assms smap_find_in [of items] unfolding fits_def by fastforce

lemma sample_view_ok: "view_ok sample_view"
proof -
  have "ledger_ok sample_ledger" by code_simp
  moreover have "fits (ledger_contents sample_ledger) (raw_items (ov_items sample_view))"
    by (rule fits_code; code_simp)
  ultimately show ?thesis by (simp add: OpenView_ok_def) (simp add: sample_view_def)
qed

lemma sample_view2_ok: "view2_ok sample_view2"
proof -
  have "fits (OpenView_contents ledger_contents sample_view) (raw_items (ov_items sample_view2))"
    by (rule fits_code; code_simp)
  moreover have "ov_base sample_view2 = sample_view" by (simp add: sample_view2_def)
  ultimately show ?thesis using sample_view_ok by (simp add: OpenView_ok_def [of _ view_ok])
qed

section \<open>Properties\<close>

text \<open>C3. A view on a closed ledger reads as the ledger's entries with the buffered changes on top:
  an entry by its keylet, the next key within a bound, all the entries and those above a key in
  ascending order. No call fails to return, and none follows a null pointer.\<close>

theorem OpenView_reads_overlay:
  assumes "view_ok ov"
  shows "OpenView_read Ledger_view ov kl = lookup (OpenView_contents ledger_contents ov) kl
    \<and> OpenView_succ Ledger_view ov key last_key = Some (next_key (OpenView_contents ledger_contents ov) key last_key)
    \<and> (\<exists>xs. OpenView_sles Ledger_view ov = Some xs \<and> entries (OpenView_contents ledger_contents ov) xs)
    \<and> (\<exists>xs. OpenView_slesUpperBound Ledger_view ov key = Some xs
         \<and> entries (above key (OpenView_contents ledger_contents ov)) xs)"
  using opv.read [OF assms, of kl] opv.succ [OF assms, of key last_key] opv.sles [OF assms] opv.upper_bound [OF assms, of key]
  by (simp add: OpenView_view_def)

theorem OpenView_reads_overlay_witness:
  "next_key (OpenView_contents ledger_contents sample_view) 1 (Some 5) = Some 3
   \<and> (\<exists>xs. map sle_key xs = [3, 5] \<and> entries (OpenView_contents ledger_contents sample_view) xs)"
proof -
  have "OpenView_succ Ledger_view sample_view 1 (Some 5) = Some (Some 3)"
      "map_option (map sle_key) (OpenView_sles Ledger_view sample_view) = Some [3, 5]"
    by code_simp+
  note v = this and o = OpenView_reads_overlay [OF sample_view_ok, of "keylet_unchecked 1" 1 "Some 5"]
  obtain xs where "OpenView_sles Ledger_view sample_view = Some xs" "entries (OpenView_contents ledger_contents sample_view) xs"
    using o by blast
  then have "map sle_key xs = [3, 5] \<and> entries (OpenView_contents ledger_contents sample_view) xs" using v(2) by simp
  moreover have "next_key (OpenView_contents ledger_contents sample_view) 1 (Some 5) = Some 3" using o v(1) by simp
  ultimately show ?thesis by (intro conjI exI [of _ xs]) simp_all
qed

text \<open>C4. Applying a view to the closed ledger it was opened on, when its transactions are new and have
  metadata, succeeds; the ledger then reads exactly as the view did, has the drops of the destroyed
  fees less and the view's transactions more.\<close>

theorem OpenView_apply_to_ledger:
  assumes ok: "view_ok ov" and txs: "smap_ok (ov_txs ov)"
    and new: "\<forall>(k, txn, meta) \<in> set (ov_txs ov). meta \<noteq> None \<and> smap_find (txMap (ov_base ov)) k = None"
  shows "\<exists>led. ledger_apply ov (ov_base ov) = Inr led \<and> ledger_ok led
    \<and> (\<forall>kl. Ledger_read led kl = OpenView_read Ledger_view ov kl)
    \<and> (\<forall>key last_key. OpenView_succ Ledger_view ov key last_key = Some (Ledger_succ led key last_key))
    \<and> ledger_drops led = ledger_drops (ov_base ov) - OpenView_dropsDestroyed ov
    \<and> (\<forall>k. Ledger_txRead led k = (case smap_find (ov_txs ov) k of Some (txn, meta) \<Rightarrow> Some (txn, the meta)
         | None \<Rightarrow> Ledger_txRead (ov_base ov) k))"
proof -
  have b: "ledger_ok (ov_base ov)" "fits (ledger_contents (ov_base ov)) (raw_items (ov_items ov))"
    using ok by (simp_all add: OpenView_ok_def)
  obtain l1 where r: "Raw_apply Ledger_rawErase Ledger_rawInsert Ledger_rawReplace Ledger_rawDestroy (ov_items ov) (ov_base ov) = Inr l1"
    and l1: "ledger_ok l1" "ledger_contents l1 = OpenView_contents ledger_contents ov"
      "ledger_drops l1 = ledger_drops (ov_base ov) - OpenView_dropsDestroyed ov"
    using led_raw.Raw_apply_spec [OF b] by (auto simp: OpenView_contents_def)
  have m: "txMap l1 = txMap (ov_base ov)" using r by (rule Raw_apply_txMap)
  obtain led where l: "txs_apply Ledger_rawTxInsert (ov_txs ov) l1 = Inr led" "stateMap led = stateMap l1" "led_info led = led_info l1"
      "\<forall>k. smap_find (txMap led) k = (case smap_find (ov_txs ov) k of Some (txn, meta) \<Rightarrow> Some (txn, the meta) | None \<Rightarrow> smap_find (txMap l1) k)"
    using txs_apply_ledger [OF txs, of l1] new unfolding m by auto
  have ok': "ledger_ok led" and c: "ledger_contents led = OpenView_contents ledger_contents ov"
    using l1(1,2) l(2) by (simp_all add: ledger_ok_def ledger_contents_def)
  show ?thesis
    unfolding Ledger_txRead_def
    using r l(1-3) l(4) [unfolded m] l1(3) ok' c led.read [OF ok'] led.succ [OF ok'] opv.read [OF ok] opv.succ [OF ok]
    by (simp add: OpenView_apply_def Ledger_view_def OpenView_view_def)
qed

theorem OpenView_apply_to_ledger_witness:
  "\<exists>led. ledger_apply sample_view sample_ledger = Inr led \<and> ledger_drops led = 988
     \<and> Ledger_read led (keylet_unchecked 3) = Some (sample_sle 3 30) \<and> Ledger_read led (keylet_unchecked 1) = None"
proof -
  have "ov_base sample_view = sample_ledger" by (simp add: sample_view_def)
  moreover have "smap_ok (ov_txs sample_view)"
      "\<forall>(k, txn, meta) \<in> set (ov_txs sample_view). meta \<noteq> None \<and> smap_find (txMap (ov_base sample_view)) k = None"
      "OpenView_read Ledger_view sample_view (keylet_unchecked 3) = Some (sample_sle 3 30)"
      "OpenView_read Ledger_view sample_view (keylet_unchecked 1) = None"
      "ledger_drops sample_ledger - OpenView_dropsDestroyed sample_view = 988"
    by code_simp+
  ultimately show ?thesis using OpenView_apply_to_ledger [OF sample_view_ok] by fastforce
qed

text \<open>C28. Views stack: applying the upper of two views on a closed ledger to the lower one, when its
  transactions are new there, succeeds, and the lower view then reads exactly as the upper one did
  and accounts for the drops both have destroyed. Its changes are still good to apply to the ledger.\<close>

theorem OpenView_apply_to_view:
  assumes ok: "view2_ok ov" and txs: "smap_ok (ov_txs ov)"
    and new: "\<forall>(k, x) \<in> set (ov_txs ov). smap_find (ov_txs (ov_base ov)) k = None"
  shows "\<exists>low. view_apply ov (ov_base ov) = Inr low \<and> view_ok low \<and> ov_base low = ov_base (ov_base ov)
    \<and> (\<forall>kl. OpenView_read Ledger_view low kl = OpenView_read (OpenView_view Ledger_view) ov kl)
    \<and> (\<forall>key last_key. OpenView_succ Ledger_view low key last_key = OpenView_succ (OpenView_view Ledger_view) ov key last_key)
    \<and> OpenView_dropsDestroyed low = OpenView_dropsDestroyed (ov_base ov) + OpenView_dropsDestroyed ov
    \<and> (\<forall>k. smap_find (ov_txs low) k = (case smap_find (ov_txs ov) k of Some x \<Rightarrow> Some x
         | None \<Rightarrow> smap_find (ov_txs (ov_base ov)) k))"
proof -
  have b: "view_ok (ov_base ov)" "fits (OpenView_contents ledger_contents (ov_base ov)) (raw_items (ov_items ov))"
    using ok by (simp_all add: OpenView_ok_def [of _ view_ok])
  obtain l1 where r: "Raw_apply OpenView_rawErase OpenView_rawInsert OpenView_rawReplace OpenView_rawDestroy (ov_items ov) (ov_base ov) = Inr l1"
    and l1: "view_ok l1" "OpenView_contents ledger_contents l1 = OpenView_contents (OpenView_contents ledger_contents) ov"
      "OpenView_dropsDestroyed l1 = OpenView_dropsDestroyed (ov_base ov) + OpenView_dropsDestroyed ov"
    using opv_raw.Raw_apply_spec [OF b] by (auto simp: OpenView_contents_def [of "OpenView_contents ledger_contents"])
  have m: "ov_txs l1 = ov_txs (ov_base ov)" "ov_base l1 = ov_base (ov_base ov)" using Raw_apply_txs [OF r] by simp_all
  obtain low where l: "txs_apply OpenView_rawTxInsert (ov_txs ov) l1 = Inr low" "ov_items low = ov_items l1" "ov_base low = ov_base l1"
      "\<forall>k. smap_find (ov_txs low) k = (case smap_find (ov_txs ov) k of Some x \<Rightarrow> Some x | None \<Rightarrow> smap_find (ov_txs l1) k)"
    using txs_apply_view [OF txs, of l1] new m by auto
  have ok': "view_ok low"
    and c: "OpenView_contents ledger_contents low = OpenView_contents (OpenView_contents ledger_contents) ov"
    using l1(1,2) l(2,3) by (simp_all add: OpenView_ok_def OpenView_contents_def [of ledger_contents])
  show ?thesis
    using r l(1-3) l(4) [unfolded m(1)] l1(3) m(2) ok' c opv.read [OF ok'] opv.succ [OF ok'] opv2.read [OF ok] opv2.succ [OF ok]
    by (simp add: OpenView_apply_def OpenView_view_def)
qed

theorem OpenView_apply_to_view_witness:
  "\<exists>low. view_apply sample_view2 sample_view = Inr low
     \<and> OpenView_read Ledger_view low (keylet_unchecked 1) = Some (sample_sle 1 11) \<and> OpenView_dropsDestroyed low = 17"
proof -
  have "ov_base sample_view2 = sample_view" by (simp add: sample_view2_def)
  moreover have "smap_ok (ov_txs sample_view2)"
      "\<forall>(k, x) \<in> set (ov_txs sample_view2). smap_find (ov_txs (ov_base sample_view2)) k = None"
      "OpenView_read (OpenView_view Ledger_view) sample_view2 (keylet_unchecked 1) = Some (sample_sle 1 11)"
      "OpenView_dropsDestroyed sample_view + OpenView_dropsDestroyed sample_view2 = 17"
    by code_simp+
  ultimately show ?thesis using OpenView_apply_to_view [OF sample_view2_ok] by fastforce
qed

text \<open>C29. The search for the next key returns on every closed ledger, whatever the table on top has
  erased.\<close>

theorem Raw_succ_returns:
  assumes "ledger_ok led" and "smap_ok (raw_items t)"
  shows "\<exists>r. Raw_succ (Ledger_view led) t key last_key = Some r
    \<and> (\<forall>n. r = Some n \<longrightarrow> key < n \<and> (\<forall>l. last_key = Some l \<longrightarrow> n < l))"
  using led.Raw_succ_spec [OF assms] next_key_SomeD by blast

theorem Raw_succ_returns_witness:
  "\<exists>r. Raw_succ (Ledger_view sample_ledger) \<lparr>raw_items = [(1, raw_erase, sample_sle 1 10), (5, raw_erase, sample_sle 5 50)],
     raw_dropsDestroyed = 0\<rparr> 0 None = Some r"
proof -
  have "ledger_ok sample_ledger" by code_simp
  moreover have "smap_ok (raw_items \<lparr>raw_items = [(1, raw_erase, sample_sle 1 10), (5, raw_erase, sample_sle 5 50)], raw_dropsDestroyed = 0\<rparr>)"
    by code_simp
  ultimately show ?thesis using Raw_succ_returns by blast
qed




end
