(* ===== verification/ApplyView_Properties.thy ===== *)
theory ApplyView_Properties
  imports ApplyView OpenView_Properties
begin

text \<open>
  Properties of a sandbox on a closed ledger, for any sequence of operations its user makes within
  the requirements of the interface.
\<close>

section \<open>Runs of a sandbox\<close>

inductive sandbox_run :: "('s \<Rightarrow> 'f read_view) \<Rightarrow> ('s \<Rightarrow> 'f contents) \<Rightarrow> ('s, 'f) ApplyViewBase \<Rightarrow> ('s, 'f) ApplyViewBase \<Rightarrow> bool"
  for view :: "'s \<Rightarrow> 'f read_view" and C :: "'s \<Rightarrow> 'f contents" and v0 :: "('s, 'f) ApplyViewBase" where
  run_start: "sandbox_run view C v0 v0"
| run_peek: "sandbox_run view C v0 v \<Longrightarrow> ApplyViewBase_peek view kl v = (p, v') \<Longrightarrow> sandbox_run view C v0 v'"
| run_set: "sandbox_run view C v0 v \<Longrightarrow> avb_held v p = Some (sle_key (f (avb_get p v))) \<Longrightarrow> sandbox_run view C v0 (avb_set p f v)"
| run_update: "sandbox_run view C v0 v \<Longrightarrow> p < length (avb_store v) \<Longrightarrow> ApplyViewBase_update p v = Inr v' \<Longrightarrow> sandbox_run view C v0 v'"
| run_erase: "sandbox_run view C v0 v \<Longrightarrow> p < length (avb_store v) \<Longrightarrow> ApplyViewBase_erase p v = Inr v' \<Longrightarrow> sandbox_run view C v0 v'"
| run_insert: "sandbox_run view C v0 v \<Longrightarrow> avb_contents C v (sle_key e) = None \<Longrightarrow> sle_key e \<noteq> 0 \<Longrightarrow> avb_make e v = (p, v1)
    \<Longrightarrow> ApplyViewBase_insert p v1 = Inr v' \<Longrightarrow> sandbox_run view C v0 v'"
| run_destroy: "sandbox_run view C v0 v \<Longrightarrow> sandbox_run view C v0 (ApplyViewBase_rawDestroy fee v)"

lemma avb_new_wf: "ok s \<Longrightarrow> avb_wf C ok (ApplyViewBase_new s flags)"
  by (simp add: avb_wf_def ApplyViewBase_new_def new_apply_table_def apply_fits_def)

lemma avb_new_contents: "avb_contents C (ApplyViewBase_new s flags) = C s"
  by (simp add: avb_contents_def ApplyViewBase_new_def new_apply_table_def overlay_def seen_def fun_eq_iff)

lemma avb_new_ok: "ok s \<Longrightarrow> avb_ok C ok (ApplyViewBase_new s flags)"
  using avb_new_wf [of ok s C flags]
  by (simp add: avb_ok_def avb_unmarked_def unmarked_def ApplyViewBase_new_def new_apply_table_def)

text \<open>A call of \<^verbatim>\<open>update\<close> or \<^verbatim>\<open>erase\<close> succeeds for the entries of the view and no others.\<close>

lemma update_iff_held:
  assumes "avb_wf C ok v" and "p < length (avb_store v)"
  shows "(\<exists>v'. ApplyViewBase_update p v = Inr v') \<longleftrightarrow> avb_held v p \<noteq> None"
proof
  assume "\<exists>v'. ApplyViewBase_update p v = Inr v'"
  then show "avb_held v p \<noteq> None" using assms(2)
    by (auto simp: ApplyViewBase_update_def Apply_update_def avb_held_def Let_def split: option.splits if_splits apply_action.splits)
next
  assume "avb_held v p \<noteq> None"
  then show "\<exists>v'. ApplyViewBase_update p v = Inr v'" using avb_update_spec [OF assms(1), of p] by blast
qed

lemma erase_iff_held:
  assumes "avb_wf C ok v" and "p < length (avb_store v)"
  shows "(\<exists>v'. ApplyViewBase_erase p v = Inr v') \<longleftrightarrow> avb_held v p \<noteq> None"
proof
  assume "\<exists>v'. ApplyViewBase_erase p v = Inr v'"
  then show "avb_held v p \<noteq> None" using assms(2)
    by (auto simp: ApplyViewBase_erase_def Apply_erase_def avb_held_def Let_def split: option.splits if_splits apply_action.splits)
next
  assume "avb_held v p \<noteq> None"
  then show "\<exists>v'. ApplyViewBase_erase p v = Inr v'" using avb_erase_spec [OF assms(1), of p] by blast
qed

context entry_view
begin

lemma sandbox_run_inv:
  "sandbox_run view C v0 v \<Longrightarrow> avb_wf C ok v0 \<Longrightarrow> avb_wf C ok v \<and> avb_base v = avb_base v0"
proof (induction rule: sandbox_run.induct)
  case (run_peek v kl p v')
  then have wf: "avb_wf C ok v" "avb_base v = avb_base v0" by simp_all
  show ?case
    using avb_peek_none [OF wf(1), of kl] avb_peek_some [OF wf(1), of kl] wf run_peek(2)
    by (cases "lookup (avb_contents C v) kl") auto
next
  case (run_set v p f)
  then show ?case using avb_set_spec [of C ok v p _ f] by simp
next
  case (run_update v p v')
  then have wf: "avb_wf C ok v" "avb_base v = avb_base v0" by simp_all
  then obtain k where "avb_held v p = Some k" using update_iff_held [OF wf(1) run_update(2)] run_update(3) by blast
  then show ?case using avb_update_spec [OF wf(1)] run_update(3) wf(2) by fastforce
next
  case (run_erase v p v')
  then have wf: "avb_wf C ok v" "avb_base v = avb_base v0" by simp_all
  then obtain k where "avb_held v p = Some k" using erase_iff_held [OF wf(1) run_erase(2)] run_erase(3) by blast
  then show ?case using avb_erase_spec [OF wf(1)] run_erase(3) wf(2) by fastforce
next
  case (run_insert v e p v1 v')
  then show ?case using avb_insert_spec [of C ok v e p v1] by fastforce
next
  case (run_destroy v fee)
  then show ?case by (auto simp: ApplyViewBase_rawDestroy_def Apply_destroyBIXRP_def avb_wf_def)
qed simp

end

section \<open>A sample\<close>

text \<open>The entry 1 was checked out, changed and marked; the entry 5 was checked out and changed only.\<close>

definition sample_change :: "nat \<Rightarrow> nat sle \<Rightarrow> nat sle" where
  "sample_change n e = e\<lparr>sle_fields := n\<rparr>"

definition sample_sandbox :: "((nat, nat) ledger, nat) ApplyViewBase" where
  "sample_sandbox = \<lparr>avb_flags = 0, avb_base = sample_ledger,
     avb_items = \<lparr>app_items = [(1, act_modify, 0), (5, act_cache, 1)], app_dropsDestroyed = 4\<rparr>,
     avb_store = [sample_sle 1 11, sample_sle 5 51]\<rparr>"

lemma sample_sandbox_run: "sandbox_run Ledger_view ledger_contents (ApplyViewBase_new sample_ledger 0) sample_sandbox"
proof -
  let ?v0 = "ApplyViewBase_new sample_ledger 0 :: ((nat, nat) ledger, nat) ApplyViewBase"
  let ?run = "sandbox_run Ledger_view ledger_contents ?v0"
  let ?v1 = "snd (ApplyViewBase_peek Ledger_view (keylet_unchecked 1) ?v0)"
  let ?v2 = "avb_set 0 (sample_change 11) ?v1"
  let ?v3 = "projr (ApplyViewBase_update 0 ?v2)"
  let ?v4 = "snd (ApplyViewBase_peek Ledger_view (keylet_unchecked 5) ?v3)"
  let ?v5 = "avb_set 1 (sample_change 51) ?v4"
  have "?run ?v1" by (rule run_peek [OF run_start]) (rule prod.collapse [symmetric])
  then have "?run ?v2" by (rule run_set) code_simp
  moreover have "0 < length (avb_store ?v2)" "ApplyViewBase_update 0 ?v2 = Inr ?v3" by code_simp+
  ultimately have "?run ?v3" by (rule run_update)
  then have "?run ?v4" by (rule run_peek) (rule prod.collapse [symmetric])
  then have "?run ?v5" by (rule run_set) code_simp
  then have "?run (ApplyViewBase_rawDestroy 4 ?v5)" by (rule run_destroy)
  moreover have "ApplyViewBase_rawDestroy 4 ?v5 = sample_sandbox" by code_simp
  ultimately show ?thesis by simp
qed

lemma sample_ledger_ok: "ledger_ok sample_ledger"
  by code_simp

section \<open>Properties\<close>

text \<open>C31. A sandbox stays well-formed: after any sequence of operations its journal holds each entry under
  its own key, with a pointer of its own, and marked as inserted exactly when the ledger has no such
  entry; the ledger is untouched. The calls that mark or erase an entry succeed exactly for the
  entries that were checked out of this view or inserted into it. Reading by keylet and the search
  for the next key agree with the contents.\<close>

theorem sandbox_well_formed:
  assumes "ledger_ok led" and "sandbox_run Ledger_view ledger_contents (ApplyViewBase_new led flags) v"
  shows "avb_wf ledger_contents ledger_ok v \<and> avb_base v = led
    \<and> (\<forall>p < length (avb_store v). ((\<exists>v'. ApplyViewBase_update p v = Inr v') \<longleftrightarrow> avb_held v p \<noteq> None)
         \<and> ((\<exists>v'. ApplyViewBase_erase p v = Inr v') \<longleftrightarrow> avb_held v p \<noteq> None))
    \<and> ApplyViewBase_read Ledger_view v kl = lookup (avb_contents ledger_contents v) kl
    \<and> ApplyViewBase_succ Ledger_view v key last_key = Some (next_key (avb_contents ledger_contents v) key last_key)"
proof -
  have wf: "avb_wf ledger_contents ledger_ok v" and b: "avb_base v = led"
    using led.sandbox_run_inv [OF assms(2)] avb_new_wf [of ledger_ok led ledger_contents flags] assms(1)
    by (simp_all add: ApplyViewBase_new_def)
  show ?thesis
    using wf b update_iff_held [OF wf] erase_iff_held [OF wf] avb_entries.read [OF wf, of kl] avb_entries.succ [OF wf, of key last_key]
    by (simp add: ApplyViewBase_view_def)
qed

theorem sandbox_well_formed_witness:
  "avb_wf ledger_contents ledger_ok sample_sandbox \<and> avb_held sample_sandbox 1 = Some 5
   \<and> (\<exists>v'. ApplyViewBase_erase 1 sample_sandbox = Inr v') \<and> next_key (avb_contents ledger_contents sample_sandbox) 1 None = Some 5"
proof -
  note w = sandbox_well_formed [OF sample_ledger_ok sample_sandbox_run, of "keylet_unchecked 1" 1 None]
  have h: "avb_held sample_sandbox 1 = Some 5" by code_simp
  have "1 < length (avb_store sample_sandbox)" by code_simp
  then have "\<exists>v'. ApplyViewBase_erase 1 sample_sandbox = Inr v'" using w h by (metis option.distinct(1))
  moreover have "ApplyViewBase_succ Ledger_view sample_sandbox 1 None = Some (Some 5)" by code_simp
  then have "next_key (avb_contents ledger_contents sample_sandbox) 1 None = Some 5" using w by simp
  ultimately show ?thesis using w h by blast
qed

text \<open>C32. Applying a sandbox to its ledger succeeds after any sequence of operations. The ledger then reads
  as the sandbox did, except that an entry changed through its pointer and never marked as updated
  keeps its old value, and the destroyed drops are gone.\<close>

theorem sandbox_apply_exact:
  assumes "ledger_ok led" and "sandbox_run Ledger_view ledger_contents (ApplyViewBase_new led flags) v"
  shows "\<exists>led'. Sandbox_apply Ledger_rawErase Ledger_rawInsert Ledger_rawReplace Ledger_rawDestroy v led = Inr led' \<and> ledger_ok led'
    \<and> ledger_contents led' = (\<lambda>k. if k \<in> avb_unmarked ledger_contents v then ledger_contents led k else avb_contents ledger_contents v k)
    \<and> ledger_drops led' = ledger_drops led - app_dropsDestroyed (avb_items v)"
proof -
  have wf: "avb_wf ledger_contents ledger_ok v" and b: "avb_base v = led"
    using led.sandbox_run_inv [OF assms(2)] avb_new_wf [of ledger_ok led ledger_contents flags] assms(1)
    by (simp_all add: ApplyViewBase_new_def)
  obtain led' where "Sandbox_apply Ledger_rawErase Ledger_rawInsert Ledger_rawReplace Ledger_rawDestroy v led = Inr led'" "ledger_ok led'"
      "ledger_contents led' = (\<lambda>k. if k \<in> avb_unmarked ledger_contents v then ledger_contents led k else avb_contents ledger_contents v k)"
      "- ledger_drops led' = - ledger_drops led + app_dropsDestroyed (avb_items v)"
    using led_raw.Sandbox_apply_spec [OF assms(1) _ wf] b by blast
  then show ?thesis by (intro exI [of _ led']) simp
qed

theorem sandbox_apply_exact_witness:
  "\<exists>led'. Sandbox_apply Ledger_rawErase Ledger_rawInsert Ledger_rawReplace Ledger_rawDestroy sample_sandbox sample_ledger = Inr led'
     \<and> ledger_contents led' 1 = Some (sample_sle 1 11) \<and> ledger_contents led' 5 = Some (sample_sle 5 50) \<and> ledger_drops led' = 996"
proof -
  obtain led' where l: "Sandbox_apply Ledger_rawErase Ledger_rawInsert Ledger_rawReplace Ledger_rawDestroy sample_sandbox sample_ledger = Inr led'"
      "ledger_contents led' = (\<lambda>k. if k \<in> avb_unmarked ledger_contents sample_sandbox then ledger_contents sample_ledger k
         else avb_contents ledger_contents sample_sandbox k)"
      "ledger_drops led' = ledger_drops sample_ledger - app_dropsDestroyed (avb_items sample_sandbox)"
    using sandbox_apply_exact [OF sample_ledger_ok sample_sandbox_run] by blast
  have "smap_find (app_items (avb_items sample_sandbox)) 5 = Some (act_cache, 1)"
    "smap_find (app_items (avb_items sample_sandbox)) 1 = Some (act_modify, 0)"
    "ledger_contents (avb_base sample_sandbox) 5 = Some (sample_sle 5 50)" "avb_store sample_sandbox ! 1 = sample_sle 5 51"
    by code_simp+
  then have "5 \<in> avb_unmarked ledger_contents sample_sandbox" "1 \<notin> avb_unmarked ledger_contents sample_sandbox"
    by (auto simp: avb_unmarked_def unmarked_def sample_sle_def)
  moreover have "ledger_contents sample_ledger 5 = Some (sample_sle 5 50)" "avb_contents ledger_contents sample_sandbox 1 = Some (sample_sle 1 11)"
    "ledger_drops sample_ledger - app_dropsDestroyed (avb_items sample_sandbox) = 996" by code_simp+
  ultimately show ?thesis using l by simp
qed

end
