(* ===== verification/Directory_Properties.thy ===== *)
theory Directory_Properties
  imports Directory_Traverse ApplyView_Properties
begin

text \<open>Properties of the directories of a sandbox on a closed ledger.\<close>

section \<open>The entries of a directory\<close>

lemma place_key_iff: "(\<exists>ys. place_key preserveOrder key xs = Inr ys) \<longleftrightarrow> key \<notin> set xs"
proof (cases preserveOrder)
  case False
  let ?pos = "dropWhile (\<lambda>x. x < key) (sort xs)"
  have "key \<in> set xs \<longleftrightarrow> ?pos \<noteq> [] \<and> hd ?pos = key"
  proof
    assume "key \<in> set xs"
    then have "key \<in> set (takeWhile (\<lambda>x. x < key) (sort xs) @ ?pos)" unfolding takeWhile_dropWhile_id by simp
    moreover have "key \<notin> set (takeWhile (\<lambda>x. x < key) (sort xs))" using set_takeWhileD by fastforce
    ultimately have k: "key \<in> set ?pos" unfolding set_append by blast
    have ne: "?pos \<noteq> []"
    proof
      assume "?pos = []"
      with k show False by (simp only: list.set empty_iff)
    qed
    have "sorted ?pos" by (rule sorted_dropWhile) simp
    then have "hd ?pos \<le> key" using k ne by (cases ?pos) auto
    moreover have "\<not> hd ?pos < key" using hd_dropWhile [OF ne] .
    ultimately show "?pos \<noteq> [] \<and> hd ?pos = key" using ne by auto
  next
    assume "?pos \<noteq> [] \<and> hd ?pos = key"
    then have "key \<in> set ?pos" using hd_in_set by metis
    then show "key \<in> set xs" using set_dropWhileD by fastforce
  qed
  then show ?thesis using False by (auto simp: place_key_def Let_def)
qed (simp add: place_key_def)

lemma place_key_mset: "place_key preserveOrder key xs = Inr ys \<Longrightarrow> mset ys = add_mset key (mset xs)"
proof (cases preserveOrder)
  case False
  assume "place_key preserveOrder key xs = Inr ys"
  then have "ys = takeWhile (\<lambda>x. x < key) (sort xs) @ key # dropWhile (\<lambda>x. x < key) (sort xs)"
    using False by (auto simp: place_key_def Let_def split: if_splits)
  moreover have "mset (takeWhile (\<lambda>x. x < key) (sort xs)) + mset (dropWhile (\<lambda>x. x < key) (sort xs)) = mset xs"
    by (metis mset_append mset_sort takeWhile_dropWhile_id)
  ultimately show ?thesis by simp
qed (auto simp: place_key_def split: if_splits)

lemma dir_add_entries:
  assumes "dir_add preserveOrder key ps = Inr (Some n, qs)"
  shows "mset (dir_entries qs) = add_mset key (mset (dir_entries ps))" and "\<exists>js. (n, js) \<in> set qs \<and> key \<in> set js"
proof -
  have "mset (dir_entries qs) = add_mset key (mset (dir_entries ps)) \<and> (\<exists>js. (n, js) \<in> set qs \<and> key \<in> set js)"
  proof (cases ps rule: rev_cases)
    case Nil
    then show ?thesis using assms by (auto simp: dir_add_def)
  next
    case (snoc us u)
    obtain m xs where u: "u = (m, xs)" by fastforce
    show ?thesis
    proof (cases "length xs < dirNodeMaxEntries")
      case True
      then have r: "map_sum id (\<lambda>ys. (Some m, us @ [(m, ys)])) (place_key preserveOrder key xs) = Inr (Some n, qs)"
        using assms by (simp add: dir_add_def snoc u)
      obtain ys where ys: "place_key preserveOrder key xs = Inr ys"
        using r by (cases "place_key preserveOrder key xs") (simp, blast)
      then have "us @ [(m, ys)] = qs" "m = n" using r by auto
      note ys = ys this [symmetric]
      note m = place_key_mset [OF ys(1)]
      then have "key \<in># mset ys" by simp
      then have "key \<in> set ys" by simp
      moreover have "(n, ys) \<in> set qs" by (simp add: ys(2,3))
      moreover have "mset (dir_entries qs) = add_mset key (mset (dir_entries ps))" using m by (simp add: ys(2) snoc u)
      ultimately show ?thesis by blast
    next
      case False
      then have q: "qs = ps @ [(n, [key])]" using assms by (auto simp add: dir_add_def snoc u split: if_splits)
      then have "(n, [key]) \<in> set qs" by simp
      moreover have "mset (dir_entries qs) = add_mset key (mset (dir_entries ps))" by (simp add: q)
      ultimately show ?thesis by auto
    qed
  qed
  then show "mset (dir_entries qs) = add_mset key (mset (dir_entries ps))" "\<exists>js. (n, js) \<in> set qs \<and> key \<in> set js" by auto
qed

lemma dir_remove_entries:
  assumes "key \<in> set is"
  shows "add_mset key (mset (dir_entries (dir_remove keepRoot key xs (n, is) ys))) = mset (dir_entries (xs @ (n, is) # ys))"
proof -
  have m: "add_mset key (mset (remove1 key is)) = mset is" using assms by simp
  show ?thesis
  proof (cases "remove1 key is = []")
    case True
    then have i: "mset is = {#key#}" using m by simp
    have keep: "dir_entries (if \<not> keepRoot \<and> qs = [(0, [])] then [] else qs) = dir_entries qs" for qs :: pages by simp
    have "dir_entries (dir_remove keepRoot key xs (n, is) ys) = dir_entries (xs @ ys)"
      unfolding dir_remove_def snd_conv fst_conv True Let_def by (simp only: not_not if_False simp_thms keep) simp
    then show ?thesis using i by simp
  next
    case False
    then show ?thesis using m by (simp add: dir_remove_def)
  qed
qed

section \<open>A sample\<close>

text \<open>A directory of three pages, with the given keys on the first, and an entry that is no page; the hash adds the page number.\<close>

definition sample_hash :: "uint256 \<Rightarrow> u64 \<Rightarrow> uint256" where
  "sample_hash k n = k + ucast n"

definition sample_page :: "u64 \<Rightarrow> uint256 list \<Rightarrow> u64 \<Rightarrow> u64 \<Rightarrow> unit dir_sle" where
  "sample_page n is next prev = \<lparr>sle_key = 1 + ucast n, sle_type = ltDIR_NODE,
     sle_fields = \<lparr>sfRootIndex = 1, sfIndexes = is, sfIndexNext = next, sfIndexPrevious = prev, sfOther = ()\<rparr>\<rparr>"

definition sample_item :: "unit dir_sle" where
  "sample_item = (sample_page 0 [] 0 0)\<lparr>sle_key := 36893488147419103232, sle_type := ltACCOUNT_ROOT\<rparr>"

definition sample_dirs :: "uint256 list \<Rightarrow> (unit dir_fields, nat) ledger" where
  "sample_dirs is = \<lparr>stateMap = [(1, sample_page 0 is 1 2), (2, sample_page 1 [500] 2 0), (3, sample_page 2 [700] 0 1),
     (36893488147419103232, sample_item)],
     txMap = [], led_info = sample_info\<rparr>"

definition sample_dir_box :: "uint256 list \<Rightarrow> ((unit dir_fields, nat) ledger, unit dir_fields) ApplyViewBase" where
  "sample_dir_box is = ApplyViewBase_new (sample_dirs is) 0"

lemma sample_dirs_ok: "ledger_ok (sample_dirs is)"
  by (simp add: ledger_ok_def sample_dirs_def sample_page_def sample_item_def)

lemma sample_pkey: "pkey sample_hash 1 n = 1 + ucast n"
  by (simp add: pkey_def keylet_page_def sample_hash_def)

lemma unat_sample_pkey: "unat (pkey sample_hash 1 n) = Suc (unat n)"
proof -
  have n: "unat n < 2 ^ 64" using unsigned_less [of n] by simp
  have u: "unat (ucast n :: uint256) = unat n"
    using n by (simp add: unsigned_ucast_eq unsigned_take_bit_eq take_bit_nat_eq_self_iff)
  show ?thesis unfolding sample_pkey unat_word_ariths u using n by (simp add: unat_word_ariths)
qed

lemma sample_page_keys: "page_keys sample_hash 1"
proof -
  have "inj (pkey sample_hash 1)"
  proof (rule injI)
    fix m n assume "pkey sample_hash 1 m = pkey sample_hash 1 n"
    then have "Suc (unat m) = Suc (unat n)" by (metis unat_sample_pkey)
    then show "m = n" by (simp add: word_unat_eq_iff)
  qed
  moreover have "pkey sample_hash 1 n \<noteq> 0" for n using unat_sample_pkey [of n] by auto
  ultimately show ?thesis by (simp add: page_keys_def)
qed

lemma sample_contents:
  "ledger_contents (sample_dirs is) (pkey sample_hash 1 n) =
    (if n = 0 then Some (sample_page 0 is 1 2) else if n = 1 then Some (sample_page 1 [500] 2 0)
     else if n = 2 then Some (sample_page 2 [700] 0 1) else None)"
proof -
  have "pkey sample_hash 1 n = 1 \<longleftrightarrow> n = 0" "pkey sample_hash 1 n = 2 \<longleftrightarrow> n = 1" "pkey sample_hash 1 n = 3 \<longleftrightarrow> n = 2"
    using pkey_eq [OF sample_page_keys, of n 0] pkey_eq [OF sample_page_keys, of n 1] pkey_eq [OF sample_page_keys, of n 2]
    by (simp_all add: sample_pkey)
  moreover have "pkey sample_hash 1 n \<noteq> 36893488147419103232"
  proof
    assume "pkey sample_hash 1 n = 36893488147419103232"
    then have "unat (36893488147419103232 :: uint256) = Suc (unat n)" using unat_sample_pkey [of n] by simp
    moreover have "unat n < 2 ^ 64" using unsigned_less [of n] by simp
    ultimately show False by simp
  qed
  ultimately show ?thesis by (simp add: ledger_contents_def sample_dirs_def)
qed

lemma sample_directory:
  "directory sample_hash 1 (avb_contents ledger_contents (sample_dir_box is)) [(0, is), (1, [500]), (2, [700])]"
  unfolding sample_dir_box_def avb_new_contents directory_def
  using sample_page_keys
  by (auto simp: all_typed_def sample_contents page_typed_def sample_page_def ix_def nx_def pv_def fun_eq_iff page_nos_def)

lemma sample_dir_box_ok: "avb_ok ledger_contents ledger_ok (sample_dir_box is)"
  unfolding sample_dir_box_def by (rule avb_new_ok) (rule sample_dirs_ok)

section \<open>Adding and removing keys\<close>

lemma dir_add_fails_iff:
  "(\<exists>err. dir_add preserveOrder key ps = Inl err) \<longleftrightarrow>
     ps \<noteq> [] \<and> length (snd (last ps)) < dirNodeMaxEntries \<and> key \<in> set (snd (last ps))"
  using place_key_iff [of preserveOrder key "snd (last ps)"]
  by (cases "place_key preserveOrder key (snd (last ps))") (auto simp: dir_add_def split: prod.splits)

lemma dir_add_full: "dir_add preserveOrder key ps = Inr (None, qs) \<Longrightarrow> qs = ps"
  by (cases "place_key preserveOrder key (snd (last ps))") (auto simp: dir_add_def split: prod.splits if_splits)

text \<open>C33. \<^verbatim>\<open>dirAdd\<close> on a sandbox does what the list of pages says. The key goes to the last page when
  that has room, and to a new page at the end otherwise; the first page is made when there is none. The
  answer is the number of the page, which then holds the key, and the entries gain exactly that key.
  At the largest page number nothing changes. A key that the page with room has already is
  the one logic error. The chain of links stays whole and no other entry of the ledger changes.\<close>

theorem dirAdd_correct:
  fixes v :: "(('r dir_fields, 'tx) ledger, 'r dir_fields) ApplyViewBase"
  assumes ok: "avb_ok ledger_contents ledger_ok v" and d: "directory hash r (avb_contents ledger_contents v) ps"
    and ds: "describes describe"
  shows "case dir_add preserveOrder key ps of
      Inl err \<Rightarrow> dirAdd (ApplyViewBase_ops Ledger_view) hash blank preserveOrder (keylet_page hash r 0) key describe v = Inl err
        \<and> length (snd (last ps)) < dirNodeMaxEntries \<and> key \<in> set (snd (last ps))
    | Inr (page, qs) \<Rightarrow> \<exists>v'. dirAdd (ApplyViewBase_ops Ledger_view) hash blank preserveOrder (keylet_page hash r 0) key describe v
          = Inr (page, v') \<and> avb_ok ledger_contents ledger_ok v'
        \<and> directory hash r (avb_contents ledger_contents v') qs
        \<and> (\<forall>k. k \<notin> range (pkey hash r) \<longrightarrow> avb_contents ledger_contents v' k = avb_contents ledger_contents v k)
        \<and> (case page of
             None \<Rightarrow> qs = ps
           | Some n \<Rightarrow> mset (dir_entries qs) = add_mset key (mset (dir_entries ps)) \<and> (\<exists>js. (n, js) \<in> set qs \<and> key \<in> set js))"
proof -
  let ?add = "dirAdd (ApplyViewBase_ops Ledger_view) hash blank preserveOrder (keylet_page hash r 0) key describe v"
  let ?frame = "\<lambda>v'. \<forall>k. k \<notin> range (pkey hash r) \<longrightarrow> avb_contents ledger_contents v' k = avb_contents ledger_contents v k"
  have *: "case dir_add preserveOrder key ps of Inl err \<Rightarrow> ?add = Inl err
    | Inr (page, qs) \<Rightarrow> \<exists>v'. ?add = Inr (page, v') \<and> avb_ok ledger_contents ledger_ok v'
        \<and> directory hash r (avb_contents ledger_contents v') qs \<and> ?frame v'"
  proof (cases ps rule: rev_cases)
    case Nil
    show ?thesis using dirs.dirAdd_empty [OF ok d [unfolded Nil] ds] by (simp add: dir_add_def Nil)
  next
    case (snoc us u)
    obtain m xs where u: "u = (m, xs)" by (cases u)
    show ?thesis unfolding snoc u by (rule dirs.dirAdd_pages [OF ok d [unfolded snoc u] ds])
  qed
  show ?thesis
  proof (cases "dir_add preserveOrder key ps")
    case (Inl err)
    then show ?thesis using * dir_add_fails_iff [of preserveOrder key ps] by simp
  next
    case (Inr res)
    obtain page qs where res: "res = (page, qs)" by (cases res)
    have "case page of None \<Rightarrow> qs = ps
      | Some n \<Rightarrow> mset (dir_entries qs) = add_mset key (mset (dir_entries ps)) \<and> (\<exists>js. (n, js) \<in> set qs \<and> key \<in> set js)"
      using dir_add_full [of preserveOrder key ps qs] dir_add_entries [of preserveOrder key ps _ qs] Inr res
      by (cases page) simp_all
    then show ?thesis using * unfolding Inr res by simp
  qed
qed

lemma sample_describes: "describes id"
  by (simp add: describes_def)

theorem dirAdd_correct_witness:
  "\<exists>v'. dirAdd (ApplyViewBase_ops Ledger_view) sample_hash () False (keylet_page sample_hash 1 0) 600 id (sample_dir_box [])
       = Inr (Some 2, v') \<and> directory sample_hash 1 (avb_contents ledger_contents v') [(0, []), (1, [500]), (2, [600, 700])]"
proof -
  have "dir_add False 600 [(0, []), (1, [500]), (2, [700])] = Inr (Some 2, [(0, []), (1, [500]), (2, [600, 700])])"
    by code_simp
  then show ?thesis
    using dirAdd_correct [OF sample_dir_box_ok sample_directory sample_describes, where preserveOrder = False and key = 600 and blank = "()" and is2 = "[]"] by auto
qed

text \<open>C34. \<^verbatim>\<open>dirRemove\<close> on a sandbox finds a key exactly when the named page holds it. The entries
  then lose one copy of the key. A page left empty is unlinked and erased, together with an empty last
  page after it; the first page stays unless it is the only one left and need not be kept. When the page or the key is
  missing the answer is false and the ledger reads as before. The chain stays whole, no logic error is raised, and no
  other entry of the ledger changes.\<close>

theorem dirRemove_correct:
  fixes v :: "(('r dir_fields, 'tx) ledger, 'r dir_fields) ApplyViewBase"
  assumes ok: "avb_ok ledger_contents ledger_ok v" and d: "directory hash r (avb_contents ledger_contents v) ps"
  shows "(\<forall>xs is ys. ps = xs @ (n, is) # ys \<longrightarrow> key \<in> set is \<longrightarrow>
      (\<exists>v'. dirRemove (ApplyViewBase_ops Ledger_view) hash (keylet_page hash r 0) n key keepRoot v = Inr (True, v')
        \<and> avb_ok ledger_contents ledger_ok v'
        \<and> directory hash r (avb_contents ledger_contents v') (dir_remove keepRoot key xs (n, is) ys)
        \<and> add_mset key (mset (dir_entries (dir_remove keepRoot key xs (n, is) ys))) = mset (dir_entries ps)
        \<and> (\<forall>k. k \<notin> range (pkey hash r) \<longrightarrow> avb_contents ledger_contents v' k = avb_contents ledger_contents v k)))
    \<and> ((\<forall>is. (n, is) \<in> set ps \<longrightarrow> key \<notin> set is) \<longrightarrow>
      (\<exists>v'. dirRemove (ApplyViewBase_ops Ledger_view) hash (keylet_page hash r 0) n key keepRoot v = Inr (False, v')
        \<and> avb_ok ledger_contents ledger_ok v' \<and> avb_contents ledger_contents v' = avb_contents ledger_contents v))"
proof (intro conjI allI impI)
  fix xs "is" ys assume ps: "ps = xs @ (n, is) # ys" and key: "key \<in> set is"
  show "\<exists>v'. dirRemove (ApplyViewBase_ops Ledger_view) hash (keylet_page hash r 0) n key keepRoot v = Inr (True, v')
        \<and> avb_ok ledger_contents ledger_ok v'
        \<and> directory hash r (avb_contents ledger_contents v') (dir_remove keepRoot key xs (n, is) ys)
        \<and> add_mset key (mset (dir_entries (dir_remove keepRoot key xs (n, is) ys))) = mset (dir_entries ps)
        \<and> (\<forall>k. k \<notin> range (pkey hash r) \<longrightarrow> avb_contents ledger_contents v' k = avb_contents ledger_contents v k)"
    using dirs.dirRemove_found [OF ok d [unfolded ps] key, of keepRoot] dir_remove_entries [OF key, of keepRoot xs n ys]
    unfolding ps by blast
next
  assume "\<forall>is. (n, is) \<in> set ps \<longrightarrow> key \<notin> set is"
  then show "\<exists>v'. dirRemove (ApplyViewBase_ops Ledger_view) hash (keylet_page hash r 0) n key keepRoot v = Inr (False, v')
        \<and> avb_ok ledger_contents ledger_ok v' \<and> avb_contents ledger_contents v' = avb_contents ledger_contents v"
    by (rule dirs.dirRemove_missing [OF ok d])
qed

theorem dirRemove_correct_witness:
  "(\<exists>v'. dirRemove (ApplyViewBase_ops Ledger_view) sample_hash (keylet_page sample_hash 1 0) 1 500 False (sample_dir_box [])
       = Inr (True, v') \<and> directory sample_hash 1 (avb_contents ledger_contents v') [(0, []), (2, [700])])
   \<and> (\<exists>v'. dirRemove (ApplyViewBase_ops Ledger_view) sample_hash (keylet_page sample_hash 1 0) 1 501 False (sample_dir_box [])
       = Inr (False, v'))"
proof
  have q: "dir_remove False 500 [(0, [])] (1, [500]) [(2, [700])] = [(0, []), (2, [700])]" by code_simp
  note r = dirRemove_correct [OF sample_dir_box_ok sample_directory, of "[]" 1 _ False]
  show "\<exists>v'. dirRemove (ApplyViewBase_ops Ledger_view) sample_hash (keylet_page sample_hash 1 0) 1 500 False (sample_dir_box [])
       = Inr (True, v') \<and> directory sample_hash 1 (avb_contents ledger_contents v') [(0, []), (2, [700])]"
    using r [of 500, THEN conjunct1, rule_format, of "[(0, [])]" "[500]" "[(2, [700])]"] unfolding q by auto
  show "\<exists>v'. dirRemove (ApplyViewBase_ops Ledger_view) sample_hash (keylet_page sample_hash 1 0) 1 501 False (sample_dir_box [])
       = Inr (False, v')"
    using r [of 501, THEN conjunct2, THEN mp] by auto
qed

section \<open>Reading a directory\<close>

text \<open>C35. The walks over a directory return, and agree. \<^verbatim>\<open>forEachItem\<close> reads the entries of all pages in the
  order of the chain, and \<^verbatim>\<open>cdirFirst\<close> with \<^verbatim>\<open>cdirNext\<close> gives their keys in that order, empty pages or not. The range of
  \<^verbatim>\<open>Dir\<close> gives the same entries when no page is empty and no key is zero. \<^verbatim>\<open>dirIsEmpty\<close> holds exactly of a missing
  directory and of one with an empty first page alone.\<close>

theorem traversals_exact:
  fixes v :: "(('r dir_fields, 'tx) ledger, 'r dir_fields) ApplyViewBase"
  assumes wf: "avb_wf ledger_contents ledger_ok v" and d: "directory hash r (avb_contents ledger_contents v) ps"
  shows "forEachItem (ApplyViewBase_view Ledger_view v) hash r
      = Some (map (\<lambda>key. lookup (avb_contents ledger_contents v) (keylet_child key)) (dir_entries ps))
    \<and> (ps \<noteq> [] \<longrightarrow> cdir_rest (ApplyViewBase_view Ledger_view v) hash r (cdirFirst (ApplyViewBase_view Ledger_view v) hash r x)
      = Some (dir_entries ps))
    \<and> ((\<forall>p \<in> set ps. snd p \<noteq> []) \<longrightarrow> 0 \<notin> set (dir_entries ps) \<longrightarrow>
      Dir_range (ApplyViewBase_view Ledger_view v) hash (keylet_page hash r 0)
        (Dir_begin (ApplyViewBase_view Ledger_view v) (keylet_page hash r 0)) = forEachItem (ApplyViewBase_view Ledger_view v) hash r)
    \<and> (dirIsEmpty (ApplyViewBase_view Ledger_view v) (keylet_page hash r 0) \<longleftrightarrow> ps = [] \<or> ps = [(0, [])])"
  using dir_avb.cdir_spec [OF wf d] dir_avb.Dir_spec [OF wf d]
  unfolding dir_avb.forEachItem_spec [OF wf d] dir_avb.dirIsEmpty_spec [OF wf d] by blast

lemma sample_dir_box_wf: "avb_wf ledger_contents ledger_ok (sample_dir_box is)"
  using sample_dir_box_ok by (simp add: avb_ok_def)

theorem traversals_exact_witness:
  "forEachItem (ApplyViewBase_view Ledger_view (sample_dir_box [36893488147419103232])) sample_hash 1 = Some [Some sample_item, None, None]
   \<and> Dir_range (ApplyViewBase_view Ledger_view (sample_dir_box [36893488147419103232])) sample_hash (keylet_page sample_hash 1 0)
        (Dir_begin (ApplyViewBase_view Ledger_view (sample_dir_box [36893488147419103232])) (keylet_page sample_hash 1 0))
      = Some [Some sample_item, None, None]
   \<and> cdir_rest (ApplyViewBase_view Ledger_view (sample_dir_box [36893488147419103232])) sample_hash 1
        (cdirFirst (ApplyViewBase_view Ledger_view (sample_dir_box [36893488147419103232])) sample_hash 1 0) = Some [36893488147419103232, 500, 700]"
proof -
  note t = traversals_exact [OF sample_dir_box_wf sample_directory, of "[36893488147419103232]" 0]
  have "map (\<lambda>key. lookup (avb_contents ledger_contents (sample_dir_box [36893488147419103232])) (keylet_child key)) [36893488147419103232, 500, 700]
    = [Some sample_item, None, None]"
    by code_simp
  then show ?thesis using t by simp
qed

section \<open>Where the code falls short\<close>

text \<open>C36. \<^verbatim>\<open>emptyDirDelete\<close> erases a directory exactly when its first page is empty and it has no other page than
  possibly an empty last one; otherwise the directory stays. It answers true in the first case, but also when
  an empty first page is followed by two or more pages: then the directory, entries included, is
  still there.\<close>

theorem emptyDirDelete_result:
  fixes v :: "(('r dir_fields, 'tx) ledger, 'r dir_fields) ApplyViewBase"
  assumes ok: "avb_ok ledger_contents ledger_ok v" and d: "directory hash r (avb_contents ledger_contents v) ((0, is) # ys)"
  shows "\<exists>b v'. emptyDirDelete (ApplyViewBase_ops Ledger_view) hash (keylet_page hash r 0) v = Inr (b, v')
    \<and> avb_ok ledger_contents ledger_ok v'
    \<and> directory hash r (avb_contents ledger_contents v') (if is = [] \<and> dir_trim ys = [] then [] else (0, is) # ys)
    \<and> (\<forall>k. k \<notin> range (pkey hash r) \<longrightarrow> avb_contents ledger_contents v' k = avb_contents ledger_contents v k)
    \<and> (b \<longleftrightarrow> is = [] \<and> (dir_trim ys = [] \<or> 2 \<le> length ys))"
proof -
  have "(length ys = 1 \<longrightarrow> dir_trim ys = []) \<longleftrightarrow> dir_trim ys = [] \<or> 2 \<le> length ys"
    by (cases ys) (auto simp: dir_trim_def Suc_le_eq split: list.splits)
  then show ?thesis using dirs.emptyDirDelete_spec [OF ok d] by auto
qed

theorem emptyDirDelete_result_witness:
  "\<exists>v'. emptyDirDelete (ApplyViewBase_ops Ledger_view) sample_hash (keylet_page sample_hash 1 0) (sample_dir_box []) = Inr (True, v')
     \<and> directory sample_hash 1 (avb_contents ledger_contents v') [(0, []), (1, [500]), (2, [700])]"
  using emptyDirDelete_result [OF sample_dir_box_ok sample_directory, of "[]"] by (auto simp: dir_trim_def)

text \<open>C37. The range of \<^verbatim>\<open>Dir\<close> over a directory whose first page is empty visits nothing, although the other
  pages may have entries and \<^verbatim>\<open>forEachItem\<close> visits them.\<close>

theorem Dir_misses_entries:
  fixes v :: "(('r dir_fields, 'tx) ledger, 'r dir_fields) ApplyViewBase"
  assumes wf: "avb_wf ledger_contents ledger_ok v" and d: "directory hash r (avb_contents ledger_contents v) ((0, []) # qs)"
  shows "Dir_range (ApplyViewBase_view Ledger_view v) hash (keylet_page hash r 0)
      (Dir_begin (ApplyViewBase_view Ledger_view v) (keylet_page hash r 0)) = Some []
    \<and> forEachItem (ApplyViewBase_view Ledger_view v) hash r
      = Some (map (\<lambda>key. lookup (avb_contents ledger_contents v) (keylet_child key)) (dir_entries qs))"
  using dir_avb.Dir_empty_first_page [OF wf d] dir_avb.forEachItem_spec [OF wf d] by simp

theorem Dir_misses_entries_witness:
  "Dir_range (ApplyViewBase_view Ledger_view (sample_dir_box [])) sample_hash (keylet_page sample_hash 1 0)
      (Dir_begin (ApplyViewBase_view Ledger_view (sample_dir_box [])) (keylet_page sample_hash 1 0)) = Some []
   \<and> forEachItem (ApplyViewBase_view Ledger_view (sample_dir_box [])) sample_hash 1 = Some [None, None]"
proof -
  have "map (\<lambda>key. lookup (avb_contents ledger_contents (sample_dir_box [])) (keylet_child key)) [500, 700] = [None, None]"
    by code_simp
  then show ?thesis using Dir_misses_entries [OF sample_dir_box_wf sample_directory] by simp
qed

end
