(* ===== verification/Spec2Isabelle.thy ===== *)
theory Spec2Isabelle
  imports Consensus_Rules DisputedTx IOU_MulRatio Validations_Properties Directory_Properties
begin

text \<open>
  A verification development of the ledger server \<^verbatim>\<open>bixd\<close> (C++, \<^verbatim>\<open>src/src/bixd\<close>).

  \<^bold>\<open>The program.\<close> The server takes part in a consensus protocol. In each round the nodes exchange
  proposals, vote on the transactions in dispute, close a ledger at an agreed time and sign a
  validation of it. The validations of the trusted nodes select the branch of ledger history the
  node works on. A ledger is a map from keys to entries; transactions do not write to it directly
  but to views stacked on top of it, and a view is applied to the level below as a whole. Amounts
  of issued currencies are decimal floating point numbers.

  \<^bold>\<open>The theories\<close>, in the order of their imports (paths below \<^verbatim>\<open>src/src/bixd\<close>):

  \<^item> \<open>Prelude\<close>: words, lists, and \<open>smap\<close>, the sorted association list that models
    \<^verbatim>\<open>std::map\<close> (and \<^verbatim>\<open>hash_map\<close>, whose order nothing depends on).

  \<^item> \<open>Consensus_Rules\<close>: \<^verbatim>\<open>consensus/Consensus.cpp\<close>, \<^verbatim>\<open>ConsensusParms.h\<close>, \<^verbatim>\<open>LedgerTiming.h\<close>.
    When to close a ledger, when the peers agree, how close times are rounded and ordered.
    The lemmas show that the percentage test decides the exact ratio, that two quorums overlap, that
    a decision to close is stable and comes, and that effective close times increase.

  \<^item> \<open>DisputedTx\<close>: \<^verbatim>\<open>consensus/DisputedTx.h\<close>. One dispute with the votes of the peers; an
    inductive relation runs the operations in any order. The tallies always are the number of
    votes, and the local vote follows the avalanche thresholds.

  \<^item> \<open>IOUAmount\<close>, \<open>IOU_MulRatio\<close>: \<^verbatim>\<open>basics/impl/IOUAmount.cpp\<close>. Normalisation, comparison,
    addition and multiplication by a ratio, with the exact value of an amount as a rational
    number, the error bounds, and the absence of overflow in the 128-bit arithmetic.

  \<^item> \<open>LedgerTrie\<close> (definitions), \<open>LedgerTrie_Correct\<close> (insertion keeps the invariant),
    \<open>LedgerTrie_Queries\<close> (removal and support queries), \<open>LedgerTrie_Preferred\<close> (the preferred
    ledger): \<^verbatim>\<open>consensus/LedgerTrie.h\<close>. The compressed trie of ancestry is generic in the ledger
    type; the record \<open>ledger_ops\<close> holds the operations of that type and the locale
    \<open>ledger_history\<close> their laws. The specification is a multiset of histories.

  \<^item> \<open>RCLValidatedLedger\<close>: \<^verbatim>\<open>app/consensus/RCLValidations.cpp\<close>. The ledger type the server
    instantiates the trie with; it interprets \<open>ledger_history\<close>, and the properties of the trie are
    stated here for the server's own instance.

  \<^item> \<open>Validations\<close> (definitions), \<open>Validations_Correct\<close> (invariants of every operation),
    \<open>Validations_Properties\<close>: \<^verbatim>\<open>consensus/Validations.h\<close> with the aged container of
    \<^verbatim>\<open>beast/container\<close> it uses. The clock and the acquisition of ledgers are arguments of the
    operations. The support in the trie is the number of validators at each ledger, sequence
    numbers of one validator increase, conflicting validations are found.

  \<^item> \<open>Ledger_View\<close>: \<^verbatim>\<open>ledger/ReadView.h\<close>, \<^verbatim>\<open>protocol/Keylet.h\<close> and the view operations of
    \<^verbatim>\<open>app/ledger/Ledger.cpp\<close>. A view is the record \<open>read_view\<close> of its reading operations; the
    locales \<open>entry_view\<close> and \<open>ledger_view\<close> (reads agree with a map of contents) and \<open>raw_view\<close> (writes change
    that map) are the contracts of \<^verbatim>\<open>ReadView\<close> and \<^verbatim>\<open>RawView\<close>.

  \<^item> \<open>RawStateTable\<close>, \<open>RawStateTable_Correct\<close>: \<^verbatim>\<open>ledger/impl/RawStateTable.cpp\<close>, the table of
    pending changes and the iterator that merges it with the base.

  \<^item> \<open>OpenView\<close>, \<open>OpenView_Properties\<close>: \<^verbatim>\<open>ledger/impl/OpenView.cpp\<close>. An open view provides
    both contracts again, so views stack; a view reads as the overlay of its changes on its base
    and applying it makes the base read so.

  \<^item> \<open>ApplyStateTable\<close>: \<^verbatim>\<open>ledger/impl/ApplyStateTable.cpp\<close>. The table of the entries a
    transaction has checked out. Entries are shared pointers there, and a client changes an entry in place;
    the model has a store of entries and the table holds addresses. The lemmas relate the
    table to a raw state table, once with every entry as it is seen and once with the marked ones only.

  \<^item> \<open>ApplyView\<close>, \<open>ApplyView_Properties\<close>: \<^verbatim>\<open>ledger/ApplyView.h\<close>, \<^verbatim>\<open>ApplyViewBase.cpp\<close>,
    \<^verbatim>\<open>Sandbox.h\<close>. The locale \<open>apply_view\<close> is the contract of \<^verbatim>\<open>ApplyView\<close>; a view on a
    closed ledger provides it, and the contracts of \<open>Ledger_View\<close> too. A sandbox stays well formed under
    every sequence of operations, and applying it gives the ledger exactly the changes that were marked.

  \<^item> \<open>Directory\<close> (definitions), \<open>Directory_Chain\<close> (a directory as a list of pages, and what the
    operations do to that list), \<open>Directory_Correct\<close> (the operations that change a directory, over
    \<open>apply_view\<close>), \<open>Directory_Traverse\<close> (the walks, over \<open>entry_view\<close>), \<open>Directory_Properties\<close>:
    \<^verbatim>\<open>ledger/impl/ApplyView.cpp\<close>, \<^verbatim>\<open>Directory.cpp\<close> and the directory functions of
    \<^verbatim>\<open>ledger/impl/View.cpp\<close>. The chain of pages stays whole, keys are added and
    removed exactly, and the walks return and agree, except on an empty first page.

  \<^bold>\<open>Conventions.\<close> A class is a record and a method a function that returns the new record. An
  exception, an assertion that stops the server or a null dereference is the left side of a sum.
  Machine integers are words where the code can reach the wrap-around and otherwise integers with
  the bound proved. Templates take their parameters as records of operations. No definition uses
  fuel: loops are structural, have a termination measure, or, where termination depends on the
  view below (the search for the next key in \<open>base_succ\<close>, the walks over a directory), are partial functions into
  option with a theorem that they return.

  \<^bold>\<open>Not modelled.\<close> Threads, locks and jobs, sockets, storage, JSON and RPC, cryptography, the
  serialised objects (opaque fields of an entry), the hash tree behind a ledger (an ordered map
  here), logging, and the vendored libraries. The round of consensus in \<^verbatim>\<open>consensus/Consensus.h\<close>,
  the metadata of a transaction and the threading of entries to it (the other half of
  \<^verbatim>\<open>ApplyStateTable.cpp\<close>), the transactors and the payment engine are outside the development.
\<close>

end
